(* ===== verification/Prelude.thy ===== *)
theory Prelude
  imports Complex_Main "HOL-Library.Word"
begin

section \<open>Prelude: C values, C strings and list lemmas shared by the components\<close>

text \<open>
  The types that stand for the C types of the sources, the return codes, the string
  routines of the C library that the sources call, and the generic lemmas the component
  theories use.

  \<^item> \<open>cdouble\<close> is C's \<open>double\<close>: every finite double is a rational number, and the
    sources only store, compare and subtract them (times and exposure identifiers).
    The subtraction is the exact one.
  \<^item> \<open>xlong\<close> is \<open>XLONG\<close>, an \<open>unsigned int\<close> in \<^verbatim>\<open>include/smCache.h\<close>, so 32 bits that
    wrap around.
  \<^item> \<open>int\<close> is used for C's \<open>int\<close>, \<open>pid_t\<close>, \<open>key_t\<close> and for addresses; \<open>0\<close> is
    \<open>NULL\<close>.
  \<^item> A C string is the list of its characters before the terminating NUL.
\<close>

type_synonym cdouble = rat
type_synonym xlong = "32 word"
type_synonym pid_t = int
type_synonym key_t = int
type_synonym addr_t = int

named_theorems smc_defs \<open>definitions of the shared memory cache operations\<close>
named_theorems kwdb_defs \<open>definitions of the keyword database operations\<close>

definition OK :: int where
  "OK = 0"

definition ERR :: int where
  "ERR = -1"

subsection \<open>Searching a list from the left\<close>

text \<open>The index of the first element that satisfies a predicate: the shape of the
  \<open>for (i=0; i < n; i++) if (\<dots>) return i;\<close> loops.\<close>

fun first_index :: "('a \<Rightarrow> bool) \<Rightarrow> 'a list \<Rightarrow> nat option" where
  "first_index P [] = None"
| "first_index P (x # xs) =
     (if P x then Some 0 else map_option Suc (first_index P xs))"

lemma first_index_Some:
  "first_index P xs = Some i \<longleftrightarrow> i < length xs \<and> P (xs ! i) \<and> (\<forall>j<i. \<not> P (xs ! j))"
proof (induction xs arbitrary: i)
  case Nil
  then show ?case by simp
next
  case (Cons x xs)
  show ?case
  proof (cases i)
    case 0
    then show ?thesis by auto
  next
    case (Suc k)
    have "(\<forall>j<Suc k. \<not> P ((x # xs) ! j)) \<longleftrightarrow> \<not> P x \<and> (\<forall>j<k. \<not> P (xs ! j))"
      by (auto simp: less_Suc_eq_0_disj)
    then show ?thesis using Suc Cons.IH [of k] by auto
  qed
qed

lemma first_index_None: "first_index P xs = None \<longleftrightarrow> (\<forall>x \<in> set xs. \<not> P x)"
  by (induction xs) auto

lemma first_index_bound [dest]: "first_index P xs = Some i \<Longrightarrow> i < length xs"
  by (simp add: first_index_Some)

lemma first_index_holds [dest]: "first_index P xs = Some i \<Longrightarrow> P (xs ! i)"
  by (simp add: first_index_Some)

lemma first_index_cong_pointwise:
  assumes "length xs = length ys"
    and "\<And>i. i < length xs \<Longrightarrow> P (xs ! i) = P (ys ! i)"
  shows "first_index P xs = first_index P ys"
  using assms
proof (induction xs ys rule: list_induct2)
  case Nil
  then show ?case by simp
next
  case (Cons x xs y ys)
  have "P x = P y" using Cons.prems [of 0] by simp
  moreover have "first_index P xs = first_index P ys"
    by (rule Cons.IH) (use Cons.prems [of "Suc i" for i] in auto)
  ultimately show ?case by simp
qed

lemma first_index_update_same:
  assumes "first_index P xs = Some i" and "P y"
  shows "first_index P (xs[i := y]) = Some i"
  using assms by (auto simp: first_index_Some)

lemma first_index_update_neither:
  assumes "\<not> P (xs ! i)" and "\<not> P y"
  shows "first_index P (xs[i := y]) = first_index P xs"
proof (cases "i < length xs")
  case True
  then show ?thesis using assms
    by (intro first_index_cong_pointwise) (auto simp: nth_list_update)
next
  case False
  then show ?thesis by (simp add: list_update_beyond)
qed

subsection \<open>Counting\<close>

abbreviation count_if :: "('a \<Rightarrow> bool) \<Rightarrow> 'a list \<Rightarrow> nat" where
  "count_if P xs \<equiv> length (filter P xs)"

lemma count_if_update:
  assumes "i < length xs"
  shows "count_if P (xs[i := y]) + (if P (xs ! i) then 1 else 0)
       = count_if P xs + (if P y then 1 else 0)"
proof -
  have xs: "xs = take i xs @ xs ! i # drop (Suc i) xs"
    using assms by (rule id_take_nth_drop)
  have "count_if P (xs[i := y]) = count_if P (take i xs @ y # drop (Suc i) xs)"
    using assms by (simp add: upd_conv_take_nth_drop)
  moreover have "count_if P xs = count_if P (take i xs @ xs ! i # drop (Suc i) xs)"
    using xs by simp
  ultimately show ?thesis by simp
qed

lemma count_if_update_int:
  assumes "i < length xs"
  shows "int (count_if P (xs[i := y]))
       = int (count_if P xs) + of_bool (P y) - of_bool (P (xs ! i))"
  using count_if_update [OF assms, of P y] by (auto split: if_splits)

subsection \<open>The C library's character and string routines\<close>

definition NUL :: char where
  "NUL = CHR 0x00"

definition c_code :: "char \<Rightarrow> nat" where
  "c_code c = of_char c"

definition c_isdigit :: "char \<Rightarrow> bool" where
  "c_isdigit c \<longleftrightarrow> 48 \<le> c_code c \<and> c_code c \<le> 57"

definition c_isupper :: "char \<Rightarrow> bool" where
  "c_isupper c \<longleftrightarrow> 65 \<le> c_code c \<and> c_code c \<le> 90"

definition c_islower :: "char \<Rightarrow> bool" where
  "c_islower c \<longleftrightarrow> 97 \<le> c_code c \<and> c_code c \<le> 122"

definition c_isalnum :: "char \<Rightarrow> bool" where
  "c_isalnum c \<longleftrightarrow> c_isdigit c \<or> c_isupper c \<or> c_islower c"

text \<open>Blank, and the controls tab, newline, vertical tab, form feed, carriage return.\<close>

definition c_isspace :: "char \<Rightarrow> bool" where
  "c_isspace c \<longleftrightarrow> c_code c = 32 \<or> (9 \<le> c_code c \<and> c_code c \<le> 13)"

definition c_isprint :: "char \<Rightarrow> bool" where
  "c_isprint c \<longleftrightarrow> 32 \<le> c_code c \<and> c_code c \<le> 126"

definition c_tolower :: "char \<Rightarrow> char" where
  "c_tolower c = (if c_isupper c then char_of (c_code c + 32) else c)"

text \<open>\<open>strncmp (s, t, n) == 0\<close> on two C strings.\<close>

definition strncmp_eq :: "string \<Rightarrow> string \<Rightarrow> nat \<Rightarrow> bool" where
  "strncmp_eq s t n \<longleftrightarrow> take n s = take n t"

text \<open>\<open>strchr (set, c) != NULL\<close>: the terminating NUL of the set counts as a member.\<close>

definition strchr_found :: "string \<Rightarrow> char \<Rightarrow> bool" where
  "strchr_found cs c \<longleftrightarrow> c = NUL \<or> c \<in> set cs"

definition char0 :: "string \<Rightarrow> char" where
  "char0 s = (case s of [] \<Rightarrow> NUL | c # _ \<Rightarrow> c)"

fun digits_val :: "int \<Rightarrow> string \<Rightarrow> int" where
  "digits_val acc [] = acc"
| "digits_val acc (c # cs) =
     (if c_isdigit c then digits_val (acc * 10 + int (c_code c - 48)) cs else acc)"

definition atoi :: "string \<Rightarrow> int" where
  "atoi s = (case dropWhile c_isspace s of
       [] \<Rightarrow> 0
     | c # cs \<Rightarrow> if c = CHR ''-'' then - digits_val 0 cs
                 else if c = CHR ''+'' then digits_val 0 cs
                 else digits_val 0 (c # cs))"

text \<open>The conversion \<open>%d\<close> of \<open>printf\<close>.\<close>

definition digit_char :: "nat \<Rightarrow> char" where
  "digit_char d = char_of (48 + d)"

fun show_nat :: "nat \<Rightarrow> string" where
  "show_nat n = (if n < 10 then [digit_char n] else show_nat (n div 10) @ [digit_char (n mod 10)])"

declare show_nat.simps [simp del]

definition show_int :: "int \<Rightarrow> string" where
  "show_int i = (if i < 0 then CHR ''-'' # show_nat (nat (- i)) else show_nat (nat i))"

lemma c_code_digit_char: "d < 10 \<Longrightarrow> c_code (digit_char d) = 48 + d"
  by (simp add: c_code_def digit_char_def)

lemma c_isdigit_digit_char: "d < 10 \<Longrightarrow> c_isdigit (digit_char d)"
  by (simp add: c_isdigit_def c_code_digit_char)

lemma digits_val_append:
  "list_all c_isdigit s \<Longrightarrow> digits_val acc (s @ t) = digits_val (digits_val acc s) t"
  by (induction s arbitrary: acc) auto

lemma show_nat_digits: "list_all c_isdigit (show_nat n)"
proof (induction n rule: show_nat.induct)
  case (1 n)
  then show ?case
    by (cases "n < 10") (simp_all add: show_nat.simps [of n] c_isdigit_digit_char)
qed

lemma show_nat_nonempty: "show_nat n \<noteq> []"
  by (subst show_nat.simps) simp

lemma show_nat_length: "n < 10 ^ Suc k \<Longrightarrow> length (show_nat n) \<le> Suc k"
proof (induction k arbitrary: n)
  case 0
  then show ?case by (simp add: show_nat.simps)
next
  case (Suc k)
  show ?case
  proof (cases "n < 10")
    case True
    then show ?thesis by (simp add: show_nat.simps)
  next
    case False
    have "n div 10 < 10 ^ Suc k" using Suc.prems by (simp add: less_mult_imp_div_less)
    then show ?thesis using Suc.IH [of "n div 10"] False by (simp add: show_nat.simps [of n])
  qed
qed

lemma digits_val_show_nat: "digits_val 0 (show_nat n) = int n"
proof (induction n rule: show_nat.induct)
  case (1 n)
  show ?case
  proof (cases "n < 10")
    case True
    then show ?thesis
      by (simp add: show_nat.simps [of n] c_isdigit_digit_char c_code_digit_char)
  next
    case False
    have "int (n div 10) * 10 + int (n mod 10) = int n" by presburger
    then show ?thesis
      using "1" False by (simp add: show_nat.simps [of n] digits_val_append show_nat_digits
          c_isdigit_digit_char c_code_digit_char)
  qed
qed

lemma digit_not_special:
  "c_isdigit c \<Longrightarrow> \<not> c_isspace c \<and> c \<noteq> CHR ''-'' \<and> c \<noteq> CHR ''+'' \<and> c \<noteq> CHR '','' \<and> c_isalnum c"
  by (auto simp: c_isdigit_def c_isspace_def c_isalnum_def c_code_def)

text \<open>What \<open>printf\<close> writes with \<open>%d\<close>, \<open>atoi\<close> reads back.\<close>

lemma atoi_show_int: "atoi (show_int i) = i"
proof (cases "i < 0")
  case True
  moreover have "\<not> c_isspace CHR ''-''" by (simp add: c_isspace_def c_code_def)
  ultimately show ?thesis by (simp add: atoi_def show_int_def digits_val_show_nat)
next
  case False
  obtain c cs where s: "show_nat (nat i) = c # cs"
    using show_nat_nonempty by (cases "show_nat (nat i)") auto
  then have c: "c_isdigit c" using show_nat_digits [of "nat i"] by simp
  have "digits_val 0 (c # cs) = i" using digits_val_show_nat [of "nat i"] False s by simp
  then show ?thesis using False s digit_not_special [OF c] by (simp add: atoi_def show_int_def)
qed

lemma show_int_token:
  "show_int i \<noteq> [] \<and> list_all (\<lambda>c. \<not> c_isspace c \<and> c \<noteq> CHR '','') (show_int i)
    \<and> list_all (\<lambda>c. c \<noteq> CHR ''='') (show_int i)"
proof -
  have d: "list_all (\<lambda>c. \<not> c_isspace c \<and> c \<noteq> CHR '','') (show_nat n)"
    "list_all (\<lambda>c. c \<noteq> CHR ''='') (show_nat n)" for n
    using show_nat_digits [of n] by (auto simp: list_all_iff digit_not_special
        c_isdigit_def c_code_def)
  have "\<not> c_isspace CHR ''-''" by (simp add: c_isspace_def c_code_def)
  then show ?thesis using d by (auto simp: show_int_def show_nat_nonempty)
qed

end
