(* ===== verification/Links.thy ===== *)
theory Links
  imports Prelude
begin

section \<open>Lists linked through an array of indices\<close>

text \<open>
  The keyword database links the elements of a table by their indices, with 0 as the end of a
  list.  \<open>seg nx i xs j\<close> says that following \<open>nx\<close> from \<open>i\<close> visits \<open>xs\<close> and arrives at
  \<open>j\<close>, \<open>chain nx i xs\<close> that it visits \<open>xs\<close> and ends.
\<close>

fun seg :: "(nat \<Rightarrow> nat) \<Rightarrow> nat \<Rightarrow> nat list \<Rightarrow> nat \<Rightarrow> bool" where
  "seg nx i [] j = (i = j)"
| "seg nx i (x # xs) j = (i = x \<and> x \<noteq> 0 \<and> seg nx (nx x) xs j)"

abbreviation chain :: "(nat \<Rightarrow> nat) \<Rightarrow> nat \<Rightarrow> nat list \<Rightarrow> bool" where
  "chain nx i xs \<equiv> seg nx i xs 0"

lemma seg_append: "seg nx i (xs @ ys) j \<longleftrightarrow> (\<exists>k. seg nx i xs k \<and> seg nx k ys j)"
  by (induction xs arbitrary: i) auto

lemma chain_zero [simp]: "chain nx 0 xs \<longleftrightarrow> xs = []"
  by (cases xs) auto

lemma chain_hd: "chain nx i xs \<Longrightarrow> i = (if xs = [] then 0 else hd xs)"
  by (cases xs) auto

lemma chain_nonzero: "seg nx i xs j \<Longrightarrow> 0 \<notin> set xs"
  by (induction xs arbitrary: i) auto

lemma seg_cong: "(\<And>x. x \<in> set xs \<Longrightarrow> nx' x = nx x) \<Longrightarrow> seg nx' i xs j = seg nx i xs j"
  by (induction xs arbitrary: i) auto

lemma seg_upd [simp]: "p \<notin> set xs \<Longrightarrow> seg (nx(p := v)) i xs j = seg nx i xs j"
  by (rule seg_cong) auto

text \<open>A new last element.\<close>

lemma chain_snoc:
  assumes "chain nx i (xs @ [p])" "distinct (xs @ [p])" "y \<noteq> 0" "y \<notin> set (xs @ [p])" "nx y = 0"
  shows "chain (nx(p := y)) i (xs @ [p, y])"
  using assms by (auto simp: seg_append)

text \<open>Taking an element out behind its predecessor.\<close>

lemma chain_unlink:
  assumes "chain nx i (xs @ p # e # ys)" "distinct (xs @ p # e # ys)"
  shows "chain (nx(p := nx e)) i (xs @ p # ys)"
  using assms by (auto simp: seg_append)

lemma split_before:
  assumes "e \<in> set xs" "e \<noteq> hd xs"
  obtains us p vs where "xs = us @ p # e # vs"
proof -
  obtain as bs where xs: "xs = as @ e # bs" using assms(1) by (meson split_list)
  then have "as \<noteq> []" using assms(2) by auto
  then have "xs = butlast as @ last as # e # bs" using xs by simp
  then show ?thesis by (rule that)
qed

lemma remove1_mid: "distinct (us @ p # e # vs) \<Longrightarrow> remove1 e (us @ p # e # vs) = us @ p # vs"
  by (auto simp: remove1_append)

lemma sorted_wrt_remove1: "sorted_wrt P xs \<Longrightarrow> sorted_wrt P (remove1 x xs)"
proof (induction xs)
  case (Cons y ys)
  then show ?case using set_remove1_subset [of x ys] by auto
qed simp

lemma filter_remove1_other: "\<not> P x \<Longrightarrow> filter P (remove1 x xs) = filter P xs"
  by (induction xs) auto

end
