(* ===== verification/Kwdb.thy ===== *)
theory Kwdb
  imports Links
begin

section \<open>The keyword database (mosdca/kwdb.c)\<close>

text \<open>
  A database is a table of items, a buffer of strings and a hash table.  Items are numbered
  from 1; item 0 and offset 0 of the buffer stand for none and for the empty string.  The
  items are linked twice: in the global list by \<open>nextglob\<close>, in the order of entry, and in the
  thread of their keyword's hash value by \<open>nexthash\<close>, most recent first.

  \<open>kw_sbuf\<close> is the used part of the string buffer, so its length is \<open>sbufused\<close>, and
  \<open>kw_cap\<close> the number of items for which the item table has room.  A C string argument that
  may be null is an \<open>option\<close>.  Writing outside the table or the buffer, indexing the hash
  table with a negative number, and not returning are \<open>None\<close>.  The argument \<open>ra\<close> tells
  whether \<open>realloc\<close> succeeds.
\<close>

definition NTHREADS :: int where "NTHREADS = 797"
definition DEF_SZSBUF :: nat where "DEF_SZSBUF = 1024000"
definition DEF_NKEYWORDS :: nat where "DEF_NKEYWORDS = 2048"
definition MAX_HASHCHARS :: nat where "MAX_HASHCHARS = 18"

definition primes :: "int list" where
  "primes = [101, 103, 107, 109, 113, 127, 131, 137, 139, 149, 151, 157, 163, 167, 173, 179, 181, 191]"

record item =
  it_name :: nat
  it_value :: nat
  it_vallen :: nat
  it_type :: nat
  it_typelen :: nat
  it_comment :: nat
  it_comlen :: nat
  it_nexthash :: nat
  it_nextglob :: nat

record kwdb =
  kw_kwdbname :: nat
  kw_maxitems :: nat
  kw_nitems :: int
  kw_itemsused :: nat
  kw_sbuflen :: nat
  kw_head :: nat
  kw_tail :: nat
  kw_cap :: nat
  kw_itab :: "nat \<Rightarrow> item"
  kw_sbuf :: string
  kw_hashtbl :: "nat \<Rightarrow> nat"

definition zero_item :: item where
  "zero_item = \<lparr>it_name = 0, it_value = 0, it_vallen = 0, it_type = 0, it_typelen = 0, it_comment = 0,
     it_comlen = 0, it_nexthash = 0, it_nextglob = 0\<rparr>"

subsection \<open>Internal functions\<close>

text \<open>The C string at an offset of a buffer.\<close>

definition str_at :: "string \<Rightarrow> nat \<Rightarrow> string" where
  "str_at buf off = takeWhile (\<lambda>c. c \<noteq> NUL) (drop off buf)"

abbreviation kw_str :: "kwdb \<Rightarrow> nat \<Rightarrow> string" where
  "kw_str db off \<equiv> str_at (kw_sbuf db) off"

text \<open>\<open>char\<close> is signed; \<open>isupper\<close> holds of ASCII capitals only.\<close>

definition schar :: "char \<Rightarrow> int" where
  "schar c = (if c_code c < 128 then int (c_code c) else int (c_code c) - 256)"

text \<open>The remainder of C, which has the sign of the dividend.\<close>

definition c_rem :: "int \<Rightarrow> int \<Rightarrow> int" where
  "c_rem a b = (if a < 0 then - ((- a) mod b) else a mod b)"

text \<open>\<open>for (ip=key, sum=i=0; (ch = *ip) && i < MAX_HASHCHARS; i++)\<close>: the pointer \<open>ip\<close> is never
  moved, so every round adds the first character.\<close>

function hash_loop :: "string \<Rightarrow> nat \<Rightarrow> int \<Rightarrow> int" where
  "hash_loop ip i acc =
     (if ip \<noteq> [] \<and> i < MAX_HASHCHARS then hash_loop ip (Suc i) (acc + schar (c_tolower (hd ip)) * primes ! i)
      else acc)"
  by pat_completeness auto
termination by (relation "measure (\<lambda>(ip, i, acc). MAX_HASHCHARS - i)") auto

declare hash_loop.simps [simp del]

definition hash :: "string \<Rightarrow> int" where
  "hash key = c_rem (hash_loop key 0 0) NTHREADS"

fun streq :: "string \<Rightarrow> string \<Rightarrow> bool" where
  "streq [] [] = True"
| "streq [] (c2 # s2) = False"
| "streq (c1 # s1) [] = False"
| "streq (c1 # s1) (c2 # s2) = (if c_tolower c1 = c_tolower c2 then streq s1 s2 else False)"

definition addstr :: "bool \<Rightarrow> kwdb \<Rightarrow> string option \<Rightarrow> (nat \<times> kwdb) option" where
  "addstr ra db text =
     (case text of
        None \<Rightarrow> Some (0, db)
      | Some t \<Rightarrow>
          if t = [] then Some (0, db)
          else
            let nchars = length t + 1;
                grow = (kw_sbuflen db \<le> length (kw_sbuf db) + nchars)
            in if grow \<and> \<not> ra then Some (0, db)
               else let db1 = (if grow then db\<lparr>kw_sbuflen := kw_sbuflen db + DEF_SZSBUF\<rparr> else db)
                    in if kw_sbuflen db1 < length (kw_sbuf db) + nchars then None
                       else Some (length (kw_sbuf db), db1\<lparr>kw_sbuf := kw_sbuf db @ t @ [NUL]\<rparr>))"

subsection \<open>Public functions\<close>

text \<open>The inner \<open>None\<close> is the null pointer returned when an allocation fails.\<close>

definition kwdb_Open :: "bool \<Rightarrow> string \<Rightarrow> kwdb option option" where
  "kwdb_Open ok name =
     (if \<not> ok then Some None
      else if DEF_SZSBUF < length name + 2 then None
      else Some (Some \<lparr>kw_kwdbname = 1, kw_maxitems = DEF_NKEYWORDS, kw_nitems = 0, kw_itemsused = 1,
        kw_sbuflen = DEF_SZSBUF, kw_head = 0, kw_tail = 0, kw_cap = DEF_NKEYWORDS, kw_itab = (\<lambda>_. zero_item),
        kw_sbuf = [NUL] @ name @ [NUL], kw_hashtbl = (\<lambda>_. 0)\<rparr>))"

definition kwdb_Name :: "kwdb \<Rightarrow> string" where
  "kwdb_Name db = kw_str db (kw_kwdbname db)"

definition kwdb_Len :: "kwdb \<Rightarrow> int" where
  "kwdb_Len db = kw_nitems db"

definition opt_len :: "string option \<Rightarrow> nat" where
  "opt_len s = (case s of None \<Rightarrow> 0 | Some t \<Rightarrow> length t)"

text \<open>Room in the item table: when \<open>realloc\<close> fails \<open>maxitems\<close> has been raised already.\<close>

definition grow_items :: "bool \<Rightarrow> kwdb \<Rightarrow> bool \<times> kwdb" where
  "grow_items ra db =
     (if kw_maxitems db \<le> kw_itemsused db then
        (let db1 = db\<lparr>kw_maxitems := kw_maxitems db + DEF_NKEYWORDS\<rparr>
         in if ra then (True, db1\<lparr>kw_cap := kw_maxitems db1\<rparr>) else (False, db1))
      else (True, db))"

text \<open>The fields of a new item.\<close>

definition fill_item ::
  "bool \<Rightarrow> kwdb \<Rightarrow> string option \<Rightarrow> string option \<Rightarrow> string option \<Rightarrow> string option \<Rightarrow> (item \<times> kwdb) option" where
  "fill_item ra db keyword value ty comment =
     (case addstr ra db keyword of None \<Rightarrow> None | Some (n, db1) \<Rightarrow>
      case addstr ra db1 value of None \<Rightarrow> None | Some (v, db2) \<Rightarrow>
      case addstr ra db2 ty of None \<Rightarrow> None | Some (t, db3) \<Rightarrow>
      case addstr ra db3 comment of None \<Rightarrow> None | Some (c, db4) \<Rightarrow>
        Some (\<lparr>it_name = n, it_value = v, it_vallen = opt_len value, it_type = t, it_typelen = opt_len ty,
          it_comment = c, it_comlen = opt_len comment, it_nexthash = 0, it_nextglob = 0\<rparr>, db4))"

text \<open>Append the item \<open>index\<close> to the global list.\<close>

definition link_glob :: "nat \<Rightarrow> kwdb \<Rightarrow> kwdb" where
  "link_glob index db =
     (let db1 = (if kw_head db = 0 then db\<lparr>kw_head := index\<rparr> else db);
          db2 = (if kw_tail db1 \<noteq> 0 then db1\<lparr>kw_itab := (kw_itab db1)(kw_tail db1 :=
                   (kw_itab db1 (kw_tail db1))\<lparr>it_nextglob := index\<rparr>)\<rparr> else db1)
      in db2\<lparr>kw_tail := index\<rparr>)"

text \<open>Enter the item \<open>index\<close> at the head of the thread of \<open>keyword\<close>.\<close>

definition link_hash :: "nat \<Rightarrow> string \<Rightarrow> kwdb \<Rightarrow> kwdb option" where
  "link_hash index keyword db =
     (if hash keyword < 0 then None
      else let h = nat (hash keyword); i = kw_hashtbl db h;
               db1 = (if i \<noteq> 0 then db\<lparr>kw_itab := (kw_itab db)(index := (kw_itab db index)\<lparr>it_nexthash := i\<rparr>)\<rparr> else db)
           in Some (db1\<lparr>kw_hashtbl := (kw_hashtbl db1)(h := index)\<rparr>))"

definition kwdb_AddEntry ::
  "bool \<Rightarrow> kwdb \<Rightarrow> string option \<Rightarrow> string option \<Rightarrow> string option \<Rightarrow> string option \<Rightarrow> (int \<times> kwdb) option" where
  "kwdb_AddEntry ra db keyword value ty comment =
     (case grow_items ra db of
        (False, db1) \<Rightarrow> Some (-1, db1)
      | (True, db1) \<Rightarrow>
          let index = kw_itemsused db1 in
          if kw_cap db1 \<le> index then None
          else case fill_item ra (db1\<lparr>kw_itemsused := Suc index\<rparr>) keyword value ty comment of
            None \<Rightarrow> None
          | Some (it, db2) \<Rightarrow>
              let db3 = link_glob index (db2\<lparr>kw_itab := (kw_itab db2)(index := it)\<rparr>)
              in case (if keyword \<noteq> None \<and> keyword \<noteq> Some [] then link_hash index (the keyword) db3 else Some db3) of
                   None \<Rightarrow> None
                 | Some db4 \<Rightarrow> Some (int index, db4\<lparr>kw_nitems := kw_nitems db4 + 1\<rparr>))"

partial_function (option) lookup_walk :: "kwdb \<Rightarrow> string \<Rightarrow> int \<Rightarrow> nat \<Rightarrow> int \<Rightarrow> nat option" where
  "lookup_walk db keyword inst i j =
     (if i = 0 then Some 0
      else if streq (kw_str db (it_name (kw_itab db i))) keyword then
        (if inst = j then Some i else lookup_walk db keyword inst (it_nexthash (kw_itab db i)) (j + 1))
      else lookup_walk db keyword inst (it_nexthash (kw_itab db i)) j)"

definition kwdb_Lookup :: "kwdb \<Rightarrow> string \<Rightarrow> int \<Rightarrow> nat option" where
  "kwdb_Lookup db keyword inst =
     (if hash keyword < 0 then None
      else lookup_walk db keyword inst (kw_hashtbl db (nat (hash keyword))) 0)"

text \<open>The getters: the inner \<open>None\<close> is the null pointer.\<close>

definition get_field :: "(item \<Rightarrow> nat) \<Rightarrow> kwdb \<Rightarrow> string \<Rightarrow> string option option" where
  "get_field f db keyword =
     (case kwdb_Lookup db keyword 0 of
        None \<Rightarrow> None
      | Some ep \<Rightarrow> Some (if ep \<noteq> 0 then Some (kw_str db (f (kw_itab db ep))) else None))"

definition kwdb_GetValue :: "kwdb \<Rightarrow> string \<Rightarrow> string option option" where
  "kwdb_GetValue db keyword = get_field it_value db keyword"

definition kwdb_GetComment :: "kwdb \<Rightarrow> string \<Rightarrow> string option option" where
  "kwdb_GetComment db keyword = get_field it_comment db keyword"

definition kwdb_GetType :: "kwdb \<Rightarrow> string \<Rightarrow> string option option" where
  "kwdb_GetType db keyword = get_field it_type db keyword"

text \<open>Writing into the used part of the buffer.\<close>

definition write_at :: "string \<Rightarrow> nat \<Rightarrow> string \<Rightarrow> string option" where
  "write_at buf off bs =
     (if length buf < off + length bs then None else Some (take off buf @ bs @ drop (off + length bs) buf))"

text \<open>The common part of the setters: \<open>memset (old, 0, len)\<close>, then a new string if the new
  value is longer than the old length, else \<open>strcpy\<close> in place.  The offset and the length of
  the field and the database.\<close>

definition replace_str :: "bool \<Rightarrow> kwdb \<Rightarrow> nat \<Rightarrow> nat \<Rightarrow> string \<Rightarrow> (nat \<times> nat \<times> kwdb) option" where
  "replace_str ra db off len v =
     (case write_at (kw_sbuf db) off (replicate len NUL) of
        None \<Rightarrow> None
      | Some buf1 \<Rightarrow>
          let db1 = db\<lparr>kw_sbuf := buf1\<rparr> in
          if len < length v then
            (case addstr ra db1 (Some v) of
               None \<Rightarrow> None | Some (o2, db2) \<Rightarrow> Some (o2, length v, db2))
          else (case write_at buf1 off (v @ [NUL]) of
               None \<Rightarrow> None | Some buf2 \<Rightarrow> Some (off, len, db1\<lparr>kw_sbuf := buf2\<rparr>)))"

definition put_item :: "nat \<Rightarrow> (item \<Rightarrow> item) \<Rightarrow> kwdb \<Rightarrow> kwdb" where
  "put_item ep f db = db\<lparr>kw_itab := (kw_itab db)(ep := f (kw_itab db ep))\<rparr>"

definition kwdb_SetValue :: "bool \<Rightarrow> kwdb \<Rightarrow> string \<Rightarrow> string \<Rightarrow> (int \<times> kwdb) option" where
  "kwdb_SetValue ra db keyword value =
     (case kwdb_Lookup db keyword 0 of
        None \<Rightarrow> None
      | Some ep \<Rightarrow>
          if ep = 0 then Some (-1, db)
          else case replace_str ra db (it_value (kw_itab db ep)) (it_vallen (kw_itab db ep)) value of
              None \<Rightarrow> None
            | Some (o2, l2, db2) \<Rightarrow> Some (0, put_item ep (\<lambda>it. it\<lparr>it_value := o2, it_vallen := l2\<rparr>) db2))"

definition kwdb_SetComment :: "bool \<Rightarrow> kwdb \<Rightarrow> string \<Rightarrow> string \<Rightarrow> (int \<times> kwdb) option" where
  "kwdb_SetComment ra db keyword comment =
     (case kwdb_Lookup db keyword 0 of
        None \<Rightarrow> None
      | Some ep \<Rightarrow>
          if ep = 0 then Some (-1, db)
          else case replace_str ra db (it_comment (kw_itab db ep)) (it_comlen (kw_itab db ep)) comment of
              None \<Rightarrow> None
            | Some (o2, l2, db2) \<Rightarrow> Some (0, put_item ep (\<lambda>it. it\<lparr>it_comment := o2, it_comlen := l2\<rparr>) db2))"

definition kwdb_SetType :: "bool \<Rightarrow> kwdb \<Rightarrow> string \<Rightarrow> string \<Rightarrow> (int \<times> kwdb) option" where
  "kwdb_SetType ra db keyword ty =
     (case kwdb_Lookup db keyword 0 of
        None \<Rightarrow> None
      | Some ep \<Rightarrow>
          if ep = 0 then Some (-1, db)
          else case replace_str ra db (it_type (kw_itab db ep)) (it_typelen (kw_itab db ep)) ty of
              None \<Rightarrow> None
            | Some (o2, l2, db2) \<Rightarrow> Some (0, put_item ep (\<lambda>it. it\<lparr>it_type := o2, it_typelen := l2\<rparr>) db2))"

definition kwdb_Head :: "kwdb \<Rightarrow> nat" where "kwdb_Head db = kw_head db"
definition kwdb_Tail :: "kwdb \<Rightarrow> nat" where "kwdb_Tail db = kw_tail db"

definition kwdb_Next :: "kwdb \<Rightarrow> nat \<Rightarrow> nat option" where
  "kwdb_Next db ep = (if kw_cap db \<le> ep then None else Some (it_nextglob (kw_itab db ep)))"

text \<open>The loop that takes \<open>ep\<close> out of a thread after its head \<open>otp\<close>.\<close>

partial_function (option) unlink_walk :: "(nat \<Rightarrow> item) \<Rightarrow> nat \<Rightarrow> nat \<Rightarrow> (nat \<Rightarrow> item) option" where
  "unlink_walk itab ep otp =
     (if it_nexthash (itab otp) = 0 then Some itab
      else if ep = it_nexthash (itab otp) then
        Some (itab(otp := (itab otp)\<lparr>it_nexthash := it_nexthash (itab ep)\<rparr>))
      else unlink_walk itab ep (it_nexthash (itab otp)))"

definition unlink_hash :: "nat \<Rightarrow> kwdb \<Rightarrow> kwdb option" where
  "unlink_hash ep db =
     (let itp = kw_itab db ep; name = kw_str db (it_name itp) in
      if it_name itp \<noteq> 0 \<and> name \<noteq> [] then
        (if hash name < 0 then None
         else let h = nat (hash name); i = kw_hashtbl db h in
           if ep = i then Some (db\<lparr>kw_hashtbl := (kw_hashtbl db)(h := it_nexthash itp)\<rparr>)
           else (case unlink_walk (kw_itab db) ep i of
               None \<Rightarrow> None | Some itab' \<Rightarrow> Some (db\<lparr>kw_itab := itab'\<rparr>)))
      else Some db)"

text \<open>The loop that takes \<open>ep\<close> out of the global list; the item before it, or 0.\<close>

partial_function (option) glob_walk :: "(nat \<Rightarrow> item) \<Rightarrow> nat \<Rightarrow> nat \<Rightarrow> ((nat \<Rightarrow> item) \<times> nat) option" where
  "glob_walk itab ep i =
     (if i = 0 then Some (itab, 0)
      else if it_nextglob (itab i) = ep then
        Some (itab(i := (itab i)\<lparr>it_nextglob := it_nextglob (itab ep)\<rparr>), i)
      else glob_walk itab ep (it_nextglob (itab i)))"

definition kwdb_DeleteEntry :: "kwdb \<Rightarrow> int \<Rightarrow> (int \<times> kwdb) option" where
  "kwdb_DeleteEntry db e =
     (if e \<le> 0 \<or> int (kw_tail db) < e then Some (-1, db)
      else let ep = nat e in
        case unlink_hash ep db of
          None \<Rightarrow> None
        | Some db1 \<Rightarrow>
            let db2 = (if kw_head db1 = ep then db1\<lparr>kw_head := it_nextglob (kw_itab db1 ep)\<rparr> else db1)
            in case glob_walk (kw_itab db2) ep (kw_head db2) of
                 None \<Rightarrow> None
               | Some (itab', i) \<Rightarrow>
                   let db3 = db2\<lparr>kw_itab := itab'\<rparr>;
                       db4 = (if kw_tail db3 = ep then db3\<lparr>kw_tail := i, kw_itemsused := kw_itemsused db3 - 1\<rparr> else db3)
                   in Some (0, db4\<lparr>kw_nitems := kw_nitems db4 - 1\<rparr>))"

text \<open>The link of the renamed item is only set when the new thread is not empty: otherwise it
  keeps pointing into the old thread.\<close>

definition kwdb_RenameEntry :: "bool \<Rightarrow> kwdb \<Rightarrow> int \<Rightarrow> string option \<Rightarrow> (int \<times> kwdb) option" where
  "kwdb_RenameEntry ra db e newname =
     (if e \<le> 0 \<or> int (kw_tail db) < e then Some (-1, db)
      else let ep = nat e in
        case unlink_hash ep db of
          None \<Rightarrow> None
        | Some db1 \<Rightarrow>
            if newname \<noteq> None \<and> newname \<noteq> Some [] then
              (case link_hash ep (the newname) db1 of
                 None \<Rightarrow> None
               | Some db2 \<Rightarrow>
                   (case addstr ra db2 newname of
                      None \<Rightarrow> None
                    | Some (o2, db3) \<Rightarrow> Some (0, put_item ep (\<lambda>it. it\<lparr>it_name := o2\<rparr>) db3)))
            else Some (0, put_item ep (\<lambda>it. it\<lparr>it_name := 0\<rparr>) db1))"

definition kwdb_CopyEntry :: "bool \<Rightarrow> kwdb \<Rightarrow> kwdb \<Rightarrow> nat \<Rightarrow> string option \<Rightarrow> (int \<times> kwdb) option" where
  "kwdb_CopyEntry ra db o_db o_ep newname =
     (if kw_cap o_db \<le> o_ep then None
      else let itp = kw_itab o_db o_ep;
          name = (if newname \<noteq> None \<and> newname \<noteq> Some [] then newname else Some (kw_str o_db (it_name itp)))
      in kwdb_AddEntry ra db name (Some (kw_str o_db (it_value itp))) (Some (kw_str o_db (it_type itp)))
           (Some (kw_str o_db (it_comment itp))))"

text \<open>The four strings and the function value, which the comma operator makes the offset of the
  comment.\<close>

definition kwdb_GetEntry :: "kwdb \<Rightarrow> int \<Rightarrow> (string \<times> string \<times> string \<times> string) option \<times> int" where
  "kwdb_GetEntry db e =
     (if e \<le> 0 \<or> int (kw_tail db) < e then (None, -1)
      else let itp = kw_itab db (nat e) in
        (Some (kw_str db (it_name itp), kw_str db (it_value itp), kw_str db (it_type itp), kw_str db (it_comment itp)),
         int (it_comment itp)))"

definition kwdb_KWName :: "kwdb \<Rightarrow> int \<Rightarrow> string option" where
  "kwdb_KWName db e =
     (if e \<le> 0 \<or> int (kw_tail db) < e then None else Some (kw_str db (it_name (kw_itab db (nat e)))))"

subsection \<open>Hashing and comparing keywords\<close>

lemma streq_iff: "streq s t \<longleftrightarrow> map c_tolower s = map c_tolower t"
  by (induction s t rule: streq.induct) auto

lemma hash_loop_first:
  "hash_loop (c # cs) i acc = acc + schar (c_tolower c) * sum_list (map ((!) primes) [i..<MAX_HASHCHARS])"
proof (induction "MAX_HASHCHARS - i" arbitrary: i acc)
  case 0
  then show ?case by (simp add: hash_loop.simps)
next
  case (Suc n)
  then have i: "i < MAX_HASHCHARS" and n: "n = MAX_HASHCHARS - Suc i" by simp_all
  have "sum_list (map ((!) primes) [i..<MAX_HASHCHARS]) = primes ! i + sum_list (map ((!) primes) [Suc i..<MAX_HASHCHARS])"
    using i by (subst upt_conv_Cons) simp_all
  then show ?case using i Suc.hyps(1) [OF n] by (subst hash_loop.simps) (simp add: distrib_left)
qed

text \<open>The hash value only depends on the first character.\<close>

lemma hash_first: "hash key = (if key = [] then 0 else c_rem (schar (c_tolower (hd key)) * 2578) 797)"
proof (cases key)
  case Nil
  then show ?thesis by (simp add: hash_def hash_loop.simps NTHREADS_def c_rem_def)
next
  case (Cons c cs)
  have "sum_list (map ((!) primes) [0..<MAX_HASHCHARS]) = 2578"
    by (simp add: MAX_HASHCHARS_def primes_def upt_rec)
  then show ?thesis using Cons by (simp add: hash_def hash_loop_first NTHREADS_def)
qed

lemma hash_streq: "streq s t \<Longrightarrow> hash s = hash t"
  unfolding hash_first streq_iff by (cases s; cases t) auto

lemma schar_ascii: "c_code c < 128 \<Longrightarrow> 0 \<le> schar c"
  by (simp add: schar_def)

lemma c_tolower_ascii: "c_code c < 128 \<Longrightarrow> c_code (c_tolower c) < 128"
  by (auto simp: c_tolower_def c_isupper_def c_code_def)

lemma hash_range: "- 797 < hash key \<and> hash key < 797"
  by (auto simp: hash_first c_rem_def)

lemma hash_nonneg: "key = [] \<or> c_code (hd key) < 128 \<Longrightarrow> 0 \<le> hash key"
  using schar_ascii [OF c_tolower_ascii, of "hd key"] by (auto simp: hash_first c_rem_def zero_le_mult_iff not_less)
subsection \<open>String cells\<close>

text \<open>A string field has a cell of the buffer: an offset \<open>off\<close> and room for \<open>cap\<close> characters and
  the NUL behind them.  Empty strings share the cell 0.\<close>

definition cell_ok :: "string \<Rightarrow> nat \<Rightarrow> nat \<Rightarrow> bool" where
  "cell_ok buf off cap \<longleftrightarrow> off + cap < length buf \<and> buf ! (off + cap) = NUL \<and> (off = 0 \<longrightarrow> cap = 0)"

definition apart :: "nat \<Rightarrow> nat \<Rightarrow> nat \<Rightarrow> nat \<Rightarrow> bool" where
  "apart o1 c1 o2 c2 \<longleftrightarrow> o1 = 0 \<or> o2 = 0 \<or> o1 + c1 < o2 \<or> o2 + c2 < o1"

definition kw_arg :: "string option \<Rightarrow> bool" where
  "kw_arg s \<longleftrightarrow> (case s of None \<Rightarrow> True | Some t \<Rightarrow> NUL \<notin> set t \<and> length t < DEF_SZSBUF)"

definition opt_str :: "string option \<Rightarrow> string" where
  "opt_str s = (case s of None \<Rightarrow> [] | Some t \<Rightarrow> t)"

text \<open>Buffers that agree on a cell.\<close>

definition agree :: "string \<Rightarrow> string \<Rightarrow> nat \<Rightarrow> nat \<Rightarrow> bool" where
  "agree buf buf' off cap \<longleftrightarrow> length buf \<le> length buf' \<and> (\<forall>i. off \<le> i \<and> i \<le> off + cap \<longrightarrow> buf' ! i = buf ! i)"

lemma takeWhile_stop: "n < length xs \<Longrightarrow> \<not> P (xs ! n) \<Longrightarrow> takeWhile P xs = takeWhile P (take n xs)"
proof (induction xs arbitrary: n)
  case (Cons x xs)
  then show ?case by (cases n) auto
qed simp

lemma str_at_cell: "cell_ok buf off cap \<Longrightarrow> str_at buf off = takeWhile (\<lambda>c. c \<noteq> NUL) (take cap (drop off buf))"
  unfolding cell_ok_def str_at_def by (rule takeWhile_stop) auto

lemma str_at_length: "cell_ok buf off cap \<Longrightarrow> length (str_at buf off) \<le> cap"
  by (simp add: str_at_cell) (metis length_takeWhile_le length_take min.bounded_iff le_trans min.cobounded2)

lemma cell_ok_agree: "cell_ok buf off cap \<Longrightarrow> agree buf buf' off cap \<Longrightarrow> cell_ok buf' off cap"
  by (auto simp: cell_ok_def agree_def)

lemma str_at_agree:
  assumes "cell_ok buf off cap" "agree buf buf' off cap"
  shows "str_at buf' off = str_at buf off"
proof -
  have "take cap (drop off buf') = take cap (drop off buf)"
    using assms by (intro nth_equalityI) (auto simp: cell_ok_def agree_def)
  then show ?thesis using str_at_cell [OF assms(1)] str_at_cell [OF cell_ok_agree [OF assms]] by simp
qed

lemma agree_append: "off + cap < length buf \<Longrightarrow> agree buf (buf @ ext) off cap"
  by (auto simp: agree_def nth_append)

lemma agree_trans: "agree a b off cap \<Longrightarrow> agree b c off cap \<Longrightarrow> agree a c off cap"
  by (auto simp: agree_def)

lemma cell_ok_append: "cell_ok buf off cap \<Longrightarrow> cell_ok (buf @ ext) off cap"
  by (rule cell_ok_agree) (auto intro: agree_append simp: cell_ok_def)

lemma str_at_append: "cell_ok buf off cap \<Longrightarrow> str_at (buf @ ext) off = str_at buf off"
  by (rule str_at_agree) (auto intro: agree_append simp: cell_ok_def)

lemma takeWhile_NUL: "NUL \<notin> set t \<Longrightarrow> takeWhile (\<lambda>c. c \<noteq> NUL) (t @ NUL # r) = t"
  by (induction t) auto

lemma str_at_zero: "buf \<noteq> [] \<Longrightarrow> buf ! 0 = NUL \<Longrightarrow> str_at buf 0 = []"
  by (cases buf) (auto simp: str_at_def)

lemma str_at_new: "NUL \<notin> set t \<Longrightarrow> str_at (buf @ t @ [NUL]) (length buf) = t"
  by (simp add: str_at_def takeWhile_NUL)

text \<open>The buffer is usable: it starts with the empty string and fits its memory.\<close>

definition buf_ok :: "kwdb \<Rightarrow> bool" where
  "buf_ok db \<longleftrightarrow> kw_sbuf db \<noteq> [] \<and> kw_sbuf db ! 0 = NUL \<and> length (kw_sbuf db) \<le> kw_sbuflen db"

lemma addstr_spec:
  assumes "buf_ok db" "kw_arg s"
  obtains off ext n where
    "addstr True db s = Some (off, db\<lparr>kw_sbuf := kw_sbuf db @ ext, kw_sbuflen := n\<rparr>)"
    "buf_ok (db\<lparr>kw_sbuf := kw_sbuf db @ ext, kw_sbuflen := n\<rparr>)"
    "cell_ok (kw_sbuf db @ ext) off (opt_len s)" "str_at (kw_sbuf db @ ext) off = opt_str s"
    "off = 0 \<or> length (kw_sbuf db) \<le> off"
    "off = 0 \<longleftrightarrow> opt_str s = []"
proof (cases "opt_str s = []")
  case True
  then have "addstr True db s = Some (0, db)" "opt_len s = 0"
    by (auto simp: addstr_def opt_str_def opt_len_def split: option.splits)
  moreover have "db\<lparr>kw_sbuf := kw_sbuf db @ [], kw_sbuflen := kw_sbuflen db\<rparr> = db" by simp
  ultimately show ?thesis using that [where off = 0 and ext = "[]" and n = "kw_sbuflen db"] assms True
    by (auto simp: buf_ok_def cell_ok_def str_at_zero)
next
  case False
  then obtain t where t: "s = Some t" "t \<noteq> []" by (auto simp: opt_str_def split: option.splits)
  let ?g = "kw_sbuflen db \<le> length (kw_sbuf db) + (length t + 1)"
  let ?n = "if ?g then kw_sbuflen db + DEF_SZSBUF else kw_sbuflen db"
  have n: "length (kw_sbuf db) + (length t + 1) \<le> ?n"
    using assms t by (auto simp: buf_ok_def kw_arg_def)
  have "addstr True db s = Some (length (kw_sbuf db), db\<lparr>kw_sbuf := kw_sbuf db @ t @ [NUL], kw_sbuflen := ?n\<rparr>)"
    using t n by (auto simp: addstr_def Let_def)
  then show ?thesis
    using that [where off = "length (kw_sbuf db)" and ext = "t @ [NUL]" and n = ?n] assms t n
    by (auto simp: buf_ok_def cell_ok_def kw_arg_def opt_len_def opt_str_def str_at_new nth_append)
qed

lemma write_at_spec:
  assumes "off + length bs \<le> length buf"
  obtains buf' where "write_at buf off bs = Some buf'" "length buf' = length buf"
    "\<And>i. i < length buf \<Longrightarrow> buf' ! i = (if off \<le> i \<and> i < off + length bs then bs ! (i - off) else buf ! i)"
proof
  show "write_at buf off bs = Some (take off buf @ bs @ drop (off + length bs) buf)"
    using assms by (simp add: write_at_def)
  show "length (take off buf @ bs @ drop (off + length bs) buf) = length buf" using assms by simp
  fix i assume "i < length buf"
  then show "(take off buf @ bs @ drop (off + length bs) buf) ! i
    = (if off \<le> i \<and> i < off + length bs then bs ! (i - off) else buf ! i)"
    using assms by (auto simp: nth_append)
qed

lemma str_at_written:
  assumes "NUL \<notin> set v" "off + length v < length buf" "buf ! (off + length v) = NUL"
    "\<And>i. i < length v \<Longrightarrow> buf ! (off + i) = v ! i"
  shows "str_at buf off = v"
proof -
  have "take (length v) (drop off buf) = v" using assms by (intro nth_equalityI) auto
  then have "drop off buf = v @ drop (off + length v) buf"
    by (metis add.commute append_take_drop_id drop_drop)
  then have "drop off buf = v @ NUL # drop (Suc (off + length v)) buf"
    using assms(2,3) by (simp add: Cons_nth_drop_Suc [symmetric])
  then show ?thesis using assms(1) by (simp add: str_at_def takeWhile_NUL)
qed

text \<open>What the setters do to the buffer: the new value is in a cell of its own, everything outside
  the old cell is as before.\<close>

lemma replace_str_spec:
  assumes ok: "buf_ok db" and cell: "cell_ok (kw_sbuf db) off len" and v: "NUL \<notin> set v" "length v < DEF_SZSBUF"
  obtains o2 l2 buf n where
    "replace_str True db off len v = Some (o2, l2, db\<lparr>kw_sbuf := buf, kw_sbuflen := n\<rparr>)"
    "buf_ok (db\<lparr>kw_sbuf := buf, kw_sbuflen := n\<rparr>)"
    "cell_ok buf o2 l2" "str_at buf o2 = v" "length (kw_sbuf db) \<le> length buf"
    "\<And>i. i < length (kw_sbuf db) \<Longrightarrow> off = 0 \<or> i < off \<or> off + len < i \<Longrightarrow> buf ! i = kw_sbuf db ! i"
    "o2 = off \<and> l2 = len \<or> length (kw_sbuf db) \<le> o2"
proof -
  let ?b = "kw_sbuf db"
  have len: "off + len < length ?b" and nul: "?b ! (off + len) = NUL" and z: "off = 0 \<Longrightarrow> len = 0"
    using cell by (auto simp: cell_ok_def)
  have "off + length (replicate len NUL) \<le> length ?b" using len by simp
  then obtain b1 where b1: "write_at ?b off (replicate len NUL) = Some b1" "length b1 = length ?b"
    and set1: "\<And>i. i < length ?b \<Longrightarrow> b1 ! i =
      (if off \<le> i \<and> i < off + length (replicate len NUL) then replicate len NUL ! (i - off) else ?b ! i)"
    by (rule write_at_spec) blast
  have b1i: "b1 ! i = (if off \<le> i \<and> i < off + len then NUL else ?b ! i)" if "i < length ?b" for i
    using set1 [OF that] by auto
  have ok1: "buf_ok (db\<lparr>kw_sbuf := b1\<rparr>)" using ok b1 b1i len by (auto simp: buf_ok_def)
  show ?thesis
  proof (cases "len < length v")
    case True
    have "kw_arg (Some v)" using v by (simp add: kw_arg_def)
    from ok1 this obtain o2 ext n where a: "addstr True (db\<lparr>kw_sbuf := b1\<rparr>) (Some v)
        = Some (o2, db\<lparr>kw_sbuf := b1 @ ext, kw_sbuflen := n\<rparr>)" "buf_ok (db\<lparr>kw_sbuf := b1 @ ext, kw_sbuflen := n\<rparr>)"
      "cell_ok (b1 @ ext) o2 (length v)" "str_at (b1 @ ext) o2 = v" "o2 = 0 \<or> length b1 \<le> o2" "o2 = 0 \<longleftrightarrow> v = []"
      by (rule addstr_spec) (auto simp: opt_len_def opt_str_def)
    have "replace_str True db off len v = Some (o2, length v, db\<lparr>kw_sbuf := b1 @ ext, kw_sbuflen := n\<rparr>)"
      using b1(1) a(1) True by (simp add: replace_str_def)
    from this a(2,3,4) show ?thesis
      by (rule that) (use b1 b1i a(5,6) True z in \<open>auto simp: nth_append\<close>)
  next
    case False
    obtain b2 where b2: "write_at b1 off (v @ [NUL]) = Some b2" "length b2 = length b1"
      "\<And>i. i < length b1 \<Longrightarrow> b2 ! i = (if off \<le> i \<and> i < off + length (v @ [NUL]) then (v @ [NUL]) ! (i - off) else b1 ! i)"
      by (rule write_at_spec [of off "v @ [NUL]" b1]) (use len b1(2) False in auto)
    have out: "b2 ! i = ?b ! i" if "i < length ?b" "off = 0 \<or> i < off \<or> off + len < i" for i
      using that b1(2) b1i b2(3) False z ok by (auto simp: buf_ok_def nth_append)
    have in_v: "b2 ! (off + i) = v ! i" if "i < length v" for i
      using that b1(2) b2(3) [of "off + i"] len False by (auto simp: nth_append)
    have end_v: "b2 ! (off + length v) = NUL" using b1(2) b2(3) [of "off + length v"] len False by (auto simp: nth_append)
    have str: "str_at b2 off = v" using v(1) in_v end_v b1(2) b2(2) len False by (intro str_at_written) auto
    have nul2: "b2 ! (off + len) = NUL"
      using b1(2) b1i b2(3) [of "off + len"] len nul False end_v by (cases "length v = len") (auto simp: nth_append)
    have "replace_str True db off len v = Some (off, len, db\<lparr>kw_sbuf := b2, kw_sbuflen := kw_sbuflen db\<rparr>)"
      using b1(1) b2(1) False by (simp add: replace_str_def)
    then show ?thesis
    proof (rule that)
      show "buf_ok (db\<lparr>kw_sbuf := b2, kw_sbuflen := kw_sbuflen db\<rparr>)"
        using ok out [of 0] b1(2) b2(2) len nul2 z by (cases "off = 0") (auto simp: buf_ok_def)
      show "cell_ok b2 off len" using nul2 z len b1(2) b2(2) by (auto simp: cell_ok_def)
    qed (use str out b1(2) b2(2) in auto)
  qed
qed

end
