(* ===== verification/KwdbInv.thy ===== *)
theory KwdbInv
  imports Kwdb
begin

section \<open>The keyword database as a list of entries\<close>

text \<open>
  \<open>kw_wf db gs rs\<close> is the invariant of a database: \<open>gs\<close> are its entries in the order of the
  global list, \<open>rs\<close> those with a keyword, the most recently named first.  \<open>kw_view\<close> is the
  list of entries that the database stands for.  The theorems of this theory say what each
  operation does to \<open>gs\<close>, \<open>rs\<close> and the view.
\<close>

datatype kw_field = KName | KValue | KType | KComment

fun fld_off :: "kw_field \<Rightarrow> item \<Rightarrow> nat" where
  "fld_off KName it = it_name it"
| "fld_off KValue it = it_value it"
| "fld_off KType it = it_type it"
| "fld_off KComment it = it_comment it"

text \<open>The room of a field; a name is never overwritten and has just the room it needs.\<close>

fun fld_cap :: "string \<Rightarrow> kw_field \<Rightarrow> item \<Rightarrow> nat" where
  "fld_cap buf KName it = length (str_at buf (it_name it))"
| "fld_cap buf KValue it = it_vallen it"
| "fld_cap buf KType it = it_typelen it"
| "fld_cap buf KComment it = it_comlen it"

abbreviation nglob :: "kwdb \<Rightarrow> nat \<Rightarrow> nat" where
  "nglob db \<equiv> \<lambda>g. it_nextglob (kw_itab db g)"

abbreviation nhash :: "kwdb \<Rightarrow> nat \<Rightarrow> nat" where
  "nhash db \<equiv> \<lambda>g. it_nexthash (kw_itab db g)"

abbreviation off_of :: "kwdb \<Rightarrow> kw_field \<Rightarrow> nat \<Rightarrow> nat" where
  "off_of db k g \<equiv> fld_off k (kw_itab db g)"

abbreviation cap_of :: "kwdb \<Rightarrow> kw_field \<Rightarrow> nat \<Rightarrow> nat" where
  "cap_of db k g \<equiv> fld_cap (kw_sbuf db) k (kw_itab db g)"

definition kw_entry :: "kwdb \<Rightarrow> nat \<Rightarrow> kw_field \<Rightarrow> string" where
  "kw_entry db g k = kw_str db (off_of db k g)"

definition kw_view :: "kwdb \<Rightarrow> nat list \<Rightarrow> (nat \<times> (kw_field \<Rightarrow> string)) list" where
  "kw_view db gs = map (\<lambda>g. (g, kw_entry db g)) gs"

definition links_ok :: "kwdb \<Rightarrow> nat list \<Rightarrow> bool" where
  "links_ok db gs \<longleftrightarrow> chain (nglob db) (kw_head db) gs \<and> sorted_wrt (<) gs \<and> (\<forall>g \<in> set gs. g < kw_itemsused db)
     \<and> kw_tail db = (if gs = [] then 0 else last gs) \<and> kw_nitems db = int (length gs)
     \<and> 0 < kw_itemsused db \<and> kw_itemsused db \<le> kw_maxitems db \<and> kw_cap db = kw_maxitems db"

definition threads_ok :: "kwdb \<Rightarrow> nat list \<Rightarrow> nat list \<Rightarrow> bool" where
  "threads_ok db gs rs \<longleftrightarrow>
     (\<forall>h. chain (nhash db) (kw_hashtbl db h) (filter (\<lambda>g. hash (kw_entry db g KName) = int h) rs))
     \<and> distinct rs \<and> set rs = {g \<in> set gs. kw_entry db g KName \<noteq> []}
     \<and> (\<forall>g \<in> set rs. 0 \<le> hash (kw_entry db g KName))"

definition strings_ok :: "kwdb \<Rightarrow> nat list \<Rightarrow> bool" where
  "strings_ok db gs \<longleftrightarrow> buf_ok db \<and> (\<forall>g \<in> set gs. \<forall>k. cell_ok (kw_sbuf db) (off_of db k g) (cap_of db k g))
     \<and> (\<forall>g \<in> set gs. \<forall>g' \<in> set gs. \<forall>k k'. (g, k) \<noteq> (g', k') \<longrightarrow>
          apart (off_of db k g) (cap_of db k g) (off_of db k' g') (cap_of db k' g'))"

definition kw_wf :: "kwdb \<Rightarrow> nat list \<Rightarrow> nat list \<Rightarrow> bool" where
  "kw_wf db gs rs \<longleftrightarrow> links_ok db gs \<and> threads_ok db gs rs \<and> strings_ok db gs"

subsection \<open>Opening\<close>

lemma kwdb_Open_wf:
  assumes "length name + 2 \<le> DEF_SZSBUF"
  shows "\<exists>db. kwdb_Open True name = Some (Some db) \<and> kw_wf db [] []"
  using assms by (auto simp: kwdb_Open_def kw_wf_def links_ok_def threads_ok_def strings_ok_def buf_ok_def DEF_NKEYWORDS_def)

subsection \<open>Looking up\<close>

lemma lookup_walk_chain:
  assumes "chain (nhash db) i xs" "0 \<le> j"
  shows "lookup_walk db kw inst i j =
    (let ms = filter (\<lambda>g. streq (kw_entry db g KName) kw) xs in
     Some (if j \<le> inst \<and> inst - j < int (length ms) then ms ! nat (inst - j) else 0))"
  using assms
proof (induction xs arbitrary: i j)
  case Nil
  then show ?case by (simp add: lookup_walk.simps)
next
  case (Cons x xs)
  then have i: "i = x" "x \<noteq> 0" and c: "chain (nhash db) (nhash db x) xs" by simp_all
  show ?case
  proof (cases "streq (kw_entry db x KName) kw")
    case True
    show ?thesis
    proof (cases "inst = j")
      case True
      then show ?thesis using i \<open>streq _ _\<close> by (subst lookup_walk.simps) (simp add: kw_entry_def)
    next
      case False
      have "nat (inst - j) = Suc (nat (inst - (j + 1)))" if "j < inst" using that by auto
      then show ?thesis using i True False Cons.IH [OF c, of "j + 1"] Cons.prems(2)
        by (subst lookup_walk.simps) (auto simp: kw_entry_def Let_def)
    qed
  next
    case False
    then show ?thesis using i Cons.IH [OF c Cons.prems(2)] by (subst lookup_walk.simps) (simp add: kw_entry_def)
  qed
qed

lemma lookup_result:
  assumes "threads_ok db gs rs" "0 \<le> hash kw"
  shows "kwdb_Lookup db kw inst =
    (let ms = filter (\<lambda>g. streq (kw_entry db g KName) kw) rs in
     Some (if 0 \<le> inst \<and> inst < int (length ms) then ms ! nat inst else 0))"
proof -
  have "filter (\<lambda>g. streq (kw_entry db g KName) kw) (filter (\<lambda>g. hash (kw_entry db g KName) = int (nat (hash kw))) rs)
      = filter (\<lambda>g. streq (kw_entry db g KName) kw) rs"
    using assms(2) by (auto simp: hash_streq intro!: filter_cong)
  moreover have "chain (nhash db) (kw_hashtbl db (nat (hash kw)))
      (filter (\<lambda>g. hash (kw_entry db g KName) = int (nat (hash kw))) rs)"
    using assms(1) unfolding threads_ok_def by blast
  ultimately show ?thesis using lookup_walk_chain [of db _ _ 0 kw inst] assms(2) by (simp add: kwdb_Lookup_def Let_def)
qed

lemma lookup_first:
  assumes "threads_ok db gs rs" "0 \<le> hash kw"
  shows "kwdb_Lookup db kw 0 = Some (case filter (\<lambda>g. streq (kw_entry db g KName) kw) rs of [] \<Rightarrow> 0 | g # _ \<Rightarrow> g)"
  using lookup_result [OF assms, of 0] by (auto simp: Let_def split: list.splits)

subsection \<open>Adding an entry\<close>

fun kw_args :: "string option \<Rightarrow> string option \<Rightarrow> string option \<Rightarrow> string option \<Rightarrow> kw_field \<Rightarrow> string" where
  "kw_args a b c d KName = opt_str a"
| "kw_args a b c d KValue = opt_str b"
| "kw_args a b c d KType = opt_str c"
| "kw_args a b c d KComment = opt_str d"

lemma all_kw_field: "(\<forall>k. P k) \<longleftrightarrow> P KName \<and> P KValue \<and> P KType \<and> P KComment"
  by (metis kw_field.exhaust)

lemma opt_len_str: "opt_len s = length (opt_str s)"
  by (auto simp: opt_len_def opt_str_def split: option.splits)

lemma apart_new: "cell_ok buf o1 c1 \<Longrightarrow> o2 = 0 \<or> length buf \<le> o2 \<Longrightarrow> apart o1 c1 o2 c2 \<and> apart o2 c2 o1 c1"
  by (auto simp: cell_ok_def apart_def)

lemma apart_sym: "apart o1 c1 o2 c2 \<Longrightarrow> apart o2 c2 o1 c1"
  by (auto simp: apart_def)

text \<open>Adding strings one after the other: \<open>addstrs\<close> is what the four calls in
  \<open>kwdb_AddEntry\<close> do.\<close>

fun addstrs :: "bool \<Rightarrow> kwdb \<Rightarrow> string option list \<Rightarrow> (nat list \<times> kwdb) option" where
  "addstrs ra db [] = Some ([], db)"
| "addstrs ra db (s # ss) =
     (case addstr ra db s of
        None \<Rightarrow> None
      | Some (off, db1) \<Rightarrow> (case addstrs ra db1 ss of None \<Rightarrow> None | Some (offs, db2) \<Rightarrow> Some (off # offs, db2)))"

definition new_cell :: "string \<Rightarrow> nat \<Rightarrow> nat \<Rightarrow> string option \<Rightarrow> bool" where
  "new_cell buf lo off s \<longleftrightarrow> cell_ok buf off (opt_len s) \<and> str_at buf off = opt_str s \<and> (off = 0 \<or> lo \<le> off)"

lemma addstrs_spec:
  assumes "buf_ok db" "list_all kw_arg ss"
  shows "\<exists>offs ext n. addstrs True db ss = Some (offs, db\<lparr>kw_sbuf := kw_sbuf db @ ext, kw_sbuflen := n\<rparr>)
    \<and> buf_ok (db\<lparr>kw_sbuf := kw_sbuf db @ ext, kw_sbuflen := n\<rparr>)
    \<and> list_all2 (new_cell (kw_sbuf db @ ext) (length (kw_sbuf db))) offs ss
    \<and> sorted_wrt (\<lambda>(o1, s1) (o2, s2). apart o1 (opt_len s1) o2 (opt_len s2)) (zip offs ss)"
  using assms
proof (induction ss arbitrary: db)
  case Nil
  then show ?case by (auto intro!: exI [of _ "[]"] exI [of _ "kw_sbuflen db"])
next
  case (Cons s ss)
  let ?b = "kw_sbuf db"
  from Cons.prems obtain off e n where 1: "addstr True db s = Some (off, db\<lparr>kw_sbuf := ?b @ e, kw_sbuflen := n\<rparr>)"
    "buf_ok (db\<lparr>kw_sbuf := ?b @ e, kw_sbuflen := n\<rparr>)" "cell_ok (?b @ e) off (opt_len s)"
    "str_at (?b @ e) off = opt_str s" "off = 0 \<or> length ?b \<le> off"
    using addstr_spec [of db s] by (metis list.pred_inject(2))
  let ?db = "db\<lparr>kw_sbuf := ?b @ e, kw_sbuflen := n\<rparr>"
  obtain offs e2 n2 where 2: "addstrs True ?db ss = Some (offs, db\<lparr>kw_sbuf := ?b @ e @ e2, kw_sbuflen := n2\<rparr>)"
    "buf_ok (db\<lparr>kw_sbuf := ?b @ e @ e2, kw_sbuflen := n2\<rparr>)"
    "list_all2 (new_cell (?b @ e @ e2) (length (?b @ e))) offs ss"
    "sorted_wrt (\<lambda>(o1, s1) (o2, s2). apart o1 (opt_len s1) o2 (opt_len s2)) (zip offs ss)"
    using Cons.IH [OF 1(2)] Cons.prems(2) by auto
  have "list_all2 (new_cell (?b @ e @ e2) (length ?b)) offs ss"
    using 2(3) by (rule list_all2_mono) (auto simp: new_cell_def)
  moreover have "new_cell (?b @ e @ e2) (length ?b) off s"
    using 1(3-5) cell_ok_append [of "?b @ e" off _ e2] str_at_append [of "?b @ e" off _ e2] by (simp add: new_cell_def)
  moreover have "apart off (opt_len s) o2 (opt_len s2)" if "(o2, s2) \<in> set (zip offs ss)" for o2 s2
    using 2(3) that apart_new [OF 1(3), of o2] by (auto simp: list_all2_iff new_cell_def)
  ultimately show ?case using 1(1) 2(1,2,4)
    by (intro exI [of _ "off # offs"] exI [of _ "e @ e2"] exI [of _ n2]) auto
qed

lemma fill_item_addstrs:
  "fill_item ra db a b c d =
     (case addstrs ra db [a, b, c, d] of
        Some ([n, v, t, m], db') \<Rightarrow> Some (\<lparr>it_name = n, it_value = v, it_vallen = opt_len b, it_type = t, it_typelen = opt_len c,
          it_comment = m, it_comlen = opt_len d, it_nexthash = 0, it_nextglob = 0\<rparr>, db')
      | _ \<Rightarrow> None)"
  by (auto simp: fill_item_def split: option.splits)

text \<open>An item with these strings, all in cells from \<open>lo\<close> on.\<close>

definition fresh_item :: "string \<Rightarrow> nat \<Rightarrow> item \<Rightarrow> (kw_field \<Rightarrow> string) \<Rightarrow> bool" where
  "fresh_item buf lo it strs \<longleftrightarrow> (\<forall>k. cell_ok buf (fld_off k it) (fld_cap buf k it) \<and> str_at buf (fld_off k it) = strs k
       \<and> (fld_off k it = 0 \<or> lo \<le> fld_off k it))
     \<and> (\<forall>k k'. k \<noteq> k' \<longrightarrow> apart (fld_off k it) (fld_cap buf k it) (fld_off k' it) (fld_cap buf k' it))"

lemma fill_item_spec:
  assumes ok: "buf_ok db" and args: "kw_arg a" "kw_arg b" "kw_arg c" "kw_arg d"
  shows "\<exists>it ext n. fill_item True db a b c d = Some (it, db\<lparr>kw_sbuf := kw_sbuf db @ ext, kw_sbuflen := n\<rparr>)
    \<and> buf_ok (db\<lparr>kw_sbuf := kw_sbuf db @ ext, kw_sbuflen := n\<rparr>)
    \<and> fresh_item (kw_sbuf db @ ext) (length (kw_sbuf db)) it (kw_args a b c d)
    \<and> it_nexthash it = 0 \<and> it_nextglob it = 0"
proof -
  let ?b = "kw_sbuf db"
  have "list_all kw_arg [a, b, c, d]" using args by simp
  from addstrs_spec [OF ok this] obtain offs ext n where
    f: "addstrs True db [a, b, c, d] = Some (offs, db\<lparr>kw_sbuf := ?b @ ext, kw_sbuflen := n\<rparr>)"
    and ok': "buf_ok (db\<lparr>kw_sbuf := ?b @ ext, kw_sbuflen := n\<rparr>)"
    and new: "list_all2 (new_cell (?b @ ext) (length ?b)) offs [a, b, c, d]"
    and ap: "sorted_wrt (\<lambda>(o1, s1) (o2, s2). apart o1 (opt_len s1) o2 (opt_len s2)) (zip offs [a, b, c, d])"
    by blast
  obtain o1 o2 o3 o4 where offs: "offs = [o1, o2, o3, o4]"
    using list_all2_lengthD [OF new] by (auto simp: length_Suc_conv numeral_2_eq_2)
  let ?it = "\<lparr>it_name = o1, it_value = o2, it_vallen = opt_len b, it_type = o3, it_typelen = opt_len c,
          it_comment = o4, it_comlen = opt_len d, it_nexthash = 0, it_nextglob = 0\<rparr>"
  note new = new [unfolded offs new_cell_def, simplified]
  have len: "fld_cap (?b @ ext) KName ?it = opt_len a" using new by (simp add: opt_len_str)
  have "fill_item True db a b c d = Some (?it, db\<lparr>kw_sbuf := ?b @ ext, kw_sbuflen := n\<rparr>)"
    using f offs by (simp add: fill_item_addstrs)
  moreover have "fresh_item (?b @ ext) (length ?b) ?it (kw_args a b c d)"
    using new ap offs len by (auto simp: fresh_item_def all_kw_field dest: apart_sym)
  ultimately show ?thesis using ok' by (intro exI [of _ ?it] exI [of _ ext] exI [of _ n]) simp
qed

text \<open>Items that differ in their links only.\<close>

definition same_strs :: "item \<Rightarrow> item \<Rightarrow> bool" where
  "same_strs it it' \<longleftrightarrow> it'\<lparr>it_nexthash := 0, it_nextglob := 0\<rparr> = it\<lparr>it_nexthash := 0, it_nextglob := 0\<rparr>"

lemma same_strs_off: "same_strs it it' \<Longrightarrow> fld_off k it' = fld_off k it \<and> fld_cap buf k it' = fld_cap buf k it"
  by (cases it; cases it'; cases k) (auto simp: same_strs_def)

lemma same_strs_simps [simp]:
  "same_strs it it" "same_strs it (it\<lparr>it_nexthash := h\<rparr>)" "same_strs it (it\<lparr>it_nextglob := g\<rparr>)"
  by (simp_all add: same_strs_def)

text \<open>Entries whose cells and string offsets have not changed.\<close>

definition kept :: "kwdb \<Rightarrow> kwdb \<Rightarrow> nat \<Rightarrow> bool" where
  "kept db db' g \<longleftrightarrow> same_strs (kw_itab db g) (kw_itab db' g)
     \<and> (\<forall>k. agree (kw_sbuf db) (kw_sbuf db') (off_of db k g) (cap_of db k g))"

lemma kept_cell:
  assumes "kept db db' g" "cell_ok (kw_sbuf db) (off_of db k g) (cap_of db k g)"
  shows "kw_entry db' g k = kw_entry db g k" "off_of db' k g = off_of db k g" "cap_of db' k g = cap_of db k g"
    "cell_ok (kw_sbuf db') (off_of db' k g) (cap_of db' k g)"
proof -
  have a: "agree (kw_sbuf db) (kw_sbuf db') (off_of db k g) (cap_of db k g)"
    and s: "same_strs (kw_itab db g) (kw_itab db' g)" using assms(1) by (simp_all add: kept_def)
  note o = same_strs_off [OF s]
  show e: "kw_entry db' g k = kw_entry db g k"
    using str_at_agree [OF assms(2) a] o [of k] by (simp add: kw_entry_def)
  show "off_of db' k g = off_of db k g" using o by simp
  show c: "cap_of db' k g = cap_of db k g" using e o by (cases k) (simp_all add: kw_entry_def)
  show "cell_ok (kw_sbuf db') (off_of db' k g) (cap_of db' k g)"
    using cell_ok_agree [OF assms(2) a] c o by simp
qed

lemma kept_entries:
  assumes "strings_ok db gs" "\<And>g. g \<in> set gs \<Longrightarrow> kept db db' g" "g \<in> set gs"
  shows "kw_entry db' g = kw_entry db g"
  using assms kept_cell(1) by (fastforce simp: strings_ok_def)

lemma strings_ok_kept:
  assumes "strings_ok db gs" "\<And>g. g \<in> set gs \<Longrightarrow> kept db db' g" "buf_ok db'"
  shows "strings_ok db' gs"
proof -
  have c: "cell_ok (kw_sbuf db) (off_of db k g) (cap_of db k g)" if "g \<in> set gs" for g k
    using assms(1) that by (simp add: strings_ok_def)
  note k = kept_cell [OF assms(2) c]
  show ?thesis using assms(1,3) k(2-4) unfolding strings_ok_def by auto
qed

text \<open>One more entry, all of whose cells are new.\<close>

lemma strings_ok_new:
  assumes ok: "strings_ok db gs" and kept: "\<And>g. g \<in> set gs \<Longrightarrow> kept db db' g" and buf: "buf_ok db'" and "i \<notin> set gs"
    and new: "fresh_item (kw_sbuf db') (length (kw_sbuf db)) (kw_itab db' i) strs"
  shows "strings_ok db' (gs @ [i])"
proof -
  have c: "cell_ok (kw_sbuf db) (off_of db k g) (cap_of db k g)" if "g \<in> set gs" for g k
    using ok that by (simp add: strings_ok_def)
  have old: "apart (off_of db' k g) (cap_of db' k g) (off_of db' k' i) (cap_of db' k' i)" if "g \<in> set gs" for g k k'
    using apart_new [OF c [OF that]] new kept_cell(2,3) [OF kept [OF that] c [OF that]] by (auto simp: fresh_item_def)
  have "strings_ok db' gs" using ok kept buf by (rule strings_ok_kept)
  then show ?thesis using new old assms(4) by (auto simp: strings_ok_def fresh_item_def intro: apart_sym)
qed

definition kw_name_arg :: "string option \<Rightarrow> bool" where
  "kw_name_arg s \<longleftrightarrow> kw_arg s \<and> 0 \<le> hash (opt_str s)"

lemma opt_str_key: "(s \<noteq> None \<and> s \<noteq> Some []) \<longleftrightarrow> opt_str s \<noteq> []"
  by (cases s) (auto simp: opt_str_def)

lemma opt_str_the: "opt_str s \<noteq> [] \<Longrightarrow> the s = opt_str s"
  by (cases s) (auto simp: opt_str_def)

lemma link_glob_result:
  assumes "kw_head db = 0 \<longleftrightarrow> gs = []" "kw_tail db = (if gs = [] then 0 else last gs)" "0 \<notin> set gs"
  shows "link_glob i db = db\<lparr>kw_head := (if gs = [] then i else kw_head db), kw_tail := i,
    kw_itab := (\<lambda>g. if gs \<noteq> [] \<and> g = last gs then (kw_itab db g)\<lparr>it_nextglob := i\<rparr> else kw_itab db g)\<rparr>"
  proof -
  have "last gs \<noteq> 0" if "gs \<noteq> []" using that assms(3) last_in_set by metis
  then show ?thesis using assms by (auto simp: link_glob_def Let_def intro!: kwdb.equality)
qed

lemma link_hash_result:
  assumes "0 \<le> hash kw"
  shows "link_hash i kw db = Some (db\<lparr>kw_itab := (kw_itab db)(i := (kw_itab db i)\<lparr>it_nexthash :=
      (if kw_hashtbl db (nat (hash kw)) = 0 then it_nexthash (kw_itab db i) else kw_hashtbl db (nat (hash kw)))\<rparr>),
    kw_hashtbl := (kw_hashtbl db)(nat (hash kw) := i)\<rparr>)"
  using assms by (auto simp: link_hash_def Let_def intro!: kwdb.equality)

lemma grow_items_result:
  assumes "links_ok db gs"
  obtains m where "grow_items True db = (True, db\<lparr>kw_maxitems := m, kw_cap := m\<rparr>)" "kw_itemsused db < m"
proof (cases "kw_maxitems db \<le> kw_itemsused db")
  case True
  then show ?thesis using that [of "kw_maxitems db + DEF_NKEYWORDS"] assms
    by (auto simp: grow_items_def links_ok_def Let_def DEF_NKEYWORDS_def)
next
  case False
  then have "db\<lparr>kw_maxitems := kw_maxitems db, kw_cap := kw_maxitems db\<rparr> = db" using assms by (auto simp: links_ok_def)
  then show ?thesis using that [of "kw_maxitems db"] False by (auto simp: grow_items_def)
qed

lemma links_ok_facts:
  assumes "links_ok db gs"
  shows "kw_head db = 0 \<longleftrightarrow> gs = []" "0 \<notin> set gs" "kw_itemsused db \<notin> set gs" "distinct gs"
    "kw_tail db = (if gs = [] then 0 else last gs)"
proof -
  have c: "chain (nglob db) (kw_head db) gs" and s: "sorted_wrt (<) gs" using assms by (simp_all add: links_ok_def)
  show "kw_head db = 0 \<longleftrightarrow> gs = []" using c by (cases gs) auto
  show "0 \<notin> set gs" using c by (rule chain_nonzero)
  show "distinct gs" using s strict_sorted_iff by blast
qed (use assms in \<open>auto simp: links_ok_def\<close>)

text \<open>The database after an entry has been added, in terms of the new item \<open>it\<close>, the strings
  appended and the new sizes.\<close>

definition added :: "kwdb \<Rightarrow> nat list \<Rightarrow> string \<Rightarrow> item \<Rightarrow> string \<Rightarrow> nat \<Rightarrow> nat \<Rightarrow> kwdb" where
  "added db gs key it ext n m =
     (let i = kw_itemsused db; h = nat (hash key) in
      db\<lparr>kw_maxitems := m, kw_cap := m, kw_itemsused := Suc i, kw_sbuf := kw_sbuf db @ ext, kw_sbuflen := n,
          kw_head := (if gs = [] then i else kw_head db), kw_tail := i, kw_nitems := kw_nitems db + 1,
          kw_itab := (\<lambda>g. if g = i then it\<lparr>it_nexthash := (if key = [] then 0 else kw_hashtbl db h)\<rparr>
             else if gs \<noteq> [] \<and> g = last gs then (kw_itab db g)\<lparr>it_nextglob := i\<rparr> else kw_itab db g),
          kw_hashtbl := (if key = [] then kw_hashtbl db else (kw_hashtbl db)(h := i))\<rparr>)"

lemma AddEntry_result:
  assumes wf: "links_ok db gs" "strings_ok db gs" and args: "kw_name_arg a" "kw_arg b" "kw_arg c" "kw_arg d"
  shows "\<exists>it ext n m. kwdb_AddEntry True db a b c d = Some (int (kw_itemsused db), added db gs (opt_str a) it ext n m)
    \<and> kw_itemsused db < m \<and> buf_ok (db\<lparr>kw_sbuf := kw_sbuf db @ ext, kw_sbuflen := n\<rparr>)
    \<and> fresh_item (kw_sbuf db @ ext) (length (kw_sbuf db)) it (kw_args a b c d) \<and> it_nextglob it = 0"
proof -
  define i where "i = kw_itemsused db"
  obtain m where m: "grow_items True db = (True, db\<lparr>kw_maxitems := m, kw_cap := m\<rparr>)" "i < m"
    using grow_items_result [OF wf(1)] i_def by metis
  let ?db1 = "db\<lparr>kw_maxitems := m, kw_cap := m, kw_itemsused := Suc i\<rparr>"
  have ok: "buf_ok ?db1" and ka: "kw_arg a" using wf(2) args(1) by (auto simp: strings_ok_def buf_ok_def kw_name_arg_def)
  obtain it ext n where f: "fill_item True ?db1 a b c d = Some (it, ?db1\<lparr>kw_sbuf := kw_sbuf db @ ext, kw_sbuflen := n\<rparr>)"
    and fb: "buf_ok (?db1\<lparr>kw_sbuf := kw_sbuf db @ ext, kw_sbuflen := n\<rparr>)"
    and fc: "fresh_item (kw_sbuf db @ ext) (length (kw_sbuf db)) it (kw_args a b c d)"
    and fl: "it_nexthash it = 0" "it_nextglob it = 0"
    using fill_item_spec [OF ok ka args(2-4)] by (auto simp: Let_def)
  let ?db2 = "?db1\<lparr>kw_sbuf := kw_sbuf db @ ext, kw_sbuflen := n, kw_itab := (kw_itab db)(i := it)\<rparr>"
  note g = links_ok_facts [OF wf(1), folded i_def]
  have li: "gs \<noteq> [] \<Longrightarrow> last gs \<noteq> i" using g(3) last_in_set by metis
  define its where "its = (\<lambda>g. if g = i then it else if gs \<noteq> [] \<and> g = last gs then (kw_itab db g)\<lparr>it_nextglob := i\<rparr> else kw_itab db g)"
  define db3 where "db3 = ?db1\<lparr>kw_sbuf := kw_sbuf db @ ext, kw_sbuflen := n,
    kw_head := (if gs = [] then i else kw_head db), kw_tail := i, kw_itab := its\<rparr>"
  have "(\<lambda>g. if gs \<noteq> [] \<and> g = last gs then (((kw_itab db)(i := it)) g)\<lparr>it_nextglob := i\<rparr> else ((kw_itab db)(i := it)) g) = its"
    using li by (auto simp: its_def)
  then have lg: "link_glob i ?db2 = db3"
    using link_glob_result [of ?db2 gs i] g(1,2,5) unfolding db3_def by (simp cong: if_cong)
  have key: "the a = opt_str a" if "opt_str a \<noteq> []" using that by (rule opt_str_the)
  have A: "kwdb_AddEntry True db a b c d = (case (if opt_str a \<noteq> [] then link_hash i (opt_str a) db3 else Some db3) of
      None \<Rightarrow> None | Some db4 \<Rightarrow> Some (int i, db4\<lparr>kw_nitems := kw_nitems db4 + 1\<rparr>))"
    using m f lg key unfolding kwdb_AddEntry_def opt_str_key by (simp add: i_def [symmetric])
  have "kwdb_AddEntry True db a b c d = Some (int i, added db gs (opt_str a) it ext n m)"
  proof (cases "opt_str a = []")
    case True
    have "its = (\<lambda>g. if g = i then it\<lparr>it_nexthash := 0\<rparr> else if gs \<noteq> [] \<and> g = last gs then (kw_itab db g)\<lparr>it_nextglob := i\<rparr> else kw_itab db g)"
      using fl(1) unfolding its_def by (intro ext) simp
    then show ?thesis using A True unfolding added_def Let_def i_def [symmetric] db3_def by simp
  next
    case False
    let ?h = "nat (hash (opt_str a))"
    have hh: "0 \<le> hash (opt_str a)" using args(1) by (simp add: kw_name_arg_def)
    have "kw_hashtbl db3 = kw_hashtbl db" "it_nexthash (kw_itab db3 i) = 0" "kw_itab db3 = its" "its i = it"
      by (simp_all add: db3_def its_def fl)
    then have "link_hash i (opt_str a) db3 = Some (db3\<lparr>kw_itab := its(i := it\<lparr>it_nexthash := kw_hashtbl db ?h\<rparr>),
        kw_hashtbl := (kw_hashtbl db)(?h := i)\<rparr>)"
      unfolding link_hash_result [OF hh] by (cases "kw_hashtbl db ?h = 0") simp_all
    moreover have "its(i := it\<lparr>it_nexthash := kw_hashtbl db ?h\<rparr>) = (\<lambda>g. if g = i then it\<lparr>it_nexthash := kw_hashtbl db ?h\<rparr>
        else if gs \<noteq> [] \<and> g = last gs then (kw_itab db g)\<lparr>it_nextglob := i\<rparr> else kw_itab db g)"
      unfolding its_def by (intro ext) simp
    ultimately show ?thesis using A False unfolding added_def Let_def i_def [symmetric] db3_def by simp
  qed
  moreover have "buf_ok (db\<lparr>kw_sbuf := kw_sbuf db @ ext, kw_sbuflen := n\<rparr>)" using fb by (simp add: buf_ok_def)
  ultimately show ?thesis using m(2) fc fl(2) unfolding i_def by blast
qed

lemma threads_ok_add:
  assumes t: "threads_ok db gs rs" and i: "i \<notin> set gs" "i \<noteq> 0"
    and e: "\<And>g. g \<in> set gs \<Longrightarrow> kw_entry db' g = kw_entry db g" and k: "kw_entry db' i KName = k" "0 \<le> hash k"
    and n: "\<And>g. g \<in> set gs \<Longrightarrow> nhash db' g = nhash db g" "k \<noteq> [] \<Longrightarrow> nhash db' i = kw_hashtbl db (nat (hash k))"
    and h: "kw_hashtbl db' = (if k = [] then kw_hashtbl db else (kw_hashtbl db)(nat (hash k) := i))"
  shows "threads_ok db' (gs @ [i]) (if k = [] then rs else i # rs)"
proof -
  have rs: "set rs \<subseteq> set gs" "i \<notin> set rs" using t i by (auto simp: threads_ok_def)
  have f: "filter (\<lambda>g. hash (kw_entry db' g KName) = int h) rs = filter (\<lambda>g. hash (kw_entry db g KName) = int h) rs" for h
    using e rs(1) by (auto intro!: filter_cong)
  have c: "chain (nhash db') (kw_hashtbl db h) (filter (\<lambda>g. hash (kw_entry db' g KName) = int h) rs)" for h
  proof -
    have "chain (nhash db) (kw_hashtbl db h) (filter (\<lambda>g. hash (kw_entry db g KName) = int h) rs)"
      using t by (simp add: threads_ok_def)
    then show ?thesis unfolding f using n(1) rs(1) by (subst seg_cong [where nx = "nhash db"]) auto
  qed
  have "chain (nhash db') (kw_hashtbl db' h) (filter (\<lambda>g. hash (kw_entry db' g KName) = int h) (if k = [] then rs else i # rs))" for h
    using c [of h] h k n(2) i(2) by auto
  moreover have "set (if k = [] then rs else i # rs) = {g \<in> set (gs @ [i]). kw_entry db' g KName \<noteq> []}"
    using t e k(1) by (auto simp: threads_ok_def)
  moreover have "\<forall>g \<in> set (if k = [] then rs else i # rs). 0 \<le> hash (kw_entry db' g KName)"
    using t e k rs(1) by (auto simp: threads_ok_def)
  ultimately show ?thesis using t rs(2) by (auto simp: threads_ok_def)
qed

lemma links_ok_add:
  assumes l: "links_ok db gs" and i: "i = kw_itemsused db" "i < m"
    and n: "\<And>g. nglob db' g = (if g = i then 0 else if gs \<noteq> [] \<and> g = last gs then i else nglob db g)"
    and s: "kw_head db' = (if gs = [] then i else kw_head db)" "kw_tail db' = i" "kw_nitems db' = kw_nitems db + 1"
      "kw_itemsused db' = Suc i" "kw_maxitems db' = m" "kw_cap db' = m"
  shows "links_ok db' (gs @ [i])"
proof -
  note g = links_ok_facts [OF l]
  have pos: "i \<noteq> 0" using l i by (simp add: links_ok_def)
  have "chain (nglob db') (kw_head db') (gs @ [i])"
  proof (cases gs rule: rev_cases)
    case Nil
    then show ?thesis using s pos n [of i] by auto
  next
    case (snoc xs p)
    have "chain (nglob db) (kw_head db) (xs @ [p])" using l snoc by (simp add: links_ok_def)
    then have "chain ((nglob db)(i := 0)) (kw_head db) (xs @ [p])" using g(3) snoc i by (subst seg_upd) auto
    then have "chain (((nglob db)(i := 0))(p := i)) (kw_head db) (xs @ [p, i])"
      using g(3,4) snoc i pos by (intro chain_snoc) auto
    moreover have "nglob db' = ((nglob db)(i := 0))(p := i)" using n snoc g(3) i by auto
    ultimately show ?thesis using snoc s by simp
  qed
  then show ?thesis using l i s g(3) by (auto simp: links_ok_def sorted_wrt_append)
qed

lemma kw_view_snoc: "kw_view db (gs @ [i]) = kw_view db gs @ [(i, kw_entry db i)]"
  by (simp add: kw_view_def)

lemma kw_view_cong: "(\<And>g. g \<in> set gs \<Longrightarrow> kw_entry db' g = kw_entry db g) \<Longrightarrow> kw_view db' gs = kw_view db gs"
  by (simp add: kw_view_def)

lemma AddEntry_step:
  assumes wf: "kw_wf db gs rs" and args: "kw_name_arg a" "kw_arg b" "kw_arg c" "kw_arg d"
  shows "\<exists>i db'. kwdb_AddEntry True db a b c d = Some (int i, db') \<and> i = kw_itemsused db
    \<and> kw_wf db' (gs @ [i]) (if opt_str a = [] then rs else i # rs)
    \<and> kw_view db' (gs @ [i]) = kw_view db gs @ [(i, kw_args a b c d)]"
proof -
  define i where "i = kw_itemsused db"
  have l: "links_ok db gs" and t: "threads_ok db gs rs" and s: "strings_ok db gs" using wf by (simp_all add: kw_wf_def)
  note g = links_ok_facts [OF l]
  from AddEntry_result [OF l s args, folded i_def] obtain it ext n m where
    r: "kwdb_AddEntry True db a b c d = Some (int i, added db gs (opt_str a) it ext n m)"
    and m: "i < m" and b: "buf_ok (db\<lparr>kw_sbuf := kw_sbuf db @ ext, kw_sbuflen := n\<rparr>)"
    and f: "fresh_item (kw_sbuf db @ ext) (length (kw_sbuf db)) it (kw_args a b c d)" "it_nextglob it = 0"
    by blast
  define db' where "db' = added db gs (opt_str a) it ext n m"
  note db' = db'_def [unfolded added_def Let_def, folded i_def]
  have i: "i \<notin> set gs" "i \<noteq> 0" using g(3) l by (auto simp: i_def links_ok_def)
  have b': "buf_ok db'" using b by (simp add: db' buf_ok_def)
  have kept: "kept db db' g" if "g \<in> set gs" for g
    using s that i by (auto simp: kept_def db' strings_ok_def cell_ok_def intro: agree_append)
  have fresh: "fresh_item (kw_sbuf db') (length (kw_sbuf db)) (kw_itab db' i) (kw_args a b c d)"
    using f(1) same_strs_off [of it "kw_itab db' i"] by (auto simp: fresh_item_def db')
  have e: "kw_entry db' g = kw_entry db g" if "g \<in> set gs" for g using s kept that by (rule kept_entries)
  have ei: "kw_entry db' i = kw_args a b c d" using fresh by (auto simp: fresh_item_def kw_entry_def)
  have "links_ok db' (gs @ [i])"
    using l i_def m by (rule links_ok_add) (auto simp: db' f(2))
  moreover have "threads_ok db' (gs @ [i]) (if opt_str a = [] then rs else i # rs)"
    using t i e by (rule threads_ok_add) (use ei args(1) i in \<open>auto simp: db' kw_name_arg_def\<close>)
  moreover have "strings_ok db' (gs @ [i])" using s kept b' i(1) fresh by (rule strings_ok_new)
  moreover have "kw_view db' (gs @ [i]) = kw_view db gs @ [(i, kw_args a b c d)]"
    using kw_view_cong [of gs db' db, OF e] ei by (simp add: kw_view_snoc)
  ultimately show ?thesis using r [folded db'_def] i_def by (auto simp: kw_wf_def)
qed

subsection \<open>Changing a field of an entry\<close>

text \<open>The three setters and getters have the same shape.  \<open>upd\<close> stores a new offset and length of
  the field \<open>k\<close> in an item.\<close>

text \<open>A database in which the cell of one field of one entry has been replaced, by a new one or in
  place.\<close>

lemma strings_ok_cell:
  assumes s: "strings_ok db gs" and ep: "ep \<in> set gs" and b: "buf_ok db'"
    and off: "\<And>g k'. (g, k') \<noteq> (ep, k) \<Longrightarrow> off_of db' k' g = off_of db k' g"
    and cap: "\<And>g k' buf. (g, k') \<noteq> (ep, k) \<Longrightarrow> fld_cap buf k' (kw_itab db' g) = fld_cap buf k' (kw_itab db g)"
    and agr: "\<And>g k'. g \<in> set gs \<Longrightarrow> (g, k') \<noteq> (ep, k) \<Longrightarrow> agree (kw_sbuf db) (kw_sbuf db') (off_of db k' g) (cap_of db k' g)"
    and new: "cell_ok (kw_sbuf db') (off_of db' k ep) (cap_of db' k ep)"
    and place: "off_of db' k ep = off_of db k ep \<and> cap_of db' k ep = cap_of db k ep
      \<or> off_of db' k ep = 0 \<or> length (kw_sbuf db) \<le> off_of db' k ep"
  shows "strings_ok db' gs"
    and "\<And>g k'. g \<in> set gs \<Longrightarrow> (g, k') \<noteq> (ep, k) \<Longrightarrow> kw_entry db' g k' = kw_entry db g k'"
proof -
  have c: "cell_ok (kw_sbuf db) (off_of db k' g) (cap_of db k' g)" if "g \<in> set gs" for g k'
    using s that by (simp add: strings_ok_def)
  show e: "kw_entry db' g k' = kw_entry db g k'" if "g \<in> set gs" "(g, k') \<noteq> (ep, k)" for g k'
    using str_at_agree [OF c [OF that(1)] agr [OF that]] off [OF that(2)] by (simp add: kw_entry_def)
  have cap': "cap_of db' k' g = cap_of db k' g" if "g \<in> set gs" "(g, k') \<noteq> (ep, k)" for g k'
    using e [OF that] off [OF that(2)] cap [OF that(2)] by (cases k') (simp_all add: kw_entry_def)
  have cell': "cell_ok (kw_sbuf db') (off_of db' k' g) (cap_of db' k' g)" if "g \<in> set gs" for g k'
    using new cell_ok_agree [OF c [OF that] agr [OF that]] off cap' [OF that]
    by (cases "(g, k') = (ep, k)") simp_all
  have new_ap: "apart (off_of db k' g) (cap_of db k' g) (off_of db' k ep) (cap_of db' k ep)"
    if "g \<in> set gs" "(g, k') \<noteq> (ep, k)" for g k'
  proof -
    have "apart (off_of db k' g) (cap_of db k' g) (off_of db k ep) (cap_of db k ep)"
      using s that ep by (simp add: strings_ok_def)
    then show ?thesis using place apart_new [OF c [OF that(1), of k'], of "off_of db' k ep" "cap_of db' k ep"] by auto
  qed
  have ap': "apart (off_of db' k1 g) (cap_of db' k1 g) (off_of db' k2 g') (cap_of db' k2 g')"
    if "g \<in> set gs" "g' \<in> set gs" "(g, k1) \<noteq> (g', k2)" for g g' k1 k2
  proof -
    consider "(g, k1) = (ep, k)" | "(g', k2) = (ep, k)" | "(g, k1) \<noteq> (ep, k)" "(g', k2) \<noteq> (ep, k)" by blast
    then show ?thesis
    proof cases
      case 1
      then show ?thesis using apart_sym [OF new_ap [OF that(2), of k2]] that off cap' by auto
    next
      case 2
      then show ?thesis using new_ap [OF that(1), of k1] that off cap' by auto
    next
      case 3
      then show ?thesis using s that off cap' by (simp add: strings_ok_def)
    qed
  qed
  show "strings_ok db' gs" using b cell' ap' unfolding strings_ok_def by blast
qed

lemma threads_ok_names:
  assumes t: "threads_ok db gs rs" and n: "nhash db' = nhash db" "kw_hashtbl db' = kw_hashtbl db"
    and e: "\<And>g. g \<in> set gs \<Longrightarrow> kw_entry db' g KName = kw_entry db g KName"
  shows "threads_ok db' gs rs"
proof -
  have rs: "set rs \<subseteq> set gs" using t by (auto simp: threads_ok_def)
  have "filter (\<lambda>g. hash (kw_entry db' g KName) = int h) rs = filter (\<lambda>g. hash (kw_entry db g KName) = int h) rs" for h
    using e rs by (auto intro!: filter_cong)
  moreover have "{g \<in> set gs. kw_entry db' g KName \<noteq> []} = {g \<in> set gs. kw_entry db g KName \<noteq> []}" using e by auto
  ultimately show ?thesis using t e rs unfolding threads_ok_def n by auto
qed

locale kw_accessor =
  fixes k :: kw_field
    and upd :: "nat \<Rightarrow> nat \<Rightarrow> item \<Rightarrow> item"
    and getter :: "kwdb \<Rightarrow> string \<Rightarrow> string option option"
    and setter :: "bool \<Rightarrow> kwdb \<Rightarrow> string \<Rightarrow> string \<Rightarrow> (int \<times> kwdb) option"
  assumes not_name: "k \<noteq> KName"
    and upd_off: "fld_off k' (upd o2 l2 it) = (if k' = k then o2 else fld_off k' it)"
    and upd_cap: "fld_cap buf k' (upd o2 l2 it) = (if k' = k then l2 else fld_cap buf k' it)"
    and upd_links: "it_nexthash (upd o2 l2 it) = it_nexthash it" "it_nextglob (upd o2 l2 it) = it_nextglob it"
    and getter: "getter db kw = get_field (fld_off k) db kw"
    and setter: "setter ra db kw v =
      (case kwdb_Lookup db kw 0 of
         None \<Rightarrow> None
       | Some ep \<Rightarrow>
           if ep = 0 then Some (-1, db)
           else case replace_str ra db (off_of db k ep) (cap_of db k ep) v of
               None \<Rightarrow> None
             | Some (o2, l2, db2) \<Rightarrow> Some (0, put_item ep (upd o2 l2) db2))"
begin

lemma entry_replaced:
  assumes s: "strings_ok db gs" and ep: "ep \<in> set gs" and v: "NUL \<notin> set v" "length v < DEF_SZSBUF"
  obtains o2 l2 db2 where
    "replace_str True db (off_of db k ep) (cap_of db k ep) v = Some (o2, l2, db2)"
    "strings_ok (put_item ep (upd o2 l2) db2) gs"
    "\<And>g. g \<in> set gs \<Longrightarrow> kw_entry (put_item ep (upd o2 l2) db2) g
       = (if g = ep then (kw_entry db g)(k := v) else kw_entry db g)"
    "\<exists>buf n. db2 = db\<lparr>kw_sbuf := buf, kw_sbuflen := n\<rparr>"
proof -
  let ?b = "kw_sbuf db"
  have b: "buf_ok db" and c: "cell_ok ?b (off_of db k' g) (cap_of db k' g)" if "g \<in> set gs" for g k'
    using s that ep by (auto simp: strings_ok_def)
  obtain o2 l2 buf n where
    r: "replace_str True db (off_of db k ep) (cap_of db k ep) v = Some (o2, l2, db\<lparr>kw_sbuf := buf, kw_sbuflen := n\<rparr>)"
    and b': "buf_ok (db\<lparr>kw_sbuf := buf, kw_sbuflen := n\<rparr>)"
    and new: "cell_ok buf o2 l2" "str_at buf o2 = v" "length ?b \<le> length buf"
    and out: "\<And>i. i < length ?b \<Longrightarrow> off_of db k ep = 0 \<or> i < off_of db k ep \<or> off_of db k ep + cap_of db k ep < i \<Longrightarrow> buf ! i = ?b ! i"
    and place: "o2 = off_of db k ep \<and> l2 = cap_of db k ep \<or> length ?b \<le> o2"
    by (rule replace_str_spec [OF b [OF ep] c [OF ep] v, of k]) blast
  define db' where "db' = put_item ep (upd o2 l2) (db\<lparr>kw_sbuf := buf, kw_sbuflen := n\<rparr>)"
  have buf: "kw_sbuf db' = buf" and ok: "buf_ok db'" using b' by (auto simp: db'_def put_item_def buf_ok_def)
  have off: "off_of db' k' g = (if g = ep \<and> k' = k then o2 else off_of db k' g)" for k' g
    by (auto simp: db'_def put_item_def upd_off)
  have ap: "apart (off_of db k' g) (cap_of db k' g) (off_of db k ep) (cap_of db k ep)" if "g \<in> set gs" "(g, k') \<noteq> (ep, k)" for g k'
    using s that ep by (simp add: strings_ok_def)
  have agr: "agree ?b (kw_sbuf db') (off_of db k' g) (cap_of db k' g)" if "g \<in> set gs" "(g, k') \<noteq> (ep, k)" for g k'
    using ap [OF that] c [OF that(1), of k'] new(3) out ok buf by (auto simp: agree_def apart_def cell_ok_def buf_ok_def)
  have cap: "fld_cap bu k' (kw_itab db' g) = (if g = ep \<and> k' = k then l2 else fld_cap bu k' (kw_itab db g))" for k' g bu
    by (auto simp: db'_def put_item_def upd_cap)
  have off1: "off_of db' k' g = off_of db k' g" if "(g, k') \<noteq> (ep, k)" for g k' using that by (auto simp: off)
  have cap1: "fld_cap bu k' (kw_itab db' g) = fld_cap bu k' (kw_itab db g)" if "(g, k') \<noteq> (ep, k)" for g k' bu
    using that by (auto simp: cap)
  have cell1: "cell_ok (kw_sbuf db') (off_of db' k ep) (cap_of db' k ep)" using new(1) buf by (simp add: off cap)
  have place1: "off_of db' k ep = off_of db k ep \<and> cap_of db' k ep = cap_of db k ep
      \<or> off_of db' k ep = 0 \<or> length ?b \<le> off_of db' k ep" using place by (auto simp: off cap)
  have all: "kw_entry db' g k' = kw_entry db g k'" if "g \<in> set gs" "(g, k') \<noteq> (ep, k)" for g k'
    by (rule strings_ok_cell(2) [OF s ep ok off1 cap1 agr cell1 place1 that])
  have "kw_entry db' g = (if g = ep then (kw_entry db g)(k := v) else kw_entry db g)" if "g \<in> set gs" for g
    using all [OF that] new(2) by (auto simp: kw_entry_def buf off)
  moreover have "strings_ok db' gs" by (rule strings_ok_cell(1) [OF s ep ok off1 cap1 agr cell1 place1])
  ultimately show ?thesis using that [OF r] unfolding db'_def by blast
qed

lemma setter_step:
  assumes wf: "kw_wf db gs rs" and kw: "0 \<le> hash kw" and v: "NUL \<notin> set v" "length v < DEF_SZSBUF"
  shows "case filter (\<lambda>g. streq (kw_entry db g KName) kw) rs of
      [] \<Rightarrow> setter True db kw v = Some (-1, db)
    | ep # _ \<Rightarrow> \<exists>db'. setter True db kw v = Some (0, db') \<and> kw_wf db' gs rs
        \<and> kw_view db' gs = map (\<lambda>(g, e). (g, if g = ep then e(k := v) else e)) (kw_view db gs)"
proof (cases "filter (\<lambda>g. streq (kw_entry db g KName) kw) rs")
  case Nil
  then show ?thesis using lookup_first [of db gs rs kw] wf kw by (simp add: setter kw_wf_def)
next
  case (Cons ep eps)
  have t: "threads_ok db gs rs" and s: "strings_ok db gs" and l: "links_ok db gs" using wf by (simp_all add: kw_wf_def)
  have "ep \<in> set (filter (\<lambda>g. streq (kw_entry db g KName) kw) rs)" using Cons by simp
  then have ep: "ep \<in> set gs" using t by (auto simp: threads_ok_def)
  then have pos: "ep \<noteq> 0" using links_ok_facts(2) [OF l] by metis
  obtain o2 l2 db2 where
    r: "replace_str True db (off_of db k ep) (cap_of db k ep) v = Some (o2, l2, db2)"
    and s': "strings_ok (put_item ep (upd o2 l2) db2) gs"
    and e: "\<And>g. g \<in> set gs \<Longrightarrow> kw_entry (put_item ep (upd o2 l2) db2) g
       = (if g = ep then (kw_entry db g)(k := v) else kw_entry db g)"
    and db2: "\<exists>buf n. db2 = db\<lparr>kw_sbuf := buf, kw_sbuflen := n\<rparr>"
    by (rule entry_replaced [OF s ep v]) blast
  define db' where "db' = put_item ep (upd o2 l2) db2"
  have same: "nglob db' = nglob db" "nhash db' = nhash db" "kw_hashtbl db' = kw_hashtbl db" "kw_head db' = kw_head db"
    "kw_tail db' = kw_tail db" "kw_nitems db' = kw_nitems db" "kw_itemsused db' = kw_itemsused db"
    "kw_maxitems db' = kw_maxitems db" "kw_cap db' = kw_cap db"
    using db2 by (auto simp: db'_def put_item_def upd_links)
  have n: "kw_entry db' g KName = kw_entry db g KName" if "g \<in> set gs" for g
    using e [OF that] not_name by (simp add: db'_def)
  have "setter True db kw v = Some (0, db')"
    using lookup_first [OF t kw] Cons r pos by (simp add: setter db'_def)
  moreover have "links_ok db' gs" using l same by (simp add: links_ok_def)
  moreover have "threads_ok db' gs rs" using t same(2,3) n by (rule threads_ok_names)
  moreover have "kw_view db' gs = map (\<lambda>(g, e). (g, if g = ep then e(k := v) else e)) (kw_view db gs)"
    using e by (simp add: kw_view_def db'_def)
  ultimately show ?thesis using Cons s' by (auto simp: kw_wf_def db'_def)
qed

lemma getter_result:
  assumes "kw_wf db gs rs" "0 \<le> hash kw"
  shows "getter db kw = Some (case filter (\<lambda>g. streq (kw_entry db g KName) kw) rs of
      [] \<Rightarrow> None | g # _ \<Rightarrow> Some (kw_entry db g k))"
proof -
  have t: "threads_ok db gs rs" and z: "0 \<notin> set gs" using assms links_ok_facts(2) by (auto simp: kw_wf_def)
  have "g \<noteq> 0" if "filter (\<lambda>g. streq (kw_entry db g KName) kw) rs = g # gl" for g gl
  proof -
    have "g \<in> set rs" using that by (metis filter_is_subset list.set_intros(1) subsetD)
    then show ?thesis using t z by (auto simp: threads_ok_def)
  qed
  then show ?thesis using lookup_first [OF t assms(2)]
    by (auto simp: getter get_field_def kw_entry_def split: list.splits)
qed

end

lemma item_value_upd:
  "fld_off k' (it\<lparr>it_value := o2, it_vallen := l2\<rparr>) = (if k' = KValue then o2 else fld_off k' it)"
  "fld_cap buf k' (it\<lparr>it_value := o2, it_vallen := l2\<rparr>) = (if k' = KValue then l2 else fld_cap buf k' it)"
  by (cases k'; simp)+

lemma item_comment_upd:
  "fld_off k' (it\<lparr>it_comment := o2, it_comlen := l2\<rparr>) = (if k' = KComment then o2 else fld_off k' it)"
  "fld_cap buf k' (it\<lparr>it_comment := o2, it_comlen := l2\<rparr>) = (if k' = KComment then l2 else fld_cap buf k' it)"
  by (cases k'; simp)+

lemma item_type_upd:
  "fld_off k' (it\<lparr>it_type := o2, it_typelen := l2\<rparr>) = (if k' = KType then o2 else fld_off k' it)"
  "fld_cap buf k' (it\<lparr>it_type := o2, it_typelen := l2\<rparr>) = (if k' = KType then l2 else fld_cap buf k' it)"
  by (cases k'; simp)+

interpretation kv: kw_accessor KValue "\<lambda>o2 l2 it. it\<lparr>it_value := o2, it_vallen := l2\<rparr>" kwdb_GetValue kwdb_SetValue
  by unfold_locales (simp_all add: item_value_upd kwdb_GetValue_def kwdb_SetValue_def get_field_def split: option.splits)

interpretation kc: kw_accessor KComment "\<lambda>o2 l2 it. it\<lparr>it_comment := o2, it_comlen := l2\<rparr>" kwdb_GetComment kwdb_SetComment
  by unfold_locales (simp_all add: item_comment_upd kwdb_GetComment_def kwdb_SetComment_def get_field_def split: option.splits)

interpretation kt: kw_accessor KType "\<lambda>o2 l2 it. it\<lparr>it_type := o2, it_typelen := l2\<rparr>" kwdb_GetType kwdb_SetType
  by unfold_locales (simp_all add: item_type_upd kwdb_GetType_def kwdb_SetType_def get_field_def split: option.splits)

subsection \<open>Taking an entry out\<close>

lemma unlink_walk_chain:
  assumes "chain (\<lambda>g. it_nexthash (it g)) i (us @ p # e # vs)" "distinct (us @ p # e # vs)"
  shows "unlink_walk it e i = Some (it(p := (it p)\<lparr>it_nexthash := it_nexthash (it e)\<rparr>))"
  using assms
proof (induction us arbitrary: i)
  case Nil
  then show ?case by (subst unlink_walk.simps) auto
next
  case (Cons u us)
  then have i: "i = u" and c: "chain (\<lambda>g. it_nexthash (it g)) (it_nexthash (it u)) (us @ p # e # vs)" by simp_all
  have "it_nexthash (it u) \<noteq> 0 \<and> it_nexthash (it u) \<noteq> e" using c Cons.prems(2) by (cases us) auto
  then show ?case using Cons.IH [OF c] Cons.prems(2) i by (subst unlink_walk.simps) auto
qed

lemma glob_walk_found:
  assumes "chain (\<lambda>g. it_nextglob (it g)) i (us @ p # e # vs)" "distinct (us @ p # e # vs)"
  shows "glob_walk it e i = Some (it(p := (it p)\<lparr>it_nextglob := it_nextglob (it e)\<rparr>), p)"
  using assms
proof (induction us arbitrary: i)
  case Nil
  then show ?case by (subst glob_walk.simps) auto
next
  case (Cons u us)
  then have i: "i = u" "u \<noteq> 0" and c: "chain (\<lambda>g. it_nextglob (it g)) (it_nextglob (it u)) (us @ p # e # vs)" by simp_all
  have "it_nextglob (it u) \<noteq> e" using c Cons.prems(2) by (cases us) auto
  then show ?case using Cons.IH [OF c] Cons.prems(2) i by (subst glob_walk.simps) auto
qed

lemma glob_walk_missing:
  assumes "chain (\<lambda>g. it_nextglob (it g)) i xs" "e \<notin> set xs" "e \<noteq> 0"
  shows "glob_walk it e i = Some (it, 0)"
  using assms
proof (induction xs arbitrary: i)
  case Nil
  then show ?case by (simp add: glob_walk.simps)
next
  case (Cons x xs)
  then have "it_nextglob (it x) \<noteq> e" using chain_hd [of _ "it_nextglob (it x)" xs] by (cases xs) auto
  then show ?case using Cons by (subst glob_walk.simps) auto
qed

text \<open>After \<open>unlink_hash\<close> the threads no longer hold the entry; nothing but the links of the
  threads has changed, and not that of the entry itself.\<close>

lemma unlink_hash_spec:
  assumes t: "threads_ok db gs rs" and b: "buf_ok db" and ep: "ep \<in> set gs"
  shows "\<exists>it ht. unlink_hash ep db = Some (db\<lparr>kw_itab := it, kw_hashtbl := ht\<rparr>)
    \<and> (\<forall>g. same_strs (kw_itab db g) (it g) \<and> it_nextglob (it g) = nglob db g) \<and> it_nexthash (it ep) = nhash db ep
    \<and> (\<forall>h. chain (\<lambda>g. it_nexthash (it g)) (ht h) (filter (\<lambda>g. hash (kw_entry db g KName) = int h) (remove1 ep rs)))"
proof (cases "kw_entry db ep KName = []")
  case True
  then have "remove1 ep rs = rs" using t by (auto simp: threads_ok_def intro!: remove1_idem)
  moreover have "unlink_hash ep db = Some db" using True by (simp add: unlink_hash_def kw_entry_def)
  ultimately show ?thesis using t
    by (intro exI [of _ "kw_itab db"] exI [of _ "kw_hashtbl db"]) (simp add: threads_ok_def)
next
  case False
  let ?th = "\<lambda>h. filter (\<lambda>g. hash (kw_entry db g KName) = int h) rs"
  define h where "h = nat (hash (kw_entry db ep KName))"
  have ch: "chain (nhash db) (kw_hashtbl db h') (?th h')" and d: "distinct (?th h')" for h' using t by (auto simp: threads_ok_def)
  have hp: "0 \<le> hash (kw_entry db ep KName)" and ein: "ep \<in> set (?th h)"
    using t ep False by (auto simp: threads_ok_def h_def)
  have off: "it_name (kw_itab db ep) \<noteq> 0"
    using False b str_at_zero [of "kw_sbuf db"] unfolding kw_entry_def buf_ok_def by (metis fld_off.simps(1))
  have rm: "filter (\<lambda>g. hash (kw_entry db g KName) = int h') (remove1 ep rs) = (if h' = h then remove1 ep (?th h) else ?th h')" for h'
    using hp by (auto simp: filter_remove1 h_def intro!: remove1_idem)
  have u: "unlink_hash ep db = (if ep = kw_hashtbl db h then Some (db\<lparr>kw_hashtbl := (kw_hashtbl db)(h := nhash db ep)\<rparr>)
      else case unlink_walk (kw_itab db) ep (kw_hashtbl db h) of None \<Rightarrow> None | Some it \<Rightarrow> Some (db\<lparr>kw_itab := it\<rparr>))"
    using off False hp by (simp add: unlink_hash_def kw_entry_def h_def Let_def)
  show ?thesis
  proof (cases "ep = kw_hashtbl db h")
    case True
    then obtain xs where xs: "?th h = ep # xs" using ch [of h] ein chain_hd [OF ch, of h] by (cases "?th h") auto
    have "unlink_hash ep db = Some (db\<lparr>kw_itab := kw_itab db, kw_hashtbl := (kw_hashtbl db)(h := nhash db ep)\<rparr>)"
      using u True by simp
    moreover have "chain (nhash db) (((kw_hashtbl db)(h := nhash db ep)) h') (if h' = h then remove1 ep (?th h) else ?th h')" for h'
      using ch [of h'] ch [of h] xs by auto
    ultimately show ?thesis unfolding rm
      by (intro exI [of _ "kw_itab db"] exI [of _ "(kw_hashtbl db)(h := nhash db ep)"]) simp
  next
    case neq: False
    have "?th h \<noteq> []" using ein by (metis empty_iff list.set(1))
    then have "ep \<noteq> hd (?th h)" using chain_hd [OF ch, of h] neq by simp
    then obtain us p vs where sp: "?th h = us @ p # ep # vs" using ein split_before by metis
    have d': "distinct (us @ p # ep # vs)" using d [of h] sp by simp
    let ?it = "(kw_itab db)(p := (kw_itab db p)\<lparr>it_nexthash := nhash db ep\<rparr>)"
    have "unlink_walk (kw_itab db) ep (kw_hashtbl db h) = Some ?it"
      using ch [of h] d' unfolding sp by (rule unlink_walk_chain)
    then have "unlink_hash ep db = Some (db\<lparr>kw_itab := ?it, kw_hashtbl := kw_hashtbl db\<rparr>)"
      using u neq by simp
    moreover have "chain (\<lambda>g. it_nexthash (?it g)) (kw_hashtbl db h') (if h' = h then remove1 ep (?th h) else ?th h')" for h'
    proof -
      have n: "(\<lambda>g. it_nexthash (?it g)) = (nhash db)(p := nhash db ep)" by auto
      have "p \<in> set (?th h)" using sp by simp
      then have "p \<notin> set (?th h')" if "h' \<noteq> h" using that by auto
      moreover have "chain ((nhash db)(p := nhash db ep)) (kw_hashtbl db h) (us @ p # vs)"
        using ch [of h] d' unfolding sp by (rule chain_unlink)
      ultimately show ?thesis using ch [of h'] remove1_mid [OF d'] unfolding n sp by auto
    qed
    ultimately show ?thesis unfolding rm using d'
      by (intro exI [of _ ?it] exI [of _ "kw_hashtbl db"]) auto
  qed
qed

lemma glob_unlink:
  assumes c: "chain (\<lambda>g. it_nextglob (it g)) hd0 gs" and d: "distinct gs" and ep: "ep \<in> set gs"
  defines "hd1 \<equiv> (if hd0 = ep then it_nextglob (it ep) else hd0)"
  shows "\<exists>it' i. glob_walk it ep hd1 = Some (it', i) \<and> chain (\<lambda>g. it_nextglob (it' g)) hd1 (remove1 ep gs)
    \<and> (last gs = ep \<longrightarrow> i = (if remove1 ep gs = [] then 0 else last (remove1 ep gs)))
    \<and> (\<forall>g. same_strs (it g) (it' g) \<and> it_nexthash (it' g) = it_nexthash (it g))"
proof (cases "ep = hd gs")
  case True
  then obtain xs where gs: "gs = ep # xs" using ep by (cases gs) auto
  then have x: "chain (\<lambda>g. it_nextglob (it g)) hd1 xs" "ep \<notin> set xs" "ep \<noteq> 0"
    using c d by (simp_all add: hd1_def)
  then have "glob_walk it ep hd1 = Some (it, 0)" by (rule glob_walk_missing)
  moreover have "last gs = ep \<longrightarrow> xs = []" using gs d by (cases xs rule: rev_cases) auto
  moreover have "remove1 ep gs = xs" using gs by simp
  ultimately show ?thesis using x(1) by (intro exI [of _ it] exI [of _ 0]) simp
next
  case False
  then obtain us p vs where gs: "gs = us @ p # ep # vs" using ep split_before by metis
  have "hd0 \<noteq> ep" using chain_hd [OF c] False ep by (auto split: if_splits)
  then have w: "glob_walk it ep hd1 = Some (it(p := (it p)\<lparr>it_nextglob := it_nextglob (it ep)\<rparr>), p)"
    using c d gs by (auto simp: hd1_def intro: glob_walk_found)
  let ?it = "it(p := (it p)\<lparr>it_nextglob := it_nextglob (it ep)\<rparr>)"
  have n: "(\<lambda>g. it_nextglob (?it g)) = (\<lambda>g. it_nextglob (it g))(p := it_nextglob (it ep))" by auto
  have c': "chain (\<lambda>g. it_nextglob (it g)) hd0 (us @ p # ep # vs)" "distinct (us @ p # ep # vs)" using c d gs by simp_all
  have "chain (\<lambda>g. it_nextglob (?it g)) hd1 (us @ p # vs)"
    using chain_unlink [OF c'] \<open>hd0 \<noteq> ep\<close> unfolding n by (simp add: hd1_def)
  moreover have "last gs = ep \<longrightarrow> vs = []" using gs c'(2) by (cases vs rule: rev_cases) auto
  moreover have "remove1 ep gs = us @ p # vs" using remove1_mid [OF c'(2)] gs by simp
  ultimately show ?thesis using w by (intro exI [of _ ?it] exI [of _ p]) auto
qed

lemma kept_same_strs:
  "strings_ok db gs \<Longrightarrow> g \<in> set gs \<Longrightarrow> kw_sbuf db' = kw_sbuf db \<Longrightarrow> same_strs (kw_itab db g) (kw_itab db' g) \<Longrightarrow> kept db db' g"
  by (simp add: kept_def agree_def)

lemma same_strs_trans: "same_strs a b \<Longrightarrow> same_strs b c \<Longrightarrow> same_strs a c"
  by (simp add: same_strs_def)

lemma strings_ok_subset: "strings_ok db gs \<Longrightarrow> set gs' \<subseteq> set gs \<Longrightarrow> strings_ok db gs'"
  unfolding strings_ok_def by blast

lemma links_ok_delete:
  assumes l: "links_ok db gs" and ep: "ep \<in> set gs" and c: "chain (nglob db') (kw_head db') (remove1 ep gs)"
    and t: "if kw_tail db = ep then kw_itemsused db' = kw_itemsused db - 1 \<and> kw_tail db' = (if remove1 ep gs = [] then 0 else last (remove1 ep gs))
      else kw_itemsused db' = kw_itemsused db \<and> kw_tail db' = kw_tail db"
    and s: "kw_nitems db' = kw_nitems db - 1" "kw_maxitems db' = kw_maxitems db" "kw_cap db' = kw_cap db"
  shows "links_ok db' (remove1 ep gs)"
proof -
  note f = links_ok_facts [OF l]
  obtain us vs where gs: "gs = us @ ep # vs" using ep by (meson split_list)
  have rm: "remove1 ep gs = us @ vs" using gs f(4) by (simp add: remove1_append)
  have so: "sorted_wrt (<) gs" and us: "\<forall>g \<in> set gs. g < kw_itemsused db" "kw_nitems db = int (length gs)"
    "kw_itemsused db \<le> kw_maxitems db" "kw_cap db = kw_maxitems db" "kw_tail db = last gs"
    using l gs by (auto simp: links_ok_def)
  have len: "kw_nitems db' = int (length (remove1 ep gs))" using us(2) s(1) ep by (simp add: length_remove1 gs)
  show ?thesis
  proof (cases "kw_tail db = ep")
    case True
    have "vs = []" using True us(5) gs f(4) by (cases vs rule: rev_cases) auto
    moreover have "\<forall>g \<in> set us. g < ep" "0 < ep" "ep < kw_itemsused db" using so gs us(1) f(2) by (auto simp: sorted_wrt_append)
    ultimately show ?thesis using c t True s us len sorted_wrt_remove1 [OF so, of ep] rm
      by (fastforce simp: links_ok_def)
  next
    case False
    then have "vs \<noteq> []" using us(5) gs by auto
    then show ?thesis using c t False s us len sorted_wrt_remove1 [OF so, of ep] rm gs l by (auto simp: links_ok_def)
  qed
qed

lemma entry_range: "links_ok db gs \<Longrightarrow> ep \<in> set gs \<Longrightarrow> 0 < ep \<and> ep \<le> kw_tail db"
proof -
  assume l: "links_ok db gs" and ep: "ep \<in> set gs"
  then obtain us vs where gs: "gs = us @ ep # vs" by (meson split_list)
  have "kw_tail db = last gs" using links_ok_facts(5) [OF l] gs by simp
  moreover have "ep \<noteq> 0" using links_ok_facts(2) [OF l] ep by metis
  moreover have "ep \<le> last gs" using l gs by (cases vs rule: rev_cases) (auto simp: links_ok_def sorted_wrt_append)
  ultimately show ?thesis by simp
qed

lemma DeleteEntry_step:
  assumes wf: "kw_wf db gs rs" and ep: "ep \<in> set gs"
  shows "\<exists>db'. kwdb_DeleteEntry db (int ep) = Some (0, db') \<and> kw_wf db' (remove1 ep gs) (remove1 ep rs)
    \<and> kw_view db' (remove1 ep gs) = filter (\<lambda>(g, e). g \<noteq> ep) (kw_view db gs)"
proof -
  have l: "links_ok db gs" and t: "threads_ok db gs rs" and s: "strings_ok db gs" using wf by (simp_all add: kw_wf_def)
  note f = links_ok_facts [OF l]
  have b: "buf_ok db" using s by (simp add: strings_ok_def)
  from unlink_hash_spec [OF t b ep] obtain it1 ht where
    u: "unlink_hash ep db = Some (db\<lparr>kw_itab := it1, kw_hashtbl := ht\<rparr>)"
    and s1: "\<And>g. same_strs (kw_itab db g) (it1 g)" and g1: "\<And>g. it_nextglob (it1 g) = nglob db g"
    and c1: "\<And>h. chain (\<lambda>g. it_nexthash (it1 g)) (ht h) (filter (\<lambda>g. hash (kw_entry db g KName) = int h) (remove1 ep rs))"
    by blast
  define hd1 where "hd1 = (if kw_head db = ep then it_nextglob (it1 ep) else kw_head db)"
  have "chain (\<lambda>g. it_nextglob (it1 g)) (kw_head db) gs" using l g1 by (simp add: links_ok_def)
  from glob_unlink [OF this f(4) ep, folded hd1_def] obtain it2 i where
    w: "glob_walk it1 ep hd1 = Some (it2, i)" and c2: "chain (\<lambda>g. it_nextglob (it2 g)) hd1 (remove1 ep gs)"
    and i: "last gs = ep \<longrightarrow> i = (if remove1 ep gs = [] then 0 else last (remove1 ep gs))"
    and s2: "\<And>g. same_strs (it1 g) (it2 g)" and h2: "\<And>g. it_nexthash (it2 g) = it_nexthash (it1 g)"
    by blast
  define db' where "db' = db\<lparr>kw_itab := it2, kw_hashtbl := ht, kw_head := hd1, kw_nitems := kw_nitems db - 1,
    kw_tail := (if kw_tail db = ep then i else kw_tail db),
    kw_itemsused := (if kw_tail db = ep then kw_itemsused db - 1 else kw_itemsused db)\<rparr>"
  have r: "kwdb_DeleteEntry db (int ep) = Some (0, db')"
    using entry_range [OF l ep] u w by (auto simp: kwdb_DeleteEntry_def Let_def hd1_def db'_def intro!: kwdb.equality)
  have kept: "kept db db' g" if "g \<in> set gs" for g
    using s that by (rule kept_same_strs) (use same_strs_trans [OF s1 s2] in \<open>auto simp: db'_def\<close>)
  have e: "kw_entry db' g = kw_entry db g" if "g \<in> set gs" for g using s kept that by (rule kept_entries)
  have tail: "kw_tail db = last gs" using f(5) ep by auto
  have "links_ok db' (remove1 ep gs)"
    using l ep by (rule links_ok_delete) (use c2 i tail in \<open>auto simp: db'_def\<close>)
  moreover have "strings_ok db' (remove1 ep gs)"
    using strings_ok_kept [OF s kept] b set_remove1_subset [of ep gs] by (auto simp: db'_def buf_ok_def intro: strings_ok_subset)
  moreover have "threads_ok db' (remove1 ep gs) (remove1 ep rs)"
  proof -
    have rs: "set (remove1 ep rs) \<subseteq> set gs" using t set_remove1_subset [of ep rs] by (auto simp: threads_ok_def)
    have "filter (\<lambda>g. hash (kw_entry db' g KName) = int h) (remove1 ep rs)
        = filter (\<lambda>g. hash (kw_entry db g KName) = int h) (remove1 ep rs)" for h
      using e rs by (auto intro!: filter_cong)
    then have "chain (nhash db') (kw_hashtbl db' h) (filter (\<lambda>g. hash (kw_entry db' g KName) = int h) (remove1 ep rs))" for h
      using c1 h2 by (simp add: db'_def)
    then show ?thesis using t e rs f(4) by (auto simp: threads_ok_def)
  qed
  moreover have "kw_view db' (remove1 ep gs) = filter (\<lambda>(g, e). g \<noteq> ep) (kw_view db gs)"
  proof -
    have "remove1 ep gs = filter (\<lambda>g. g \<noteq> ep) gs"
      using f(4) by (simp add: distinct_remove1_removeAll removeAll_filter_not_eq eq_commute)
    then show ?thesis using e by (simp add: kw_view_def filter_map o_def)
  qed
  ultimately show ?thesis using r by (auto simp: kw_wf_def)
qed

subsection \<open>Renaming an entry\<close>

lemma threads_ok_rename:
  assumes t: "threads_ok db gs rs" and ep: "ep \<in> set gs" "ep \<noteq> 0"
    and c: "\<And>h. chain nx (ht h) (filter (\<lambda>g. hash (kw_entry db g KName) = int h) (remove1 ep rs))"
    and n: "nhash db' = (if k = [] then nx else nx(ep := ht (nat (hash k))))"
    and h: "kw_hashtbl db' = (if k = [] then ht else ht(nat (hash k) := ep))"
    and e: "\<And>g. g \<in> set gs \<Longrightarrow> g \<noteq> ep \<Longrightarrow> kw_entry db' g KName = kw_entry db g KName"
    and k: "kw_entry db' ep KName = k" "0 \<le> hash k"
  shows "threads_ok db' gs (if k = [] then remove1 ep rs else ep # remove1 ep rs)"
proof -
  have d: "distinct rs" and rs: "set rs = {g \<in> set gs. kw_entry db g KName \<noteq> []}" using t by (simp_all add: threads_ok_def)
  have f: "filter (\<lambda>g. hash (kw_entry db' g KName) = int h) (remove1 ep rs)
      = filter (\<lambda>g. hash (kw_entry db g KName) = int h) (remove1 ep rs)" for h
    using e d rs by (auto intro!: filter_cong)
  have ek: "kw_entry db' g KName = (if g = ep then k else kw_entry db g KName)" if "g \<in> set gs" for g using e that k(1) by simp
  have "ep \<notin> set (filter (\<lambda>g. hash (kw_entry db g KName) = int h) (remove1 ep rs))" for h using d by simp
  then have "chain (nhash db') (kw_hashtbl db' h) (filter (\<lambda>g. hash (kw_entry db' g KName) = int h)
      (if k = [] then remove1 ep rs else ep # remove1 ep rs))" for h
    using c [of h] k ep(2) by (auto simp: f n h)
  moreover have "set (if k = [] then remove1 ep rs else ep # remove1 ep rs) = {g \<in> set gs. kw_entry db' g KName \<noteq> []}"
    using ek d rs ep(1) by (auto split: if_splits)
  moreover have "\<forall>g \<in> set (if k = [] then remove1 ep rs else ep # remove1 ep rs). 0 \<le> hash (kw_entry db' g KName)"
    using t d rs ek k ep(1) by (auto simp: threads_ok_def split: if_splits)
  ultimately show ?thesis using d by (auto simp: threads_ok_def)
qed

lemma strings_ok_rename:
  assumes s: "strings_ok db gs" and ep: "ep \<in> set gs" and b: "buf_ok db'"
    and it: "\<And>g. same_strs ((kw_itab db g)\<lparr>it_name := 0\<rparr>) ((kw_itab db' g)\<lparr>it_name := 0\<rparr>)"
      "\<And>g. g \<noteq> ep \<Longrightarrow> it_name (kw_itab db' g) = it_name (kw_itab db g)"
    and buf: "kw_sbuf db' = kw_sbuf db @ ext"
    and new: "cell_ok (kw_sbuf db') (it_name (kw_itab db' ep)) (length (kw_entry db' ep KName))"
      "it_name (kw_itab db' ep) = 0 \<or> length (kw_sbuf db) \<le> it_name (kw_itab db' ep)"
  shows "strings_ok db' gs"
    and "\<And>g k'. g \<in> set gs \<Longrightarrow> (g, k') \<noteq> (ep, KName) \<Longrightarrow> kw_entry db' g k' = kw_entry db g k'"
proof -
  have off: "off_of db' k' g = off_of db k' g" if "(g, k') \<noteq> (ep, KName)" for g k'
    using that same_strs_off [OF it(1), of k' g] it(2) by (cases k') auto
  have cap: "fld_cap bu k' (kw_itab db' g) = fld_cap bu k' (kw_itab db g)" if "(g, k') \<noteq> (ep, KName)" for g k' bu
    using that same_strs_off [OF it(1), of k' g bu] it(2) by (cases k') auto
  have agr: "agree (kw_sbuf db) (kw_sbuf db') (off_of db k' g) (cap_of db k' g)" if "g \<in> set gs" "(g, k') \<noteq> (ep, KName)" for g k'
    using s that unfolding buf by (auto simp: strings_ok_def cell_ok_def intro: agree_append)
  have cell: "cell_ok (kw_sbuf db') (off_of db' KName ep) (cap_of db' KName ep)" using new(1) by (simp add: kw_entry_def)
  have place: "off_of db' KName ep = off_of db KName ep \<and> cap_of db' KName ep = cap_of db KName ep
      \<or> off_of db' KName ep = 0 \<or> length (kw_sbuf db) \<le> off_of db' KName ep" using new(2) by simp
  show "strings_ok db' gs" by (rule strings_ok_cell(1) [OF s ep b off cap agr cell place])
  show "kw_entry db' g k' = kw_entry db g k'" if "g \<in> set gs" "(g, k') \<noteq> (ep, KName)" for g k'
    by (rule strings_ok_cell(2) [OF s ep b off cap agr cell place that])
qed

text \<open>What the two branches of \<open>kwdb_RenameEntry\<close> leave.\<close>

lemma RenameEntry_result:
  assumes l: "links_ok db gs" and b: "buf_ok db" and ep: "ep \<in> set gs" and s: "kw_name_arg s"
    and u: "unlink_hash ep db = Some (db\<lparr>kw_itab := it, kw_hashtbl := ht\<rparr>)"
  shows "\<exists>off ext n h. kwdb_RenameEntry True db (int ep) s = Some (0, db\<lparr>
      kw_itab := it(ep := (it ep)\<lparr>it_name := off, it_nexthash := h\<rparr>),
      kw_hashtbl := (if opt_str s = [] then ht else ht(nat (hash (opt_str s)) := ep)), kw_sbuf := kw_sbuf db @ ext, kw_sbuflen := n\<rparr>)
    \<and> h = (if opt_str s = [] \<or> ht (nat (hash (opt_str s))) = 0 then it_nexthash (it ep) else ht (nat (hash (opt_str s))))
    \<and> buf_ok (db\<lparr>kw_sbuf := kw_sbuf db @ ext, kw_sbuflen := n\<rparr>)
    \<and> new_cell (kw_sbuf db @ ext) (length (kw_sbuf db)) off s"
proof -
  note range = entry_range [OF l ep]
  show ?thesis
  proof (cases "opt_str s = []")
    case True
    have "kwdb_RenameEntry True db (int ep) s = Some (0, db\<lparr>
      kw_itab := it(ep := (it ep)\<lparr>it_name := 0, it_nexthash := it_nexthash (it ep)\<rparr>),
      kw_hashtbl := ht, kw_sbuf := kw_sbuf db @ [], kw_sbuflen := kw_sbuflen db\<rparr>)"
      using range u True unfolding kwdb_RenameEntry_def opt_str_key by (auto simp: Let_def put_item_def)
    moreover have "new_cell (kw_sbuf db @ []) (length (kw_sbuf db)) 0 s"
      using True b str_at_zero by (auto simp: new_cell_def cell_ok_def opt_len_str buf_ok_def)
    ultimately show ?thesis using True b
      by (intro exI [of _ 0] exI [of _ "[]"] exI [of _ "kw_sbuflen db"] exI [of _ "it_nexthash (it ep)"]) simp
  next
    case False
    let ?h = "nat (hash (opt_str s))"
    let ?n = "if ht ?h = 0 then it_nexthash (it ep) else ht ?h"
    let ?db = "db\<lparr>kw_itab := it(ep := (it ep)\<lparr>it_nexthash := ?n\<rparr>), kw_hashtbl := ht(?h := ep)\<rparr>"
    have hh: "0 \<le> hash (opt_str s)" and ks: "kw_arg s" using s by (simp_all add: kw_name_arg_def)
    have lk: "link_hash ep (opt_str s) (db\<lparr>kw_itab := it, kw_hashtbl := ht\<rparr>) = Some ?db"
      by (simp add: link_hash_result [OF hh])
    have b': "buf_ok ?db" using b by (simp add: buf_ok_def)
    obtain off ext n where a: "addstr True ?db s = Some (off, ?db\<lparr>kw_sbuf := kw_sbuf db @ ext, kw_sbuflen := n\<rparr>)"
      and b2: "buf_ok (?db\<lparr>kw_sbuf := kw_sbuf db @ ext, kw_sbuflen := n\<rparr>)"
      and c: "cell_ok (kw_sbuf db @ ext) off (opt_len s)" "str_at (kw_sbuf db @ ext) off = opt_str s" "off = 0 \<or> length (kw_sbuf db) \<le> off"
      by (rule addstr_spec [OF b' ks]) simp
    have "kwdb_RenameEntry True db (int ep) s = Some (0, db\<lparr>
      kw_itab := it(ep := (it ep)\<lparr>it_name := off, it_nexthash := ?n\<rparr>),
      kw_hashtbl := ht(?h := ep), kw_sbuf := kw_sbuf db @ ext, kw_sbuflen := n\<rparr>)"
      using range u False lk a unfolding kwdb_RenameEntry_def opt_str_key
      by (auto simp: Let_def put_item_def opt_str_the intro!: kwdb.equality)
    moreover have "buf_ok (db\<lparr>kw_sbuf := kw_sbuf db @ ext, kw_sbuflen := n\<rparr>)" using b2 by (simp add: buf_ok_def)
    ultimately show ?thesis using False c
      by (intro exI [of _ off] exI [of _ ext] exI [of _ n] exI [of _ ?n]) (simp add: new_cell_def)
  qed
qed

text \<open>The strings and the global list after a renaming, whatever becomes of the threads.\<close>

lemma RenameEntry_strings:
  assumes l: "links_ok db gs" and st: "strings_ok db gs" and ep: "ep \<in> set gs" and s: "kw_name_arg s"
    and u: "unlink_hash ep db = Some (db\<lparr>kw_itab := it, kw_hashtbl := ht\<rparr>)"
    and s1: "\<And>g. same_strs (kw_itab db g) (it g)" and g1: "\<And>g. it_nextglob (it g) = nglob db g"
  defines "h \<equiv> nat (hash (opt_str s))"
  shows "\<exists>db'. kwdb_RenameEntry True db (int ep) s = Some (0, db') \<and> links_ok db' gs \<and> strings_ok db' gs
    \<and> (\<forall>g \<in> set gs. kw_entry db' g = (if g = ep then (kw_entry db g)(KName := opt_str s) else kw_entry db g))
    \<and> nhash db' = (\<lambda>g. it_nexthash (it g))(ep := (if opt_str s = [] \<or> ht h = 0 then it_nexthash (it ep) else ht h))
    \<and> kw_hashtbl db' = (if opt_str s = [] then ht else ht(h := ep))"
proof -
  have b: "buf_ok db" using st by (simp add: strings_ok_def)
  from RenameEntry_result [OF l b ep s u] obtain off ext n nh db' where
    r: "kwdb_RenameEntry True db (int ep) s = Some (0, db')"
    and db': "db' = db\<lparr>kw_itab := it(ep := (it ep)\<lparr>it_name := off, it_nexthash := nh\<rparr>),
      kw_hashtbl := (if opt_str s = [] then ht else ht(h := ep)), kw_sbuf := kw_sbuf db @ ext, kw_sbuflen := n\<rparr>"
    and nh: "nh = (if opt_str s = [] \<or> ht h = 0 then it_nexthash (it ep) else ht h)"
    and b2: "buf_ok (db\<lparr>kw_sbuf := kw_sbuf db @ ext, kw_sbuflen := n\<rparr>)"
    and nc: "new_cell (kw_sbuf db @ ext) (length (kw_sbuf db)) off s" unfolding h_def by blast
  have name: "kw_entry db' ep KName = opt_str s" using nc by (simp add: db' kw_entry_def new_cell_def)
  have b3: "buf_ok db'" using b2 by (simp add: db' buf_ok_def)
  have same: "same_strs ((kw_itab db g)\<lparr>it_name := 0\<rparr>) ((kw_itab db' g)\<lparr>it_name := 0\<rparr>)" for g
    using s1 [of g] by (cases "kw_itab db g"; cases "it g") (auto simp: db' same_strs_def)
  have names: "it_name (kw_itab db' g) = it_name (kw_itab db g)" if "g \<noteq> ep" for g
    using same_strs_off [OF s1, of KName g] that by (simp add: db')
  have buf: "kw_sbuf db' = kw_sbuf db @ ext" by (simp add: db')
  have cell: "cell_ok (kw_sbuf db') (it_name (kw_itab db' ep)) (length (kw_entry db' ep KName))"
    and place: "it_name (kw_itab db' ep) = 0 \<or> length (kw_sbuf db) \<le> it_name (kw_itab db' ep)"
    using nc unfolding name by (auto simp: db' new_cell_def opt_len_str)
  have e: "kw_entry db' g k' = kw_entry db g k'" if "g \<in> set gs" "(g, k') \<noteq> (ep, KName)" for g k'
    by (rule strings_ok_rename(2) [OF st ep b3 same names buf cell place that])
  have "nglob db' = nglob db" using g1 by (auto simp: db')
  then have "links_ok db' gs" using l unfolding links_ok_def by (simp add: db')
  moreover have "\<forall>g \<in> set gs. kw_entry db' g = (if g = ep then (kw_entry db g)(KName := opt_str s) else kw_entry db g)"
    using e name by (auto simp: fun_eq_iff)
  moreover have "nhash db' = (\<lambda>g. it_nexthash (it g))(ep := nh)" "kw_hashtbl db' = (if opt_str s = [] then ht else ht(h := ep))"
    by (auto simp: db')
  ultimately show ?thesis using r nh strings_ok_rename(1) [OF st ep b3 same names buf cell place] by blast
qed

lemma RenameEntry_step:
  assumes wf: "kw_wf db gs rs" and ep: "ep \<in> set gs" and s: "kw_name_arg s"
    and free: "opt_str s = [] \<or> nhash db ep = 0 \<or> (\<exists>g \<in> set rs. g \<noteq> ep \<and> hash (kw_entry db g KName) = hash (opt_str s))"
  shows "\<exists>db'. kwdb_RenameEntry True db (int ep) s = Some (0, db')
    \<and> kw_wf db' gs (if opt_str s = [] then remove1 ep rs else ep # remove1 ep rs)
    \<and> kw_view db' gs = map (\<lambda>(g, e). (g, if g = ep then e(KName := opt_str s) else e)) (kw_view db gs)"
proof -
  have l: "links_ok db gs" and t: "threads_ok db gs rs" and st: "strings_ok db gs" using wf by (simp_all add: kw_wf_def)
  have b: "buf_ok db" and pos: "ep \<noteq> 0" and hs: "0 \<le> hash (opt_str s)"
    using st entry_range [OF l ep] s by (simp_all add: strings_ok_def kw_name_arg_def)
  from unlink_hash_spec [OF t b ep] obtain it ht where
    u: "unlink_hash ep db = Some (db\<lparr>kw_itab := it, kw_hashtbl := ht\<rparr>)"
    and s1: "\<And>g. same_strs (kw_itab db g) (it g)" and g1: "\<And>g. it_nextglob (it g) = nglob db g"
    and n1: "it_nexthash (it ep) = nhash db ep"
    and c1: "\<And>h. chain (\<lambda>g. it_nexthash (it g)) (ht h) (filter (\<lambda>g. hash (kw_entry db g KName) = int h) (remove1 ep rs))"
    by blast
  let ?h = "nat (hash (opt_str s))"
  have f: "it_nexthash (it ep) = 0" if "ht ?h = 0" "opt_str s \<noteq> []"
    using that free c1 [of ?h] hs n1 t by (auto simp: filter_empty_conv threads_ok_def)
  from RenameEntry_strings [OF l st ep s u s1 g1] obtain db' where
    r: "kwdb_RenameEntry True db (int ep) s = Some (0, db')" and l': "links_ok db' gs" and st': "strings_ok db' gs"
    and e: "\<forall>g \<in> set gs. kw_entry db' g = (if g = ep then (kw_entry db g)(KName := opt_str s) else kw_entry db g)"
    and n: "nhash db' = (\<lambda>g. it_nexthash (it g))(ep := (if opt_str s = [] \<or> ht ?h = 0 then it_nexthash (it ep) else ht ?h))"
    and h: "kw_hashtbl db' = (if opt_str s = [] then ht else ht(?h := ep))" by blast
  have "nhash db' = (if opt_str s = [] then \<lambda>g. it_nexthash (it g) else (\<lambda>g. it_nexthash (it g))(ep := ht ?h))"
    using n f by auto
  then have "threads_ok db' gs (if opt_str s = [] then remove1 ep rs else ep # remove1 ep rs)"
    by (rule threads_ok_rename [OF t ep pos c1 _ h]) (use e ep hs in auto)
  moreover have "kw_view db' gs = map (\<lambda>(g, e). (g, if g = ep then e(KName := opt_str s) else e)) (kw_view db gs)"
    using e by (auto simp: kw_view_def)
  ultimately show ?thesis using r l' st' by (auto simp: kw_wf_def)
qed

end
