(* ===== verification/KwdbSpec.thy ===== *)
theory KwdbSpec
  imports KwdbInv
begin

section \<open>What the operations of the keyword database promise\<close>

text \<open>
  The properties of the keyword database, each with an instance on a small header, and the
  renaming that makes a thread cyclic.
\<close>

abbreviation kw_matches :: "kwdb \<Rightarrow> nat list \<Rightarrow> string \<Rightarrow> nat list" where
  "kw_matches db rs kw \<equiv> filter (\<lambda>g. streq (kw_entry db g KName) kw) rs"

lemma streq_refl [simp]: "streq s s"
  by (simp add: streq_iff)

text \<open>C5.  Adding an entry to a well-formed database appends exactly that entry to the list the
  database stands for and makes it the most recent one of its keyword: looking the keyword up
  returns it and its value.  Every argument may be null, which counts as the empty string.\<close>

theorem kwdb_AddEntry_appends:
  assumes "kw_wf db gs rs" "kw_name_arg keyword" "kw_arg value" "kw_arg ty" "kw_arg comment"
  shows "\<exists>i db'. kwdb_AddEntry True db keyword value ty comment = Some (int i, db') \<and> i \<notin> set gs
    \<and> kw_wf db' (gs @ [i]) (if opt_str keyword = [] then rs else i # rs)
    \<and> kw_view db' (gs @ [i]) = kw_view db gs @ [(i, kw_args keyword value ty comment)]
    \<and> kwdb_Len db' = kwdb_Len db + 1
    \<and> (opt_str keyword \<noteq> [] \<longrightarrow> kwdb_Lookup db' (opt_str keyword) 0 = Some i
         \<and> kwdb_GetValue db' (opt_str keyword) = Some (Some (opt_str value)))"
proof -
  obtain i db' where a: "kwdb_AddEntry True db keyword value ty comment = Some (int i, db')" "i = kw_itemsused db"
    and wf: "kw_wf db' (gs @ [i]) (if opt_str keyword = [] then rs else i # rs)"
    and v: "kw_view db' (gs @ [i]) = kw_view db gs @ [(i, kw_args keyword value ty comment)]"
    using AddEntry_step [OF assms] by blast
  have "kw_entry db' i = kw_args keyword value ty comment" using v by (simp add: kw_view_def)
  then have m: "kw_matches db' (i # rs) (opt_str keyword) = i # kw_matches db' rs (opt_str keyword)"
    and ev: "kw_entry db' i KValue = opt_str value" by simp_all
  have t: "threads_ok db' (gs @ [i]) (i # rs)" "kw_wf db' (gs @ [i]) (i # rs)" if "opt_str keyword \<noteq> []" using wf that by (simp_all add: kw_wf_def)
  have h: "0 \<le> hash (opt_str keyword)" using assms(2) by (simp add: kw_name_arg_def)
  have "i \<notin> set gs" using assms(1) links_ok_facts(3) a(2) by (auto simp: kw_wf_def)
  moreover have "kwdb_Len db' = kwdb_Len db + 1" using assms(1) wf by (auto simp: kw_wf_def links_ok_def kwdb_Len_def)
  moreover have "kwdb_Lookup db' (opt_str keyword) 0 = Some i" if "opt_str keyword \<noteq> []"
    using lookup_first [OF t(1) [OF that] h] unfolding m by simp
  moreover have "kwdb_GetValue db' (opt_str keyword) = Some (Some (opt_str value))" if "opt_str keyword \<noteq> []"
    using kv.getter_result [OF t(2) [OF that] h] ev unfolding m by simp
  ultimately show ?thesis using a(1) wf v by blast
qed

text \<open>C18.  A look-up returns the entry of the given instance among those whose keyword equals
  the argument up to case, instance 0 being the most recently entered or renamed one; it returns
  0 when there are not that many.\<close>

theorem kwdb_Lookup_instance:
  assumes "kw_wf db gs rs" "0 \<le> hash keyword"
  shows "kwdb_Lookup db keyword inst =
    Some (if 0 \<le> inst \<and> inst < int (length (kw_matches db rs keyword)) then kw_matches db rs keyword ! nat inst else 0)"
  using lookup_result [of db gs rs keyword inst] assms by (simp add: kw_wf_def Let_def)

text \<open>C16.  Setting the value of a keyword changes the value of its most recent entry and nothing
  else of the database's list, whether the new value fits the room of the old one or not, and
  the value is what is read back; a keyword that is not there gives \<open>-1\<close> and no change.\<close>

theorem kwdb_SetValue_updates:
  assumes "kw_wf db gs rs" "0 \<le> hash keyword" "NUL \<notin> set v" "length v < DEF_SZSBUF"
  shows "case kw_matches db rs keyword of
      [] \<Rightarrow> kwdb_SetValue True db keyword v = Some (-1, db)
    | ep # _ \<Rightarrow> \<exists>db'. kwdb_SetValue True db keyword v = Some (0, db') \<and> kw_wf db' gs rs
        \<and> kw_view db' gs = map (\<lambda>(g, e). (g, if g = ep then e(KValue := v) else e)) (kw_view db gs)
        \<and> kwdb_GetValue db' keyword = Some (Some v)"
proof (cases "kw_matches db rs keyword")
  case Nil
  then show ?thesis using kv.setter_step [OF assms] by simp
next
  case (Cons ep eps)
  then obtain db' where s: "kwdb_SetValue True db keyword v = Some (0, db')" "kw_wf db' gs rs"
    and v: "kw_view db' gs = map (\<lambda>(g, e). (g, if g = ep then e(KValue := v) else e)) (kw_view db gs)"
    using kv.setter_step [OF assms] by auto
  have e: "kw_entry db' g = (if g = ep then (kw_entry db g)(KValue := v) else kw_entry db g)" if "g \<in> set gs" for g
    using v that by (simp add: kw_view_def)
  have rs: "set rs \<subseteq> set gs" using assms(1) by (auto simp: kw_wf_def threads_ok_def)
  have "kw_entry db' g KName = kw_entry db g KName" if "g \<in> set rs" for g using e [of g] that rs by auto
  then have "kw_matches db' rs keyword = kw_matches db rs keyword" by (intro filter_cong) auto
  moreover have "ep \<in> set gs" using Cons rs by (metis filter_is_subset list.set_intros(1) subset_code(1))
  ultimately have "kwdb_GetValue db' keyword = Some (Some v)" using kv.getter_result [OF s(2) assms(2)] Cons e by simp
  then show ?thesis using Cons s v by simp
qed

text \<open>The comment and the type are set in the same way.\<close>

theorem kwdb_SetComment_updates:
  assumes "kw_wf db gs rs" "0 \<le> hash keyword" "NUL \<notin> set v" "length v < DEF_SZSBUF" "kw_matches db rs keyword = ep # eps"
  shows "\<exists>db'. kwdb_SetComment True db keyword v = Some (0, db') \<and> kw_wf db' gs rs
    \<and> kw_view db' gs = map (\<lambda>(g, e). (g, if g = ep then e(KComment := v) else e)) (kw_view db gs)"
  using kc.setter_step [OF assms(1-4)] assms(5) by auto

theorem kwdb_SetType_updates:
  assumes "kw_wf db gs rs" "0 \<le> hash keyword" "NUL \<notin> set v" "length v < DEF_SZSBUF" "kw_matches db rs keyword = ep # eps"
  shows "\<exists>db'. kwdb_SetType True db keyword v = Some (0, db') \<and> kw_wf db' gs rs
    \<and> kw_view db' gs = map (\<lambda>(g, e). (g, if g = ep then e(KType := v) else e)) (kw_view db gs)"
  using kt.setter_step [OF assms(1-4)] assms(5) by auto

text \<open>C13.  Deleting an entry takes exactly that entry out of the list and out of its thread, and
  the other entries keep their strings, order and entry pointers; an entry pointer outside the
  range of the list is refused.\<close>

theorem kwdb_DeleteEntry_removes:
  assumes "kw_wf db gs rs"
  shows "(\<forall>ep \<in> set gs. \<exists>db'. kwdb_DeleteEntry db (int ep) = Some (0, db') \<and> kw_wf db' (remove1 ep gs) (remove1 ep rs)
      \<and> kw_view db' (remove1 ep gs) = filter (\<lambda>(g, e). g \<noteq> ep) (kw_view db gs))
    \<and> (\<forall>e. e \<le> 0 \<or> int (last (0 # gs)) < e \<longrightarrow> kwdb_DeleteEntry db e = Some (-1, db))"
  using DeleteEntry_step [OF assms] assms by (auto simp: kwdb_DeleteEntry_def kw_wf_def links_ok_def)

text \<open>C37.  Renaming an entry changes its name only and makes it the most recent entry of the new
  keyword, provided that it is the last of its old thread or that the new thread is not empty.\<close>

theorem kwdb_RenameEntry_moves:
  assumes "kw_wf db gs rs" "ep \<in> set gs" "kw_name_arg newname"
    and "opt_str newname = [] \<or> it_nexthash (kw_itab db ep) = 0
      \<or> (\<exists>g \<in> set rs. g \<noteq> ep \<and> hash (kw_entry db g KName) = hash (opt_str newname))"
  shows "\<exists>db'. kwdb_RenameEntry True db (int ep) newname = Some (0, db')
    \<and> kw_wf db' gs (if opt_str newname = [] then remove1 ep rs else ep # remove1 ep rs)
    \<and> kw_view db' gs = map (\<lambda>(g, e). (g, if g = ep then e(KName := opt_str newname) else e)) (kw_view db gs)"
  by (rule RenameEntry_step [OF assms])

subsection \<open>Instances on a small header\<close>

definition kw_hdr0 :: kwdb where
  "kw_hdr0 = the (the (kwdb_Open True ''hdr''))"

definition kw_hdr1 :: kwdb where
  "kw_hdr1 = snd (the (kwdb_AddEntry True kw_hdr0 (Some ''EXPTIME'') (Some ''10'') (Some ''N'') (Some ''seconds'')))"

definition kw_hdr2 :: kwdb where
  "kw_hdr2 = snd (the (kwdb_AddEntry True kw_hdr1 (Some ''OBJECT'') (Some ''dome'') (Some ''S'') None))"

lemma kw_hdr0_wf: "kw_wf kw_hdr0 [] [] \<and> kw_itemsused kw_hdr0 = 1"
proof -
  have "length ''hdr'' + 2 \<le> DEF_SZSBUF" by (simp add: DEF_SZSBUF_def)
  from kwdb_Open_wf [OF this] show ?thesis by (auto simp: kw_hdr0_def kwdb_Open_def split: if_splits)
qed

lemma ascii_name_arg: "c_code (hd t) < 128 \<Longrightarrow> t \<noteq> [] \<Longrightarrow> kw_arg (Some t) \<Longrightarrow> kw_name_arg (Some t)"
  by (simp add: kw_name_arg_def opt_str_def hash_nonneg)

lemma sample_args:
  "kw_name_arg (Some ''EXPTIME'')" "kw_name_arg (Some ''OBJECT'')" "kw_name_arg (Some ''EXPOSED'')" "kw_name_arg None"
  "kw_arg (Some ''10'')" "kw_arg (Some ''N'')" "kw_arg (Some ''seconds'')" "kw_arg (Some ''dome'')" "kw_arg (Some ''S'')" "kw_arg None"
  by (simp_all add: kw_arg_def kw_name_arg_def NUL_def DEF_SZSBUF_def opt_str_def hash_nonneg c_code_def)

lemma itemsused_added: "kw_wf db gs rs \<Longrightarrow> kw_name_arg a \<Longrightarrow> kw_arg b \<Longrightarrow> kw_arg c \<Longrightarrow> kw_arg d \<Longrightarrow>
    kw_itemsused (snd (the (kwdb_AddEntry True db a b c d))) = Suc (kw_itemsused db)"
  using AddEntry_result [of db gs a b c d] by (auto simp: kw_wf_def added_def Let_def)

lemma kw_hdr1_wf:
  "kw_wf kw_hdr1 [1] [1] \<and> kw_view kw_hdr1 [1] = [(1, kw_args (Some ''EXPTIME'') (Some ''10'') (Some ''N'') (Some ''seconds''))]
    \<and> kw_itemsused kw_hdr1 = 2"
  using AddEntry_step [OF _ sample_args(1,5,6,7), of kw_hdr0 "[]" "[]"] kw_hdr0_wf
    itemsused_added [OF _ sample_args(1,5,6,7), of kw_hdr0 "[]" "[]"]
  by (auto simp: kw_hdr1_def opt_str_def kw_view_def)

lemma kw_hdr2_wf:
  "kw_wf kw_hdr2 [1, 2] [2, 1] \<and> kw_view kw_hdr2 [1, 2] =
    [(1, kw_args (Some ''EXPTIME'') (Some ''10'') (Some ''N'') (Some ''seconds'')), (2, kw_args (Some ''OBJECT'') (Some ''dome'') (Some ''S'') None)]"
  using AddEntry_step [OF _ sample_args(2,8,9,10), of kw_hdr1 "[1]" "[1]"] kw_hdr1_wf
  by (auto simp: kw_hdr2_def opt_str_def)

lemma kw_hdr2_matches:
  "kw_matches kw_hdr2 [2, 1] ''exptime'' = [1]" "kw_entry kw_hdr2 1 KName = ''EXPTIME''" "kw_entry kw_hdr2 2 KName = ''OBJECT''"
proof -
  show n: "kw_entry kw_hdr2 1 KName = ''EXPTIME''" "kw_entry kw_hdr2 2 KName = ''OBJECT''"
    using kw_hdr2_wf by (auto simp: kw_view_def opt_str_def)
  show "kw_matches kw_hdr2 [2, 1] ''exptime'' = [1]"
    unfolding filter.simps n streq_iff by (simp add: c_tolower_def c_isupper_def c_code_def char_of_def bit_0)
qed

theorem kwdb_AddEntry_appends_witness:
  "\<exists>i db'. kwdb_AddEntry True kw_hdr1 (Some ''OBJECT'') (Some ''dome'') (Some ''S'') None = Some (int i, db') \<and> i \<notin> set [1]
    \<and> kwdb_GetValue db' ''OBJECT'' = Some (Some ''dome'')"
  using kwdb_AddEntry_appends [OF _ sample_args(2,8,9,10), of kw_hdr1 "[1]" "[1]"] kw_hdr1_wf by (auto simp: opt_str_def)

lemma hash_exptime: "0 \<le> hash ''exptime''"
  by (simp add: hash_nonneg c_code_def)

theorem kwdb_Lookup_instance_witness:
  "kwdb_Lookup kw_hdr2 ''exptime'' 0 = Some 1 \<and> kwdb_Lookup kw_hdr2 ''exptime'' 1 = Some 0"
  using kwdb_Lookup_instance [OF conjunct1 [OF kw_hdr2_wf] hash_exptime] unfolding kw_hdr2_matches by simp

theorem kwdb_SetValue_updates_witness:
  "\<exists>db'. kwdb_SetValue True kw_hdr2 ''exptime'' ''12.5'' = Some (0, db') \<and> kwdb_GetValue db' ''exptime'' = Some (Some ''12.5'')"
  using kwdb_SetValue_updates [OF conjunct1 [OF kw_hdr2_wf] hash_exptime, of "''12.5''"]
  unfolding kw_hdr2_matches by (auto simp: NUL_def DEF_SZSBUF_def)

theorem kwdb_DeleteEntry_removes_witness:
  "(\<exists>db'. kwdb_DeleteEntry kw_hdr2 1 = Some (0, db') \<and> kw_wf db' [2] [2]) \<and> kwdb_DeleteEntry kw_hdr2 3 = Some (-1, kw_hdr2)"
  using kwdb_DeleteEntry_removes [OF conjunct1 [OF kw_hdr2_wf]] by (auto dest!: spec [of _ "3"])

theorem kwdb_RenameEntry_moves_witness:
  "\<exists>db'. kwdb_RenameEntry True kw_hdr2 2 (Some ''EXPOSED'') = Some (0, db') \<and> kw_wf db' [1, 2] [2, 1]"
proof -
  have "hash (kw_entry kw_hdr2 1 KName) = hash ''EXPOSED''" unfolding kw_hdr2_matches by (simp add: hash_first)
  then show ?thesis
    using kwdb_RenameEntry_moves [OF conjunct1 [OF kw_hdr2_wf] _ sample_args(3), of 2] by (auto simp: opt_str_def)
qed

subsection \<open>A renaming that makes a thread cyclic\<close>

lemma lookup_walk_cycle:
  assumes n: "nhash db p = q" "nhash db q = p" and nz: "p \<noteq> 0" "q \<noteq> 0"
    and m: "\<not> streq (kw_entry db p KName) kw" "\<not> streq (kw_entry db q KName) kw"
  shows "lookup_walk db kw inst p j = None" "lookup_walk db kw inst q j = None"
proof -
  let ?P = "\<lambda>d k n i j r. d = db \<longrightarrow> k = kw \<longrightarrow> (i = p \<or> i = q) \<longrightarrow> False"
  have no: False if r: "lookup_walk db kw inst i j = Some r" and i: "i = p \<or> i = q" for i j r
  proof -
    have "?P db kw inst i j r"
    proof (rule lookup_walk.raw_induct [where P = ?P, OF _ r], intro impI)
      fix walk d k n i j r
      assume IH: "\<And>d k n i j r. walk d k n i j = Some r \<Longrightarrow> ?P d k n i j r"
        and body: "(if i = 0 then Some 0
           else if streq (kw_str d (it_name (kw_itab d i))) k then
             (if n = j then Some i else walk d k n (it_nexthash (kw_itab d i)) (j + 1))
           else walk d k n (it_nexthash (kw_itab d i)) j) = Some r"
        and eq: "d = db" "k = kw" "i = p \<or> i = q"
      have "walk db kw n (nhash db i) j = Some r" using body eq m nz by (auto simp: kw_entry_def)
      moreover have "nhash db i = p \<or> nhash db i = q" using eq n by metis
      ultimately show False using IH by blast
    qed
    then show False using i by blast
  qed
  show "lookup_walk db kw inst p j = None" using no by (cases "lookup_walk db kw inst p j") auto
  show "lookup_walk db kw inst q j = None" using no by (cases "lookup_walk db kw inst q j") auto
qed

lemma opt_str_Some [simp]: "opt_str (Some t) = t"
  by (simp add: opt_str_def)

lemma unlink_hash_head:
  assumes "buf_ok db" "kw_entry db ep KName \<noteq> []" "0 \<le> hash (kw_entry db ep KName)" "kw_hashtbl db (nat (hash (kw_entry db ep KName))) = ep"
  shows "unlink_hash ep db = Some (db\<lparr>kw_itab := kw_itab db,
    kw_hashtbl := (kw_hashtbl db)(nat (hash (kw_entry db ep KName)) := nhash db ep)\<rparr>)"
proof -
  have "it_name (kw_itab db ep) \<noteq> 0"
    using assms(1,2) str_at_zero [of "kw_sbuf db"] unfolding kw_entry_def buf_ok_def by (metis fld_off.simps(1))
  then show ?thesis using assms(2-4) by (simp add: unlink_hash_def kw_entry_def Let_def)
qed

text \<open>When the two entries of a thread are renamed, most recent first, to keywords of one
  thread that was empty, the first renaming keeps its link to the second entry and the second
  renaming links back: from then on the look-up of any other keyword of that thread does not
  return.\<close>

theorem kwdb_RenameEntry_cycle:
  assumes wf: "kw_wf db gs rs" and th: "filter (\<lambda>g. hash (kw_entry db g KName) = hash (kw_entry db p KName)) rs = [p, q]"
    and a: "kw_name_arg (Some a)" "kw_name_arg (Some b)" "a \<noteq> []" "b \<noteq> []" "hash a = hash b"
    and new: "\<forall>g \<in> set rs. hash (kw_entry db g KName) \<noteq> hash a"
  shows "\<exists>db1 db2. kwdb_RenameEntry True db (int p) (Some a) = Some (0, db1)
    \<and> kwdb_RenameEntry True db1 (int q) (Some b) = Some (0, db2)
    \<and> (\<forall>kw inst. hash kw = hash a \<and> \<not> streq a kw \<and> \<not> streq b kw \<longrightarrow> kwdb_Lookup db2 kw inst = None)"
proof -
  have l: "links_ok db gs" and t: "threads_ok db gs rs" and st: "strings_ok db gs" using wf by (simp_all add: kw_wf_def)
  have b: "buf_ok db" using st by (simp add: strings_ok_def)
  let ?h = "nat (hash (kw_entry db p KName))" and ?h2 = "nat (hash a)"
  have "p \<in> set [p, q]" "q \<in> set [p, q]" by simp_all
  then have pq: "p \<in> set rs" "q \<in> set rs" "hash (kw_entry db q KName) = hash (kw_entry db p KName)"
    unfolding th [symmetric] by auto
  then have gs: "p \<in> set gs" "q \<in> set gs" "kw_entry db p KName \<noteq> []" "kw_entry db q KName \<noteq> []" "0 \<le> hash (kw_entry db p KName)"
    using t by (auto simp: threads_ok_def)
  have ne: "p \<noteq> q" using th t by (metis (mono_tags, lifting) distinct_filter distinct_length_2_or_more threads_ok_def)
  have pos: "p \<noteq> 0" "q \<noteq> 0" using gs links_ok_facts(2) [OF l] by metis+
  have ha: "0 \<le> hash a" using a(1) by (simp add: kw_name_arg_def opt_str_def)
  have hh: "?h \<noteq> ?h2" using new pq(1) gs(5) ha by (metis int_nat_eq)
  have c: "chain (nhash db) (kw_hashtbl db h) (filter (\<lambda>g. hash (kw_entry db g KName) = int h) rs)" for h
    using t by (simp add: threads_ok_def)
  have head: "kw_hashtbl db ?h = p" "nhash db p = q" "nhash db q = 0" using c [of ?h] th gs(5) by auto
  have empty: "kw_hashtbl db ?h2 = 0" using c [of ?h2] new ha by (simp add: filter_empty_conv [THEN iffD2])
  note u1 = unlink_hash_head [OF b gs(3,5) head(1)]
  from RenameEntry_strings [OF l st gs(1) a(1) u1] obtain db1 where
    r1: "kwdb_RenameEntry True db (int p) (Some a) = Some (0, db1)" and l1: "links_ok db1 gs" and s1: "strings_ok db1 gs"
    and e1: "\<forall>g \<in> set gs. kw_entry db1 g = (if g = p then (kw_entry db g)(KName := a) else kw_entry db g)"
    and n: "nhash db1 = (nhash db)(p := nhash db p)" and t1: "kw_hashtbl db1 = (kw_hashtbl db)(?h := q, ?h2 := p)"
    using head empty hh a(3) by (auto cong: if_cong)
  have n1: "nhash db1 g = nhash db g" for g using fun_cong [OF n, of g] by simp
  have b1: "buf_ok db1" using s1 by (simp add: strings_ok_def)
  have q1: "kw_entry db1 q KName = kw_entry db q KName" using e1 gs(2) ne by simp
  have "unlink_hash q db1 = Some (db1\<lparr>kw_itab := kw_itab db1, kw_hashtbl := (kw_hashtbl db1)(?h := 0)\<rparr>)"
    using unlink_hash_head [OF b1, of q] q1 gs pq(3) t1 hh n1 head(3) by (simp add: fun_eq_iff)
  from RenameEntry_strings [OF l1 s1 gs(2) a(2) this] obtain db2 where
    r2: "kwdb_RenameEntry True db1 (int q) (Some b) = Some (0, db2)"
    and e2: "\<forall>g \<in> set gs. kw_entry db2 g = (if g = q then (kw_entry db1 g)(KName := b) else kw_entry db1 g)"
    and n2: "nhash db2 = (nhash db)(q := p)" and t2: "kw_hashtbl db2 ?h2 = q"
    using n1 t1 hh pos a(4,5) by (auto cong: if_cong)
  have names: "kw_entry db2 p KName = a" "kw_entry db2 q KName = b" using e1 e2 gs ne by auto
  have links: "nhash db2 p = q" "nhash db2 q = p" using fun_cong [OF n2, of p] fun_cong [OF n2, of q] head(2) ne by simp_all
  have "kwdb_Lookup db2 kw inst = None" if "hash kw = hash a" "\<not> streq a kw" "\<not> streq b kw" for kw inst
    using lookup_walk_cycle(2) [OF links pos] that names t2 by (simp add: kwdb_Lookup_def)
  then show ?thesis using r1 r2 by blast
qed

theorem kwdb_RenameEntry_cycle_witness:
  "\<exists>db0 db1 db2. kwdb_RenameEntry True db0 2 (Some ''BX'') = Some (0, db1) \<and> kwdb_RenameEntry True db1 1 (Some ''BY'') = Some (0, db2)
    \<and> kw_wf db0 [1, 2] [2, 1] \<and> kwdb_Lookup db2 ''BZ'' 0 = None"
proof -
  have args: "kw_name_arg (Some ''EXPOSED'')" "kw_arg None" "kw_name_arg (Some ''BX'')" "kw_name_arg (Some ''BY'')"
    by (simp_all add: kw_arg_def kw_name_arg_def NUL_def DEF_SZSBUF_def hash_nonneg c_code_def)
  obtain db0 where wf: "kw_wf db0 [1, 2] [2, 1]" and v: "kw_view db0 [1, 2] = kw_view kw_hdr1 [1] @ [(2, kw_args (Some ''EXPOSED'') None None None)]"
    using AddEntry_step [OF _ args(1,2,2,2), of kw_hdr1 "[1]" "[1]"] kw_hdr1_wf by auto
  have n: "kw_entry db0 2 KName = ''EXPOSED''" "kw_entry db0 1 KName = ''EXPTIME''"
    using v conjunct1 [OF conjunct2 [OF kw_hdr1_wf]] by (auto simp: kw_view_def)
  have th: "filter (\<lambda>g. hash (kw_entry db0 g KName) = hash (kw_entry db0 2 KName)) [2, 1] = [2, 1]"
    unfolding filter.simps n by (simp add: hash_first)
  have new: "\<forall>g \<in> set [2, 1]. hash (kw_entry db0 g KName) \<noteq> hash ''BX''"
    unfolding list.set ball_simps n
    by (simp add: n hash_first c_rem_def schar_def c_tolower_def c_isupper_def c_code_def)
  have "hash ''BX'' = hash ''BY''" "hash ''BZ'' = hash ''BX''" by (simp_all add: hash_first)
  moreover have "\<not> streq ''BX'' ''BZ''" "\<not> streq ''BY'' ''BZ''"
    by (simp_all add: c_tolower_def c_isupper_def c_code_def char_of_def bit_0)
  ultimately show ?thesis
    using kwdb_RenameEntry_cycle [OF wf th args(3,4) _ _ _ new] wf by fastforce
qed

end
