(* ===== verification/KwdbFits.thy ===== *)
theory KwdbFits
  imports KwdbSpec
begin

section \<open>FITS headers (kwdb_ReadFITS, kwdb_WriteFITS)\<close>

text \<open>
  A header file is a list of characters, read 80 at a time; a shorter read ends the header.
  The local arrays of \<open>kwdb_ReadFITS\<close> live across the cards of one call, and \<open>comment\<close> is
  only set by cards with a value field, so its contents are an argument of the loop; \<open>com0\<close>
  is what it holds before the first such crd.  In \<open>kwdb_WriteFITS\<close> the argument \<open>wok\<close> tells
  whether a crd can be written; \<open>crd[256]\<close> is a list whose first 80 characters are the crd.
\<close>

definition cstr :: "string \<Rightarrow> string" where
  "cstr s = takeWhile (\<lambda>c. c \<noteq> NUL) s"

abbreviation blank :: char where
  "blank \<equiv> CHR '' ''"

subsection \<open>Reading a crd\<close>

text \<open>The string from \<open>op\<close> to \<open>lop\<close>: trailing blanks are dropped.\<close>

definition rtrim :: "string \<Rightarrow> string" where
  "rtrim s = rev (dropWhile (\<lambda>c. c = blank) (rev s))"

definition keyword_field :: "string \<Rightarrow> string" where
  "keyword_field crd =
     (if list_all c_isprint (take 8 crd) then takeWhile (\<lambda>c. c \<noteq> blank) (take 8 crd) else ''END     '')"

text \<open>\<open>for (ip=\<dots>, n=21; --n >= 0 && isspace(*ip); ) ip++;\<close>\<close>

fun skip_space :: "nat \<Rightarrow> string \<Rightarrow> string" where
  "skip_space 0 ip = ip"
| "skip_space (Suc n) [] = []"
| "skip_space (Suc n) (c # ip) = (if c_isspace c then skip_space n ip else c # ip)"

text \<open>The value field and what follows it; whether it is a string.\<close>

definition value_field :: "string \<Rightarrow> bool \<times> string \<times> string" where
  "value_field crd =
     (let ip = skip_space 21 (drop 9 crd) in
      case ip of
        [] \<Rightarrow> (False, [], [])
      | c # cs \<Rightarrow>
          if c = CHR 0x27 then
            (True, takeWhile (\<lambda>c. c \<noteq> CHR 0x27) cs, tl (dropWhile (\<lambda>c. c \<noteq> CHR 0x27) cs))
          else (False, takeWhile (\<lambda>c. c \<noteq> blank \<and> c \<noteq> CHR ''/'') ip, dropWhile (\<lambda>c. c \<noteq> blank \<and> c \<noteq> CHR ''/'') ip))"

definition comment_field :: "string \<Rightarrow> string" where
  "comment_field ip =
     rtrim (takeWhile (\<lambda>c. c \<noteq> CHR 0x0A) (dropWhile (\<lambda>c. c = CHR ''/'' \<or> c = blank) ip))"

text \<open>Keyword, value, type and comment of a card; \<open>old\<close> is the comment of the cards before.\<close>

definition parse_card :: "string \<Rightarrow> string \<Rightarrow> string \<times> string \<times> string \<times> string" where
  "parse_card old crd =
     (let keyword = keyword_field crd;
          iscomment = streq keyword ''COMMENT'';
          ishistory = streq keyword ''HISTORY''
      in if \<not> iscomment \<and> \<not> ishistory \<and> crd ! 8 = CHR ''='' then
           (case value_field crd of
              (isstring, value, rest) \<Rightarrow>
                (keyword, value,
                 if isstring then ''S'' else if streq (cstr value) ''T'' \<or> streq (cstr value) ''F'' then ''L'' else ''N'',
                 comment_field rest))
         else (keyword, rtrim (takeWhile (\<lambda>c. c \<noteq> CHR 0x0A) (drop 8 crd)),
               if iscomment then ''C'' else if ishistory then ''H'' else ''T'', old))"

subsection \<open>Reading a header\<close>

text \<open>The number of cards, or \<open>None\<close> for the return of \<open>-1\<close>.\<close>

function read_cards :: "bool \<Rightarrow> int \<Rightarrow> int \<Rightarrow> string \<Rightarrow> kwdb \<Rightarrow> string \<Rightarrow> (int option \<times> kwdb) option" where
  "read_cards ra maxcards ncards comment db file =
     (if (maxcards = 0 \<or> ncards < maxcards) \<and> 80 \<le> length file then
        (let crd = take 80 file in
         if streq (keyword_field crd) ''END'' then Some (Some ncards, db)
         else case parse_card comment crd of
           (keyword, value, ty, comment') \<Rightarrow>
             (case kwdb_AddEntry ra db (Some (cstr keyword)) (Some (cstr value)) (Some ty) (Some (cstr comment')) of
                None \<Rightarrow> None
              | Some (r, db') \<Rightarrow>
                  if r < 0 then Some (None, db')
                  else read_cards ra maxcards (ncards + 1) comment' db' (drop 80 file)))
      else Some (Some ncards, db))"
  by pat_completeness auto
termination
  by (relation "measure (\<lambda>(ra, maxcards, ncards, comment, db, file). length file)") auto

declare read_cards.simps [simp del]

text \<open>The loop that trims blank lines at the end; the number of lines trimmed.\<close>

partial_function (option) trim_loop :: "kwdb \<Rightarrow> int \<Rightarrow> (int \<times> kwdb) option" where
  "trim_loop db nb =
     (let ep = int (kwdb_Tail db) in
      if 0 < ep then
        (case kwdb_GetEntry db ep of
           (Some (keyword, value, ty, comment), r) \<Rightarrow>
             if 0 \<le> r then
               (if char0 ty = CHR ''T'' \<and> value = [] then
                  (case kwdb_DeleteEntry db ep of None \<Rightarrow> None | Some (_, db') \<Rightarrow> trim_loop db' (nb + 1))
                else Some (nb, db))
             else trim_loop db (nb + 1)
         | (None, r) \<Rightarrow> trim_loop db (nb + 1))
      else Some (nb, db))"

text \<open>The function value, \<open>nblank\<close> when it is set, and the database.\<close>

definition kwdb_ReadFITS :: "bool \<Rightarrow> kwdb \<Rightarrow> string \<Rightarrow> int \<Rightarrow> string \<Rightarrow> (int \<times> int option \<times> kwdb) option" where
  "kwdb_ReadFITS ra db file maxcards com0 =
     (case read_cards ra maxcards 0 com0 db file of
        None \<Rightarrow> None
      | Some (None, db1) \<Rightarrow> Some (-1, None, db1)
      | Some (Some ncards, db1) \<Rightarrow>
          (case trim_loop db1 0 of None \<Rightarrow> None | Some (nb, db2) \<Rightarrow> Some (ncards, Some nb, db2)))"

text \<open>The outer \<open>None\<close> is a fault, the inner one the null pointer; the file is \<open>None\<close> when it
  cannot be opened.\<close>

definition kwdb_OpenFITS :: "bool \<Rightarrow> bool \<Rightarrow> string \<Rightarrow> string option \<Rightarrow> int \<Rightarrow> string \<Rightarrow> (kwdb \<times> int option) option option" where
  "kwdb_OpenFITS ok ra filename file maxcards com0 =
     (case file of
        None \<Rightarrow> Some None
      | Some bytes \<Rightarrow>
          (case kwdb_Open ok filename of
             None \<Rightarrow> None
           | Some None \<Rightarrow> Some None
           | Some (Some db) \<Rightarrow>
               (case kwdb_ReadFITS ra db bytes maxcards com0 of
                  None \<Rightarrow> None
                | Some (r, nblank, db') \<Rightarrow> Some (if r < 0 then None else Some (db', nblank)))))"

subsection \<open>Writing a header\<close>

text \<open>\<open>for (ip=s; *ip && op < card+80; ) { ch = *ip++; if (isprint (ch)) *op++ = ch; }\<close>\<close>

fun put_print :: "string \<Rightarrow> nat \<Rightarrow> string \<Rightarrow> string \<times> nat" where
  "put_print crd op [] = (crd, op)"
| "put_print crd op (ch # ip) =
     (if op < 80 then (if c_isprint ch then put_print (crd[op := ch]) (Suc op) ip else put_print crd op ip)
      else (crd, op))"

text \<open>The same without the test of the character, and the keyword field.\<close>

fun put_raw :: "string \<Rightarrow> nat \<Rightarrow> string \<Rightarrow> string" where
  "put_raw crd op [] = crd"
| "put_raw crd op (ch # ip) = (if op < 80 then put_raw (crd[op := ch]) (Suc op) ip else crd)"

fun put_keyword :: "string \<Rightarrow> nat \<Rightarrow> nat \<Rightarrow> string \<Rightarrow> string" where
  "put_keyword crd op n [] = crd"
| "put_keyword crd op 0 (ch # ip) = crd"
| "put_keyword crd op (Suc n) (ch # ip) =
     (if c_isprint ch then put_keyword (crd[op := ch]) (Suc op) n ip else put_keyword crd op n ip)"

definition put_value :: "string \<Rightarrow> char \<Rightarrow> string \<Rightarrow> string \<times> nat" where
  "put_value crd ty value =
     (if ty = CHR ''S'' then
        (case put_print (crd[10 := CHR 0x27]) 11 value of
           (crd1, op) \<Rightarrow> let op1 = max op 19 in (crd1[op1 := CHR 0x27], max (Suc op1) 30))
      else put_print crd (10 + (20 - length value)) value)"

definition put_comment :: "string \<Rightarrow> nat \<Rightarrow> string \<Rightarrow> string" where
  "put_comment crd op comment =
     (if comment \<noteq> [] \<and> op < 80 then fst (put_print (crd[op + 1 := CHR ''/'']) (op + 3) comment) else crd)"

definition format_card :: "string \<Rightarrow> string \<Rightarrow> string \<Rightarrow> string \<Rightarrow> string" where
  "format_card keyword value ty comment =
     (let crd = put_keyword (replicate 256 blank) 0 8 keyword in
      take 80
        (if char0 ty \<in> {CHR ''S'', CHR ''N'', CHR ''L''} then
           (case put_value (crd[8 := CHR ''='']) (char0 ty) value of (crd1, op) \<Rightarrow> put_comment crd1 op comment)
         else put_raw crd 8 value))"

partial_function (option) write_walk :: "(nat \<Rightarrow> bool) \<Rightarrow> kwdb \<Rightarrow> nat \<Rightarrow> nat \<Rightarrow> string \<Rightarrow> (int \<times> string) option" where
  "write_walk wok db ep ncards out =
     (if ep = 0 then Some (int ncards, out)
      else (case kwdb_GetEntry db (int ep) of
          (Some (keyword, value, ty, comment), r) \<Rightarrow>
            if r < 0 then Some (-1, out)
            else if \<not> wok ncards then Some (-1, out)
            else (case kwdb_Next db ep of
                None \<Rightarrow> None
              | Some ep' \<Rightarrow> write_walk wok db ep' (Suc ncards) (out @ format_card keyword value ty comment))
        | (None, r) \<Rightarrow> Some (-1, out)))"

definition kwdb_WriteFITS :: "(nat \<Rightarrow> bool) \<Rightarrow> kwdb \<Rightarrow> (int \<times> string) option" where
  "kwdb_WriteFITS wok db = write_walk wok db (kwdb_Head db) 0 []"

subsection \<open>What a card looks like\<close>

text \<open>While a card is written it is some text followed by blanks.\<close>

abbreviation blanks :: "nat \<Rightarrow> string" where
  "blanks n \<equiv> replicate n blank"

lemma upd_blanks:
  "k < n \<Longrightarrow> (A @ blanks n)[length A + k := c] = A @ blanks k @ c # blanks (n - Suc k)"
proof -
  assume "k < n"
  then have "blanks n = blanks k @ blank # blanks (n - Suc k)"
    by (metis Suc_leI add_diff_inverse_nat le_add_diff_inverse not_less_iff_gr_or_eq replicate_Suc replicate_add append_Cons append_assoc append_Nil Suc_diff_Suc)
  then show ?thesis by (simp add: list_update_append)
qed

lemma put_print_blanks:
  assumes "list_all c_isprint s" "length A + k + length s \<le> 80" "k + length s \<le> n"
  shows "put_print (A @ blanks n) (length A + k) s = (A @ blanks k @ s @ blanks (n - k - length s), length A + k + length s)"
  using assms
proof (induction s arbitrary: A k n)
  case Nil
  then have "blanks n = blanks k @ blanks (n - k)" by (simp add: replicate_add [symmetric])
  then show ?case by simp
next
  case (Cons c s)
  have u: "(A @ blanks n)[length A + k := c] = (A @ blanks k @ [c]) @ blanks (n - Suc k)"
    using upd_blanks [of k n A c] Cons.prems by simp
  show ?case using Cons.IH [of "A @ blanks k @ [c]" 0 "n - Suc k"] Cons.prems u by simp
qed

lemma put_keyword_blanks:
  assumes "list_all c_isprint s" "length s \<le> m" "length s \<le> n"
  shows "put_keyword (A @ blanks n) (length A) m s = A @ s @ blanks (n - length s)"
  using assms
proof (induction s arbitrary: A m n)
  case Nil
  then show ?case by simp
next
  case (Cons c s)
  obtain m' where m: "m = Suc m'" using Cons.prems by (cases m) auto
  have u: "(A @ blanks n)[length A := c] = (A @ [c]) @ blanks (n - 1)"
    using upd_blanks [of 0 n A c] Cons.prems by simp
  show ?case using Cons.IH [of m' "n - 1" "A @ [c]"] Cons.prems u m by simp
qed

text \<open>The comment as it follows the value, in \<open>n\<close> columns.\<close>

definition com_tail :: "string \<Rightarrow> nat \<Rightarrow> string" where
  "com_tail com n = (if com = [] then blanks n else '' / '' @ com @ blanks (n - 3 - length com))"

lemma put_comment_blanks:
  assumes "list_all c_isprint com" "length A \<le> 80" "com = [] \<or> length A + 3 + length com \<le> 80" "80 - length A \<le> n"
  shows "take 80 (put_comment (A @ blanks n) (length A) com) = A @ com_tail com (80 - length A)"
proof (cases "com = []")
  case True
  then show ?thesis using assms by (simp add: put_comment_def com_tail_def min_def)
next
  case False
  then have l: "length A + 3 + length com \<le> 80" "0 < length com" using assms by auto
  have u: "(A @ blanks n)[length A + 1 := CHR ''/''] = (A @ '' /'') @ blanks (n - 2)"
    using upd_blanks [of 1 n A "CHR ''/''"] assms(4) l by (simp add: numeral_2_eq_2)
  have p: "put_print ((A @ '' /'') @ blanks (n - 2)) (length (A @ '' /'') + 1) com
      = ((A @ '' /'') @ blanks 1 @ com @ blanks (n - 2 - 1 - length com), length (A @ '' /'') + 1 + length com)"
    using assms l by (intro put_print_blanks) auto
  have "put_comment (A @ blanks n) (length A) com = A @ '' / '' @ com @ blanks (n - 3 - length com)"
    using p False l unfolding put_comment_def u by (simp add: numeral_3_eq_3)
  moreover have "80 - length A = Suc (Suc (Suc (77 - length A)))" using l by simp
  ultimately show ?thesis using False l assms(4) by (simp add: com_tail_def min_def)
qed

definition card_key :: "string \<Rightarrow> string" where
  "card_key kw = kw @ blanks (8 - length kw) @ ''=''"

lemma card_start:
  assumes "list_all c_isprint kw" "length kw \<le> 8"
  shows "(put_keyword (blanks 256) 0 8 kw)[8 := CHR ''=''] = card_key kw @ blanks 247" "length (card_key kw) = 9"
proof -
  have "put_keyword (blanks 256) 0 8 kw = kw @ blanks (256 - length kw)"
    using put_keyword_blanks [of kw 8 256 "[]"] assms by simp
  then show "(put_keyword (blanks 256) 0 8 kw)[8 := CHR ''=''] = card_key kw @ blanks 247"
    using upd_blanks [of "8 - length kw" "256 - length kw" kw "CHR ''=''"] assms by (simp add: card_key_def)
qed (use assms in \<open>simp add: card_key_def\<close>)

lemma format_num:
  assumes "list_all c_isprint kw" "length kw \<le> 8" "list_all c_isprint v" "length v \<le> 20" "list_all c_isprint com" "length com \<le> 47"
    and "ty = ''N'' \<or> ty = ''L''"
  shows "format_card kw v ty com = card_key kw @ blanks (21 - length v) @ v @ com_tail com 50"
proof -
  note c = card_start [OF assms(1,2)]
  have "put_print (card_key kw @ blanks 247) (length (card_key kw) + (21 - length v)) v
      = (card_key kw @ blanks (21 - length v) @ v @ blanks 226, 30)"
    using put_print_blanks [of v "card_key kw" "21 - length v" 247] assms(3,4) c(2) by simp
  then have "put_value (card_key kw @ blanks 247) (char0 ty) v = (card_key kw @ blanks (21 - length v) @ v @ blanks 226, 30)"
    using assms(4,7) c(2) by (auto simp: put_value_def char0_def)
  then show ?thesis
    using put_comment_blanks [of com "card_key kw @ blanks (21 - length v) @ v" 226] assms(4-7) c
    by (auto simp: format_card_def Let_def char0_def)
qed

definition pad8 :: "string \<Rightarrow> string" where
  "pad8 v = v @ blanks (8 - length v)"

lemma format_str:
  assumes "list_all c_isprint kw" "length kw \<le> 8" "list_all c_isprint v" "length v \<le> 68" "list_all c_isprint com"
    and "com = [] \<or> max (12 + length (pad8 v)) 30 + 3 + length com \<le> 80"
  shows "format_card kw v ''S'' com = card_key kw @ blank # CHR 0x27 # pad8 v @ CHR 0x27 # blanks (18 - length (pad8 v))
    @ com_tail com (80 - max (12 + length (pad8 v)) 30)"
proof -
  note c = card_start [OF assms(1,2)]
  let ?A = "card_key kw @ [blank, CHR 0x27]"
  have 1: "(card_key kw @ blanks 247)[10 := CHR 0x27] = ?A @ blanks 245"
    using upd_blanks [of 1 247 "card_key kw" "CHR 0x27"] c(2) by simp
  have 2: "put_print (?A @ blanks 245) 11 v = ((?A @ v) @ blanks (245 - length v), 11 + length v)"
    using put_print_blanks [of v ?A 0 245] assms(3,4) c(2) by simp
  have 3: "((?A @ v) @ blanks (245 - length v))[max (11 + length v) 19 := CHR 0x27]
      = ?A @ pad8 v @ CHR 0x27 # blanks (245 - length v - Suc (8 - length v))"
    using upd_blanks [of "8 - length v" "245 - length v" "?A @ v" "CHR 0x27"] assms(4) c(2)
    by (cases "length v \<le> 8") (auto simp: pad8_def max_def)
  have len: "length (pad8 v) = max (length v) 8" by (simp add: pad8_def)
  define op where "op = max (12 + length (pad8 v)) 30"
  have m: "max (11 + length v) 19 = 11 + length (pad8 v)" unfolding len by simp
  have op: "max (Suc (max (11 + length v) 19)) 30 = op" unfolding m op_def by simp
  let ?B = "?A @ pad8 v @ CHR 0x27 # blanks (18 - length (pad8 v))"
  have lb: "length ?B = op" using c(2) by (simp add: op_def)
  have "blanks (245 - length v - Suc (8 - length v)) = blanks (18 - length (pad8 v)) @ blanks (256 - op)"
    using assms(4) unfolding replicate_add [symmetric] op_def len by (simp add: max_def)
  then have "put_value (card_key kw @ blanks 247) CHR ''S'' v = (?B @ blanks (256 - op), length ?B)"
    using 2 3 op unfolding put_value_def 1 lb by (simp add: Let_def)
  moreover have "op \<le> 80" using assms(4) by (auto simp: op_def len)
  ultimately show ?thesis
    using put_comment_blanks [of com ?B "256 - op"] assms(5,6) c lb
    by (auto simp: format_card_def Let_def char0_def op_def [symmetric])
qed

subsection \<open>Reading a card back\<close>

lemma c_isprint_blank [simp]: "c_isprint blank"
  by (simp add: c_isprint_def c_code_def)

lemma c_isspace_blank [simp]: "c_isspace blank"
  by (simp add: c_isspace_def c_code_def)

lemma print_not_newline: "c_isprint c \<Longrightarrow> c \<noteq> CHR 0x0A \<and> c \<noteq> NUL"
  by (auto simp: c_isprint_def c_code_def NUL_def)

lemma print_space: "c_isprint c \<Longrightarrow> c \<noteq> blank \<Longrightarrow> \<not> c_isspace c"
proof -
  assume p: "c_isprint c" and b: "c \<noteq> blank"
  have "c_code c \<noteq> 32"
  proof
    assume "c_code c = 32"
    then have "of_char c = (of_char blank :: nat)" by (simp add: c_code_def)
    then show False using b by (simp only: of_char_eq_iff)
  qed
  then show ?thesis using p by (auto simp: c_isprint_def c_isspace_def)
qed

lemma skip_space_blanks: "k \<le> n \<Longrightarrow> \<not> c_isspace c \<Longrightarrow> skip_space n (blanks k @ c # xs) = c # xs"
proof (induction k arbitrary: n)
  case 0
  then show ?case by (cases n) auto
next
  case (Suc k)
  then obtain n' where "n = Suc n'" by (cases n) auto
  then show ?case using Suc by simp
qed

lemma dropWhile_blanks [simp]: "P blank \<Longrightarrow> dropWhile P (blanks n @ xs) = dropWhile P xs" "P blank \<Longrightarrow> dropWhile P (blanks n) = []"
  by (induction n) auto

lemma rtrim_blanks: "s = [] \<or> last s \<noteq> blank \<Longrightarrow> rtrim (s @ blanks n) = s"
  by (cases s rule: rev_cases) (auto simp: rtrim_def)

definition com_ok :: "string \<Rightarrow> bool" where
  "com_ok com \<longleftrightarrow> list_all c_isprint com \<and> (com = [] \<or> hd com \<noteq> CHR ''/'' \<and> hd com \<noteq> blank \<and> last com \<noteq> blank)"

lemma comment_field_tail:
  assumes "com_ok com"
  shows "comment_field (blanks k @ com_tail com n) = com"
proof (cases "com = []")
  case True
  then show ?thesis using rtrim_blanks [of "[]" 0] by (simp add: comment_field_def com_tail_def)
next
  case False
  let ?r = "n - 3 - length com"
  have "dropWhile (\<lambda>c. c = CHR ''/'' \<or> c = blank) (blanks k @ com_tail com n) = com @ blanks ?r"
    using assms False by (cases com) (auto simp: com_ok_def com_tail_def)
  moreover have "takeWhile (\<lambda>c. c \<noteq> CHR 0x0A) (com @ blanks ?r) = com @ blanks ?r"
    using assms print_not_newline by (auto simp: com_ok_def list_all_iff takeWhile_eq_all_conv)
  ultimately show ?thesis using assms False rtrim_blanks [of com ?r] by (simp add: comment_field_def com_ok_def)
qed

definition key_ok :: "string \<Rightarrow> bool" where
  "key_ok kw \<longleftrightarrow> kw \<noteq> [] \<and> length kw \<le> 8 \<and> list_all (\<lambda>c. c_isprint c \<and> c \<noteq> blank) kw
     \<and> \<not> streq kw ''END'' \<and> \<not> streq kw ''COMMENT'' \<and> \<not> streq kw ''HISTORY''"

lemma key_fields:
  assumes "key_ok kw"
  shows "keyword_field (card_key kw @ r) = kw" "(card_key kw @ r) ! 8 = CHR ''=''" "drop 9 (card_key kw @ r) = r"
    "list_all c_isprint kw" "length kw \<le> 8"
proof -
  have l: "length kw \<le> 8" and p: "list_all (\<lambda>c. c_isprint c \<and> c \<noteq> blank) kw" using assms by (simp_all add: key_ok_def)
  then show k: "list_all c_isprint kw" "length kw \<le> 8" by (simp_all add: list_all_iff)
  have t: "take 8 (card_key kw @ r) = kw @ blanks (8 - length kw)" using l by (simp add: card_key_def)
  have "takeWhile (\<lambda>c. c \<noteq> blank) (kw @ blanks (8 - length kw)) = kw"
    using p by (cases "8 - length kw") (auto simp: takeWhile_append2 list_all_iff)
  then show "keyword_field (card_key kw @ r) = kw"
    using k unfolding keyword_field_def t by (auto simp: list_all_iff)
  show "(card_key kw @ r) ! 8 = CHR ''=''" "drop 9 (card_key kw @ r) = r"
    using l by (simp_all add: card_key_def nth_append)
qed

text \<open>Entries that a card can hold: with a numeric or logical value, or with a string.\<close>

definition num_ok :: "string \<Rightarrow> string \<Rightarrow> bool" where
  "num_ok v ty \<longleftrightarrow> v \<noteq> [] \<and> length v \<le> 20 \<and> list_all (\<lambda>c. c_isprint c \<and> c \<noteq> blank \<and> c \<noteq> CHR ''/'') v \<and> hd v \<noteq> CHR 0x27
     \<and> ty = (if streq v ''T'' \<or> streq v ''F'' then ''L'' else ''N'')"

definition str_ok :: "string \<Rightarrow> bool" where
  "str_ok v \<longleftrightarrow> length v \<le> 68 \<and> list_all (\<lambda>c. c_isprint c \<and> c \<noteq> CHR 0x27) v"

lemma cstr_print: "list_all c_isprint s \<Longrightarrow> cstr s = s"
  unfolding cstr_def using print_not_newline by (auto simp: list_all_iff takeWhile_eq_all_conv)

lemma com_tail_blank: "0 < n \<Longrightarrow> \<exists>r. com_tail com n = blank # r"
  by (cases n) (auto simp: com_tail_def)

lemma num_card:
  assumes k: "key_ok kw" and v: "num_ok v ty" and c: "com_ok com" "length com \<le> 47"
  shows "parse_card old (format_card kw v ty com) = (kw, v, ty, com)" "length (format_card kw v ty com) = 80"
proof -
  have pv: "list_all c_isprint v" "length v \<le> 20" "ty = ''N'' \<or> ty = ''L''" and pc: "list_all c_isprint com"
    using v c by (auto simp: num_ok_def com_ok_def list_all_iff)
  note kf = key_fields [OF k]
  have f: "format_card kw v ty com = card_key kw @ blanks (21 - length v) @ v @ com_tail com 50"
    by (rule format_num) (use kf(4,5) pv pc c in auto)
  obtain d ds where d: "v = d # ds" using v by (cases v) (auto simp: num_ok_def)
  have ds: "\<not> c_isspace d" "d \<noteq> CHR 0x27" using v d print_space by (auto simp: num_ok_def)
  obtain r where r: "com_tail com 50 = blank # r" using com_tail_blank [of 50 com] by auto
  have tw: "takeWhile (\<lambda>c. c \<noteq> blank \<and> c \<noteq> CHR ''/'') (v @ com_tail com 50) = v"
    "dropWhile (\<lambda>c. c \<noteq> blank \<and> c \<noteq> CHR ''/'') (v @ com_tail com 50) = com_tail com 50"
    using v unfolding r by (auto simp: num_ok_def list_all_iff takeWhile_append2 dropWhile_append2)
  have "skip_space 21 (blanks (21 - length v) @ v @ com_tail com 50) = v @ com_tail com 50"
    using skip_space_blanks [of "21 - length v" 21 d "ds @ com_tail com 50"] ds d by simp
  then have "value_field (format_card kw v ty com) = (False, v, com_tail com 50)"
    using tw d ds unfolding f value_field_def kf(3) by (simp add: Let_def)
  moreover have "keyword_field (format_card kw v ty com) = kw" "format_card kw v ty com ! 8 = CHR ''=''" unfolding f by (simp_all only: kf)
  moreover have "comment_field (com_tail com 50) = com" using comment_field_tail [OF c(1), of 0] by simp
  moreover have "(if streq v ''T'' \<or> streq v ''F'' then ''L'' else ''N'') = ty" using v by (simp add: num_ok_def)
  ultimately show "parse_card old (format_card kw v ty com) = (kw, v, ty, com)"
    using k cstr_print [OF pv(1)] unfolding parse_card_def by (simp add: key_ok_def)
  show "length (format_card kw v ty com) = 80" unfolding f using kf(5) pv(2) c(2) by (simp add: card_key_def com_tail_def)
qed

lemma str_card:
  assumes k: "key_ok kw" and v: "str_ok v" and c: "com_ok com" "com = [] \<or> max (12 + length (pad8 v)) 30 + 3 + length com \<le> 80"
  shows "parse_card old (format_card kw v ''S'' com) = (kw, pad8 v, ''S'', com)" "length (format_card kw v ''S'' com) = 80"
proof -
  have pv: "list_all c_isprint v" "length v \<le> 68" and pc: "list_all c_isprint com"
    using v c by (auto simp: str_ok_def com_ok_def list_all_iff)
  note kf = key_fields [OF k]
  define n where "n = 80 - max (12 + length (pad8 v)) 30"
  have f: "format_card kw v ''S'' com = card_key kw @ blank # CHR 0x27 # pad8 v @ CHR 0x27 # blanks (18 - length (pad8 v)) @ com_tail com n"
    unfolding n_def using kf(4,5) pv pc c(2) by (rule format_str)
  have q: "\<forall>c \<in> set (pad8 v). c \<noteq> CHR 0x27" using v by (simp add: str_ok_def list_all_iff pad8_def ball_Un)
  let ?r = "blanks (18 - length (pad8 v)) @ com_tail com n"
  have tw: "takeWhile (\<lambda>c. c \<noteq> CHR 0x27) (pad8 v @ CHR 0x27 # ?r) = pad8 v" "tl (dropWhile (\<lambda>c. c \<noteq> CHR 0x27) (pad8 v @ CHR 0x27 # ?r)) = ?r"
    using q by (simp_all add: takeWhile_append2 dropWhile_append2)
  have "\<not> c_isspace CHR 0x27" by (simp add: c_isspace_def c_code_def)
  then have "skip_space 21 (blank # CHR 0x27 # pad8 v @ CHR 0x27 # ?r) = CHR 0x27 # pad8 v @ CHR 0x27 # ?r"
    using skip_space_blanks [of 1 21 "CHR 0x27" "pad8 v @ CHR 0x27 # ?r"] by simp
  then have "value_field (format_card kw v ''S'' com) = (True, pad8 v, ?r)"
    using tw unfolding f value_field_def kf(3) by (simp add: Let_def)
  moreover have "keyword_field (format_card kw v ''S'' com) = kw" "format_card kw v ''S'' com ! 8 = CHR ''=''" unfolding f by (simp_all only: kf)
  moreover have "comment_field ?r = com" by (rule comment_field_tail [OF c(1)])
  ultimately show "parse_card old (format_card kw v ''S'' com) = (kw, pad8 v, ''S'', com)"
    using k unfolding parse_card_def by (simp add: key_ok_def)
  have "length (pad8 v) \<le> 68" using pv(2) by (simp add: pad8_def)
  then show "length (format_card kw v ''S'' com) = 80" unfolding f using kf(5) c(2) by (auto simp: card_key_def com_tail_def n_def max_def)
qed

subsection \<open>Writing and reading a whole header\<close>

definition fits_card :: "(kw_field \<Rightarrow> string) \<Rightarrow> string" where
  "fits_card e = format_card (e KName) (e KValue) (e KType) (e KComment)"

lemma GetEntry_wf:
  assumes "links_ok db gs" "g \<in> set gs"
  shows "kwdb_GetEntry db (int g) = (Some (kw_entry db g KName, kw_entry db g KValue, kw_entry db g KType, kw_entry db g KComment),
    int (it_comment (kw_itab db g)))"
  using entry_range [OF assms] by (simp add: kwdb_GetEntry_def kw_entry_def Let_def)

lemma write_walk_chain:
  assumes l: "links_ok db gs" and c: "chain (nglob db) i xs" and xs: "set xs \<subseteq> set gs"
  shows "write_walk (\<lambda>_. True) db i n out = Some (int (n + length xs), out @ concat (map (\<lambda>g. fits_card (kw_entry db g)) xs))"
  using c xs
proof (induction xs arbitrary: i n out)
  case Nil
  then show ?case by (simp add: write_walk.simps)
next
  case (Cons x xs)
  then have x: "i = x" "x \<noteq> 0" "x \<in> set gs" and ch: "chain (nglob db) (nglob db x) xs" by auto
  have "kwdb_Next db x = Some (nglob db x)" using l x(3) by (auto simp: kwdb_Next_def links_ok_def)
  then show ?case
    using Cons.IH [OF ch] Cons.prems(2) x GetEntry_wf [OF l x(3)] by (subst write_walk.simps) (simp add: fits_card_def)
qed

lemma WriteFITS_result:
  assumes "links_ok db gs"
  shows "kwdb_WriteFITS (\<lambda>_. True) db = Some (int (length gs), concat (map (\<lambda>g. fits_card (kw_entry db g)) gs))"
  using write_walk_chain [OF assms, of "kw_head db" gs 0 "[]"] assms
  by (simp add: kwdb_WriteFITS_def kwdb_Head_def links_ok_def)

text \<open>Blank lines at the end.\<close>

definition blank_line :: "(kw_field \<Rightarrow> string) \<Rightarrow> bool" where
  "blank_line e \<longleftrightarrow> char0 (e KType) = CHR ''T'' \<and> e KValue = []"

lemma trim_step:
  assumes wf: "kw_wf db (gs @ [g]) rs" and b: "blank_line (kw_entry db g)"
  shows "\<exists>db'. kw_wf db' gs (remove1 g rs) \<and> kw_view db' gs = kw_view db gs \<and> trim_loop db nb = trim_loop db' (nb + 1)"
proof -
  have l: "links_ok db (gs @ [g])" and g: "g \<in> set (gs @ [g])" using wf by (simp_all add: kw_wf_def)
  have d: "g \<notin> set gs" and t: "kw_tail db = g" using links_ok_facts(4,5) [OF l] by auto
  have rm: "remove1 g (gs @ [g]) = gs" using d by (simp add: remove1_append)
  obtain db' where "kwdb_DeleteEntry db (int g) = Some (0, db')" "kw_wf db' gs (remove1 g rs)"
    and v: "kw_view db' gs = filter (\<lambda>(g', e). g' \<noteq> g) (kw_view db (gs @ [g]))"
    using DeleteEntry_step [OF wf g] unfolding rm by blast
  moreover have "filter (\<lambda>(g', e). g' \<noteq> g) (kw_view db (gs @ [g])) = kw_view db gs"
    using d by (auto simp: kw_view_def filter_id_conv)
  moreover have "0 < g" using entry_range [OF l g] by simp
  ultimately show ?thesis using b GetEntry_wf [OF l g] t
    by (subst trim_loop.simps) (auto simp: kwdb_Tail_def Let_def blank_line_def)
qed

lemma trim_stop:
  assumes wf: "kw_wf db gs rs" and b: "gs \<noteq> [] \<Longrightarrow> \<not> blank_line (kw_entry db (last gs))"
  shows "trim_loop db nb = Some (nb, db)"
proof (cases "gs = []")
  case True
  then show ?thesis using wf by (subst trim_loop.simps) (simp add: kwdb_Tail_def Let_def kw_wf_def links_ok_def)
next
  case False
  have l: "links_ok db gs" and t: "kw_tail db = last gs" using wf False by (simp_all add: kw_wf_def links_ok_def)
  have g: "last gs \<in> set gs" using False by simp
  show ?thesis using b False GetEntry_wf [OF l g] t entry_range [OF l g]
    by (subst trim_loop.simps) (auto simp: kwdb_Tail_def Let_def blank_line_def)
qed

lemma trim_loop_result:
  assumes "kw_wf db (gs @ bs) rs" "gs \<noteq> [] \<Longrightarrow> \<not> blank_line (kw_entry db (last gs))" "\<forall>g \<in> set bs. blank_line (kw_entry db g)"
  shows "\<exists>db' rs'. trim_loop db nb = Some (nb + int (length bs), db') \<and> kw_wf db' gs rs' \<and> kw_view db' gs = kw_view db gs"
  using assms
proof (induction bs arbitrary: db rs nb rule: rev_induct)
  case Nil
  then show ?case using trim_stop [of db gs rs] by auto
next
  case (snoc b bs)
  obtain db' where w: "kw_wf db' (gs @ bs) (remove1 b rs)" and v: "kw_view db' (gs @ bs) = kw_view db (gs @ bs)"
    and t: "trim_loop db nb = trim_loop db' (nb + 1)"
    using trim_step [of db "gs @ bs" b rs nb] snoc.prems by auto
  have e: "kw_entry db' g = kw_entry db g" if "g \<in> set (gs @ bs)" for g using v that by (auto simp: kw_view_def)
  then have "gs \<noteq> [] \<Longrightarrow> \<not> blank_line (kw_entry db' (last gs))" "\<forall>g \<in> set bs. blank_line (kw_entry db' g)"
    using snoc.prems by auto
  from snoc.IH [OF w this, of "nb + 1"] obtain db2 rs2 where
    "trim_loop db' (nb + 1) = Some (nb + 1 + int (length bs), db2)" "kw_wf db2 gs rs2" "kw_view db2 gs = kw_view db' gs" by blast
  then show ?case using t e by (auto simp: kw_view_def)
qed

definition end_card :: string where
  "end_card = ''END'' @ blanks 77"

lemma read_cards_end: "read_cards True 0 n old db (end_card @ rest) = Some (Some n, db)"
proof -
  have "keyword_field end_card = ''END''" by (simp add: keyword_field_def end_card_def c_isprint_def c_code_def numeral_eq_Suc)
  moreover have "take 80 (end_card @ rest) = end_card" "80 \<le> length (end_card @ rest)" by (simp_all add: end_card_def)
  ultimately show ?thesis by (subst read_cards.simps) (simp add: Let_def)
qed

lemma print_arg: "list_all c_isprint s \<Longrightarrow> length s < 1000 \<Longrightarrow> kw_arg (Some s)"
  using print_not_newline by (auto simp: kw_arg_def list_all_iff DEF_SZSBUF_def)

lemma print_name_arg: "list_all c_isprint s \<Longrightarrow> s \<noteq> [] \<Longrightarrow> length s < 1000 \<Longrightarrow> kw_name_arg (Some s)"
  using hash_nonneg [of s] print_arg [of s] by (cases s) (auto simp: kw_name_arg_def c_isprint_def)

text \<open>One round of the loop over the cards.\<close>

lemma read_cards_step:
  assumes wf: "kw_wf db gs rs" and len: "length c = 80" and p: "parse_card old c = (kw, v, ty, com)" and ne: "\<not> streq (keyword_field c) ''END''"
    and args: "list_all c_isprint kw" "kw \<noteq> []" "list_all c_isprint v" "list_all c_isprint ty" "list_all c_isprint com"
      "length kw < 1000" "length v < 1000" "length ty < 1000" "length com < 1000"
  shows "\<exists>i db'. read_cards True 0 n old db (c @ rest) = read_cards True 0 (n + 1) com db' rest
    \<and> kw_wf db' (gs @ [i]) (i # rs) \<and> kw_view db' (gs @ [i]) = kw_view db gs @ [(i, kw_args (Some kw) (Some v) (Some ty) (Some com))]"
proof -
  obtain i db' where a: "kwdb_AddEntry True db (Some kw) (Some v) (Some ty) (Some com) = Some (int i, db')"
    and w: "kw_wf db' (gs @ [i]) (if opt_str (Some kw) = [] then rs else i # rs)"
      "kw_view db' (gs @ [i]) = kw_view db gs @ [(i, kw_args (Some kw) (Some v) (Some ty) (Some com))]"
    using AddEntry_step [OF wf print_name_arg print_arg print_arg print_arg, of kw v ty com] args by blast
  have "read_cards True 0 n old db (c @ rest) = read_cards True 0 (n + 1) com db' rest"
    using len p ne a cstr_print [OF args(1)] cstr_print [OF args(3)] cstr_print [OF args(5)]
    by (subst read_cards.simps) (simp add: Let_def)
  then show ?thesis using w args(2) by auto
qed

lemma parse_card_key: "fst (parse_card old c) = keyword_field c"
  by (simp add: parse_card_def Let_def split: prod.splits)

lemma str_ok_print: "str_ok v \<Longrightarrow> list_all c_isprint v \<and> length v < 900"
  by (simp add: str_ok_def list_all_iff)

lemma num_ok_print: "num_ok v ty \<Longrightarrow> list_all c_isprint v \<and> length v < 900"
  by (simp add: num_ok_def list_all_iff)

definition fits_ok :: "(kw_field \<Rightarrow> string) \<Rightarrow> bool" where
  "fits_ok e \<longleftrightarrow> key_ok (e KName) \<and> com_ok (e KComment) \<and>
     (e KType = ''S'' \<and> str_ok (e KValue) \<and> (e KComment = [] \<or> max (12 + length (pad8 (e KValue))) 30 + 3 + length (e KComment) \<le> 80)
      \<or> num_ok (e KValue) (e KType) \<and> length (e KComment) \<le> 47)"

text \<open>String values come back padded to eight characters.\<close>

definition fits_norm :: "(kw_field \<Rightarrow> string) \<Rightarrow> kw_field \<Rightarrow> string" where
  "fits_norm e = (if e KType = ''S'' then e(KValue := pad8 (e KValue)) else e)"

lemma kw_args_eta: "kw_args (Some (e KName)) (Some (e KValue)) (Some (e KType)) (Some (e KComment)) = e"
proof
  fix k show "kw_args (Some (e KName)) (Some (e KValue)) (Some (e KType)) (Some (e KComment)) k = e k" by (cases k) simp_all
qed

lemma fits_ok_card:
  assumes "fits_ok e"
  shows "length (fits_card e) = 80" "\<not> streq (keyword_field (fits_card e)) ''END''"
    "parse_card old (fits_card e) = (fits_norm e KName, fits_norm e KValue, fits_norm e KType, fits_norm e KComment)"
    "list_all c_isprint (fits_norm e k)" "length (fits_norm e k) < 1000" "fits_norm e KName \<noteq> []" "e KType \<noteq> ''T''"
proof -
  have k: "key_ok (e KName)" and c: "com_ok (e KComment)" using assms by (simp_all add: fits_ok_def)
  have ty: "e KType = ''S'' \<or> e KType = ''N'' \<or> e KType = ''L''" using assms by (auto simp: fits_ok_def num_ok_def split: if_splits)
  have pl: "parse_card old (fits_card e) = (fits_norm e KName, fits_norm e KValue, fits_norm e KType, fits_norm e KComment) \<and> length (fits_card e) = 80" for old
  proof (cases "e KType = ''S''")
    case True
    then have "str_ok (e KValue)" "e KComment = [] \<or> max (12 + length (pad8 (e KValue))) 30 + 3 + length (e KComment) \<le> 80"
      using assms by (auto simp: fits_ok_def num_ok_def split: if_splits)
    then show ?thesis using str_card [OF k _ c] True by (simp add: fits_card_def fits_norm_def)
  next
    case False
    then have "num_ok (e KValue) (e KType)" "length (e KComment) \<le> 47" using assms by (auto simp: fits_ok_def)
    then show ?thesis using num_card [OF k _ c] False by (simp add: fits_card_def fits_norm_def)
  qed
  then show "length (fits_card e) = 80"
    "parse_card old (fits_card e) = (fits_norm e KName, fits_norm e KValue, fits_norm e KType, fits_norm e KComment)" by simp_all
  have n: "fits_norm e KName = e KName" "fits_norm e KType = e KType" "fits_norm e KComment = e KComment" by (simp_all add: fits_norm_def)
  have "keyword_field (fits_card e) = e KName" using pl [of "[]"] n(1) parse_card_key [of "[]" "fits_card e"] by simp
  then show "\<not> streq (keyword_field (fits_card e)) ''END''" using k by (simp add: key_ok_def)
  show "fits_norm e KName \<noteq> []" "e KType \<noteq> ''T''" using k ty n by (auto simp: key_ok_def)
  have kn: "list_all c_isprint (e KName)" "length (e KName) < 1000" using k by (auto simp: key_ok_def list_all_iff)
  have kc: "list_all c_isprint (e KComment)" "length (e KComment) < 1000" using assms by (auto simp: fits_ok_def com_ok_def)
  have kt: "list_all c_isprint (e KType)" "length (e KType) < 1000" using ty by (auto simp: c_isprint_def c_code_def)
  have kv: "list_all c_isprint (fits_norm e KValue)" "length (fits_norm e KValue) < 1000"
  proof -
    have "str_ok (e KValue) \<or> num_ok (e KValue) (e KType)" using assms by (auto simp: fits_ok_def)
    then have "list_all c_isprint (e KValue) \<and> length (e KValue) < 900" using str_ok_print num_ok_print by blast
    then show "list_all c_isprint (fits_norm e KValue)" "length (fits_norm e KValue) < 1000"
      by (simp_all add: fits_norm_def pad8_def list_all_iff ball_Un) linarith
  qed
  show "list_all c_isprint (fits_norm e k)" "length (fits_norm e k) < 1000"
    using kn kc kt kv n by (cases k; simp)+
qed

lemma read_cards_fits:
  assumes "kw_wf db gs rs" "\<forall>e \<in> set es. fits_ok e"
  shows "\<exists>is db'. read_cards True 0 n old db (concat (map fits_card es) @ end_card @ rest) = Some (Some (n + int (length es)), db')
    \<and> kw_wf db' (gs @ is) (rev is @ rs) \<and> map snd (kw_view db' (gs @ is)) = map snd (kw_view db gs) @ map fits_norm es"
  using assms
proof (induction es arbitrary: db gs rs n old)
  case Nil
  then show ?case by (intro exI [of _ "[]"]) (simp add: read_cards_end)
next
  case (Cons e es)
  then have f: "fits_ok e" by simp
  note fc = fits_ok_card [OF f]
  let ?file = "concat (map fits_card es) @ end_card @ rest"
  have "\<exists>i db1. read_cards True 0 n old db (fits_card e @ ?file) = read_cards True 0 (n + 1) (fits_norm e KComment) db1 ?file
      \<and> kw_wf db1 (gs @ [i]) (i # rs) \<and> kw_view db1 (gs @ [i]) = kw_view db gs @ [(i, fits_norm e)]"
    using read_cards_step [OF Cons.prems(1) fc(1) fc(3) [of old] fc(2), where n = n and rest = ?file] fc(4-6) by (simp add: kw_args_eta)
  then obtain i db1 where 1: "read_cards True 0 n old db (fits_card e @ ?file) = read_cards True 0 (n + 1) (fits_norm e KComment) db1 ?file"
    and w: "kw_wf db1 (gs @ [i]) (i # rs)" and v: "kw_view db1 (gs @ [i]) = kw_view db gs @ [(i, fits_norm e)]" by blast
  from Cons.IH [OF w, of "n + 1" "fits_norm e KComment"] Cons.prems(2) obtain "is" db' where
    "read_cards True 0 (n + 1) (fits_norm e KComment) db1 (concat (map fits_card es) @ end_card @ rest) = Some (Some (n + 1 + int (length es)), db')"
    "kw_wf db' ((gs @ [i]) @ is) (rev is @ i # rs)"
    "map snd (kw_view db' ((gs @ [i]) @ is)) = map snd (kw_view db1 (gs @ [i])) @ map fits_norm es" by auto
  then show ?case using 1 v by (intro exI [of _ "i # is"] exI [of _ db']) simp
qed

lemma fits_not_blank:
  assumes "fits_ok e"
  shows "\<not> blank_line (fits_norm e)"
proof -
  have "e KType = ''S'' \<or> e KType = ''N'' \<or> e KType = ''L''" using assms by (auto simp: fits_ok_def num_ok_def split: if_splits)
  then show ?thesis by (elim disjE) (simp_all add: blank_line_def fits_norm_def char0_def)
qed

text \<open>The card of a comment line.\<close>

lemma put_raw_blanks:
  assumes "length A + k + length s \<le> 80" "k + length s \<le> n"
  shows "put_raw (A @ blanks n) (length A + k) s = A @ blanks k @ s @ blanks (n - k - length s)"
  using assms
proof (induction s arbitrary: A k n)
  case Nil
  then have "blanks n = blanks k @ blanks (n - k)" by (simp add: replicate_add [symmetric])
  then show ?case by simp
next
  case (Cons c s)
  have u: "(A @ blanks n)[length A + k := c] = (A @ blanks k @ [c]) @ blanks (n - Suc k)"
    using upd_blanks [of k n A c] Cons.prems by simp
  show ?case using Cons.IH [of "A @ blanks k @ [c]" 0 "n - Suc k"] Cons.prems u by simp
qed

lemma comment_card:
  assumes "list_all c_isprint t" "length t \<le> 72" "t = [] \<or> last t \<noteq> blank"
  shows "length (format_card ''COMMENT'' t ''C'' own) = 80" "keyword_field (format_card ''COMMENT'' t ''C'' own) = ''COMMENT''"
    "parse_card old (format_card ''COMMENT'' t ''C'' own) = (''COMMENT'', t, ''C'', old)"
proof -
  define K where "K = ''COMMENT''"
  have K: "list_all c_isprint K" "length K = 7" by (simp_all add: K_def c_isprint_def c_code_def)
  have 1: "put_keyword (blanks 256) 0 8 K = K @ blanks 249"
    using put_keyword_blanks [of K 8 256 "[]"] K by simp
  have 2: "put_raw (K @ blanks 249) 8 t = K @ blanks 1 @ t @ blanks (248 - length t)"
    using put_raw_blanks [of K 1 t 249] K(2) assms(2) by simp
  have "format_card K t ''C'' own = K @ blank # t @ blanks (72 - length t)"
    unfolding format_card_def 1 using 2 K(2) assms(2) by (simp add: Let_def char0_def)
  then have f: "format_card ''COMMENT'' t ''C'' own = ''COMMENT '' @ t @ blanks (72 - length t)" by (simp add: K_def)
  show "length (format_card ''COMMENT'' t ''C'' own) = 80" using assms(2) by (simp add: f)
  show k: "keyword_field (format_card ''COMMENT'' t ''C'' own) = ''COMMENT''" by (simp add: f keyword_field_def c_isprint_def c_code_def)
  have "takeWhile (\<lambda>c. c \<noteq> CHR 0x0A) (t @ blanks (72 - length t)) = t @ blanks (72 - length t)"
    using assms(1) print_not_newline by (auto simp: list_all_iff takeWhile_eq_all_conv)
  then have "rtrim (takeWhile (\<lambda>c. c \<noteq> CHR 0x0A) (drop 8 (format_card ''COMMENT'' t ''C'' own))) = t"
    using rtrim_blanks [OF assms(3)] by (simp add: f)
  then show "parse_card old (format_card ''COMMENT'' t ''C'' own) = (''COMMENT'', t, ''C'', old)"
    using k by (simp add: parse_card_def)
qed

subsection \<open>Properties\<close>

text \<open>What \<open>kwdb_WriteFITS\<close> writes, followed by the last card, is read back, whatever comes behind it.\<close>

lemma FITS_read_back:
  assumes wf: "kw_wf db gs rs" and ok: "\<forall>g \<in> set gs. fits_ok (kw_entry db g)" and name: "length filename + 2 \<le> DEF_SZSBUF"
    and out: "out = concat (map (\<lambda>g. fits_card (kw_entry db g)) gs)"
  shows "\<exists>db' gs'. kwdb_WriteFITS (\<lambda>_. True) db = Some (int (length gs), out) \<and> length out = 80 * length gs
    \<and> kwdb_OpenFITS True True filename (Some (out @ end_card @ rest)) 0 com0 = Some (Some (db', Some 0))
    \<and> kw_wf db' gs' (rev gs') \<and> map snd (kw_view db' gs') = map (fits_norm \<circ> snd) (kw_view db gs)"
proof -
  let ?es = "map (kw_entry db) gs"
  let ?out = "concat (map fits_card ?es)"
  have l: "links_ok db gs" using wf by (simp add: kw_wf_def)
  have w: "kwdb_WriteFITS (\<lambda>_. True) db = Some (int (length gs), ?out)" using WriteFITS_result [OF l] by (simp add: o_def)
  have "length (fits_card e) = 80" if "e \<in> set ?es" for e using that ok fits_ok_card(1) by auto
  then have len: "length ?out = 80 * length gs" by (simp add: length_concat o_def sum_list_triv cong: map_cong)
  obtain db0 where o: "kwdb_Open True filename = Some (Some db0)" "kw_wf db0 [] []" using kwdb_Open_wf [OF name] by blast
  have "\<forall>e \<in> set ?es. fits_ok e" using ok by simp
  from read_cards_fits [OF o(2) this, of 0 com0 rest] obtain gs' db' where
    r: "read_cards True 0 0 com0 db0 (?out @ end_card @ rest) = Some (Some (int (length gs)), db')"
    and wf': "kw_wf db' gs' (rev gs')" and v: "map snd (kw_view db' gs') = map fits_norm ?es"
    by (auto simp: kw_view_def)
  have "\<not> blank_line (kw_entry db' (last gs'))" if ne: "gs' \<noteq> []"
  proof -
    have "kw_entry db' (last gs') \<in> set (map snd (kw_view db' gs'))" using ne by (auto simp: kw_view_def)
    then obtain e where "e \<in> set ?es" "kw_entry db' (last gs') = fits_norm e" unfolding v by auto
    then show ?thesis using ok fits_not_blank by auto
  qed
  then have "trim_loop db' 0 = Some (0, db')" using wf' by (intro trim_stop)
  then have "kwdb_OpenFITS True True filename (Some (?out @ end_card @ rest)) 0 com0 = Some (Some (db', Some 0))"
    using o(1) r by (simp add: kwdb_OpenFITS_def kwdb_ReadFITS_def)
  moreover have "map snd (kw_view db' gs') = map (fits_norm \<circ> snd) (kw_view db gs)" using v by (simp add: kw_view_def o_def)
  ultimately show ?thesis using w len wf' out by (auto simp: o_def)
qed

text \<open>A header of keyword entries that fit a card is read back from the file it is written
  to, entry by entry and in order: names, types, comments and numeric values exactly, string
  values padded with blanks to eight characters.\<close>

theorem kwdb_FITS_roundtrip:
  assumes wf: "kw_wf db gs rs" and ok: "\<forall>g \<in> set gs. fits_ok (kw_entry db g)" and name: "length filename + 2 \<le> DEF_SZSBUF"
  shows "\<exists>out db' gs'. kwdb_WriteFITS (\<lambda>_. True) db = Some (int (length gs), out) \<and> length out = 80 * length gs
    \<and> kwdb_OpenFITS True True filename (Some (out @ end_card)) 0 com0 = Some (Some (db', Some 0))
    \<and> kw_wf db' gs' (rev gs') \<and> map snd (kw_view db' gs') = map (fits_norm \<circ> snd) (kw_view db gs)"
  using FITS_read_back [OF wf ok name refl, where rest = "[]"] by auto

text \<open>The loop that trims the end of a header returns: it takes off exactly the entries behind
  the last one that is not a blank text line, counts them, and leaves the others as they were.\<close>

theorem kwdb_ReadFITS_trims:
  assumes "kw_wf db (gs @ bs) rs" "gs = [] \<or> \<not> blank_line (kw_entry db (last gs))" "\<forall>g \<in> set bs. blank_line (kw_entry db g)"
  shows "\<exists>db' rs'. trim_loop db nb = Some (nb + int (length bs), db') \<and> kw_wf db' gs rs' \<and> kw_view db' gs = kw_view db gs"
  using trim_loop_result [of db gs bs rs nb] assms by blast

text \<open>A text card leaves the array \<open>comment\<close> alone: a COMMENT line behind a keyword card is
  entered with the comment of that card, whatever its own comment was.\<close>

theorem kwdb_ReadFITS_stale_comment:
  assumes wf: "kw_wf db gs rs" and e: "fits_ok e" and t: "list_all c_isprint t" "length t \<le> 72" "t = [] \<or> last t \<noteq> blank"
  shows "\<exists>i j db'. read_cards True 0 0 com0 db (fits_card e @ format_card ''COMMENT'' t ''C'' own @ end_card) = Some (Some 2, db')
    \<and> kw_view db' (gs @ [i, j]) = kw_view db gs @ [(i, fits_norm e),
        (j, kw_args (Some ''COMMENT'') (Some t) (Some ''C'') (Some (e KComment)))]"
proof -
  let ?c = "format_card ''COMMENT'' t ''C'' own"
  note fc = fits_ok_card [OF e] and cc = comment_card [OF t, where own = own]
  have "\<exists>i db1. read_cards True 0 0 com0 db (fits_card e @ ?c @ end_card) = read_cards True 0 1 (fits_norm e KComment) db1 (?c @ end_card)
      \<and> kw_wf db1 (gs @ [i]) (i # rs) \<and> kw_view db1 (gs @ [i]) = kw_view db gs @ [(i, fits_norm e)]"
    using read_cards_step [OF wf fc(1) fc(3) [of com0] fc(2), where n = 0 and rest = "?c @ end_card"] fc(4-6) by (simp add: kw_args_eta)
  then obtain i db1 where 1: "read_cards True 0 0 com0 db (fits_card e @ ?c @ end_card) = read_cards True 0 1 (fits_norm e KComment) db1 (?c @ end_card)"
    and w: "kw_wf db1 (gs @ [i]) (i # rs)" and v: "kw_view db1 (gs @ [i]) = kw_view db gs @ [(i, fits_norm e)]" by blast
  have com: "fits_norm e KComment = e KComment" by (simp add: fits_norm_def)
  have cm: "list_all c_isprint (e KComment)" "length (e KComment) < 1000" using fc(4,5) [of KComment] com by simp_all
  have "\<not> streq (keyword_field ?c) ''END''" unfolding cc(2) by (simp add: c_tolower_def c_isupper_def c_code_def char_of_def)
  moreover have "list_all c_isprint ''COMMENT''" "list_all c_isprint ''C''" by (simp_all add: c_isprint_def c_code_def)
  ultimately obtain j db2 where
    "read_cards True 0 1 (e KComment) db1 (?c @ end_card) = read_cards True 0 2 (e KComment) db2 end_card"
    "kw_view db2 ((gs @ [i]) @ [j]) = kw_view db1 (gs @ [i]) @ [(j, kw_args (Some ''COMMENT'') (Some t) (Some ''C'') (Some (e KComment)))]"
    using read_cards_step [OF w cc(1) cc(3) [where old = "e KComment"], where n = 1 and rest = end_card] cm t by auto
  then show ?thesis using 1 v com read_cards_end [of 2 _ db2 "[]"] by (intro exI [of _ i] exI [of _ j] exI [of _ db2]) simp
qed

subsection \<open>Instances\<close>

lemma sample_chars:
  "c_isprint CHR ''E''" "c_isprint CHR ''X''" "c_isprint CHR ''P''" "c_isprint CHR ''T''" "c_isprint CHR ''I''" "c_isprint CHR ''M''"
  "c_isprint CHR ''O''" "c_isprint CHR ''B''" "c_isprint CHR ''J''" "c_isprint CHR ''C''" "c_isprint CHR ''1''" "c_isprint CHR ''0''"
  "c_isprint CHR ''s''" "c_isprint CHR ''e''" "c_isprint CHR ''c''" "c_isprint CHR ''o''" "c_isprint CHR ''n''" "c_isprint CHR ''d''" "c_isprint CHR ''m''"
  by (simp_all add: c_isprint_def c_code_def)

lemma sample_fits:
  "fits_ok (kw_args (Some ''EXPTIME'') (Some ''10'') (Some ''N'') (Some ''seconds''))"
  "fits_ok (kw_args (Some ''OBJECT'') (Some ''dome'') (Some ''S'') None)"
proof -
  have "key_ok ''EXPTIME''" "key_ok ''OBJECT''"
    by (simp_all add: key_ok_def sample_chars streq_iff c_tolower_def c_isupper_def c_code_def char_of_def)
  moreover have "num_ok ''10'' ''N''" by (simp add: num_ok_def sample_chars)
  moreover have "str_ok ''dome''" by (simp add: str_ok_def sample_chars)
  moreover have "com_ok ''seconds''" "com_ok []" by (simp_all add: com_ok_def sample_chars)
  ultimately show "fits_ok (kw_args (Some ''EXPTIME'') (Some ''10'') (Some ''N'') (Some ''seconds''))"
    "fits_ok (kw_args (Some ''OBJECT'') (Some ''dome'') (Some ''S'') None)"
    by (simp_all add: fits_ok_def opt_str_def)
qed

theorem kwdb_FITS_roundtrip_witness:
  "\<exists>out db' gs'. kwdb_WriteFITS (\<lambda>_. True) kw_hdr2 = Some (2, out) \<and> length out = 160
    \<and> kwdb_OpenFITS True True ''hdr'' (Some (out @ end_card)) 0 [] = Some (Some (db', Some 0))
    \<and> map snd (kw_view db' gs') = [kw_args (Some ''EXPTIME'') (Some ''10'') (Some ''N'') (Some ''seconds''),
        kw_args (Some ''OBJECT'') (Some ''dome    '') (Some ''S'') None]"
proof -
  let ?a = "kw_args (Some ''EXPTIME'') (Some ''10'') (Some ''N'') (Some ''seconds'')" and ?b = "kw_args (Some ''OBJECT'') (Some ''dome'') (Some ''S'') None"
  have v: "kw_view kw_hdr2 [1, 2] = [(1, ?a), (2, ?b)]" by (rule conjunct2 [OF kw_hdr2_wf])
  then have "kw_entry kw_hdr2 1 = ?a" "kw_entry kw_hdr2 2 = ?b" unfolding kw_view_def by simp_all
  then have ok: "\<forall>g \<in> set [1, 2]. fits_ok (kw_entry kw_hdr2 g)" using sample_fits by (simp add: ball_Un)
  have len: "length ''hdr'' + 2 \<le> DEF_SZSBUF" by (simp add: DEF_SZSBUF_def)
  have na: "fits_norm ?a = ?a" by (simp add: fits_norm_def)
  have nb: "fits_norm ?b = kw_args (Some ''OBJECT'') (Some ''dome    '') (Some ''S'') None"
  proof
    fix k show "fits_norm ?b k = kw_args (Some ''OBJECT'') (Some ''dome    '') (Some ''S'') None k"
      by (cases k) (simp_all add: fits_norm_def pad8_def opt_str_def numeral_eq_Suc)
  qed
  have m: "map (fits_norm \<circ> snd) (kw_view kw_hdr2 [1, 2]) = [?a, kw_args (Some ''OBJECT'') (Some ''dome    '') (Some ''S'') None]"
    unfolding v using na nb by simp
  obtain out db' gs' where "kwdb_WriteFITS (\<lambda>_. True) kw_hdr2 = Some (int (length [1::nat, 2]), out)" "length out = 80 * length [1::nat, 2]"
    "kwdb_OpenFITS True True ''hdr'' (Some (out @ end_card)) 0 [] = Some (Some (db', Some 0))"
    "map snd (kw_view db' gs') = map (fits_norm \<circ> snd) (kw_view kw_hdr2 [1, 2])"
    using kwdb_FITS_roundtrip [OF conjunct1 [OF kw_hdr2_wf] ok len, of "[]"] by blast
  then show ?thesis unfolding m by (intro exI [of _ out] exI [of _ db'] exI [of _ gs']) simp
qed

text \<open>A blank line behind the first entry of the small header.\<close>

definition kw_hdr3 :: kwdb where
  "kw_hdr3 = snd (the (kwdb_AddEntry True kw_hdr1 None None (Some ''T'') None))"

theorem kwdb_ReadFITS_trims_witness:
  "\<exists>db' rs'. trim_loop kw_hdr3 0 = Some (1, db') \<and> kw_wf db' [1] rs' \<and> kw_view db' [1] = kw_view kw_hdr3 [1]"
proof -
  have args: "kw_name_arg None" "kw_arg None" "kw_arg (Some ''T'')"
    by (simp_all add: kw_arg_def kw_name_arg_def opt_str_def hash_nonneg NUL_def DEF_SZSBUF_def)
  have w: "kw_wf kw_hdr3 ([1] @ [2]) [1]" and v: "kw_view kw_hdr3 [1, 2] = kw_view kw_hdr1 [1] @ [(2, kw_args None None (Some ''T'') None)]"
    using AddEntry_step [OF _ args(1,2,3,2), of kw_hdr1 "[1]" "[1]"] kw_hdr1_wf by (auto simp: kw_hdr3_def opt_str_def)
  have e: "kw_entry kw_hdr3 1 = kw_args (Some ''EXPTIME'') (Some ''10'') (Some ''N'') (Some ''seconds'')"
    "kw_entry kw_hdr3 2 = kw_args None None (Some ''T'') None"
    using v conjunct1 [OF conjunct2 [OF kw_hdr1_wf]] unfolding kw_view_def by simp_all
  have "[1] = [] \<or> \<not> blank_line (kw_entry kw_hdr3 (last [1]))" unfolding last.simps by (simp add: e [unfolded One_nat_def] blank_line_def char0_def)
  moreover have "\<forall>g \<in> set [2]. blank_line (kw_entry kw_hdr3 g)" by (simp add: e blank_line_def char0_def opt_str_def)
  ultimately show ?thesis using kwdb_ReadFITS_trims [OF w, of 0] by simp
qed

theorem kwdb_ReadFITS_stale_comment_witness:
  "\<exists>j db'. read_cards True 0 0 [] kw_hdr0 (fits_card (kw_args (Some ''EXPTIME'') (Some ''10'') (Some ''N'') (Some ''seconds''))
      @ format_card ''COMMENT'' ''dome'' ''C'' [] @ end_card) = Some (Some 2, db')
    \<and> kw_entry db' j KName = ''COMMENT'' \<and> kw_entry db' j KComment = ''seconds''"
proof -
  have t: "list_all c_isprint ''dome''" "length ''dome'' \<le> 72" "''dome'' = [] \<or> last ''dome'' \<noteq> blank" by (simp_all add: sample_chars)
  obtain j db' where "read_cards True 0 0 [] kw_hdr0 (fits_card (kw_args (Some ''EXPTIME'') (Some ''10'') (Some ''N'') (Some ''seconds''))
      @ format_card ''COMMENT'' ''dome'' ''C'' [] @ end_card) = Some (Some 2, db')"
    "kw_entry db' j = kw_args (Some ''COMMENT'') (Some ''dome'') (Some ''C'') (Some ''seconds'')"
    using kwdb_ReadFITS_stale_comment [OF conjunct1 [OF kw_hdr0_wf] sample_fits(1) t, of "[]" "[]"] by (auto simp: kw_view_def)
  then show ?thesis by (intro exI [of _ j] exI [of _ db']) (simp add: opt_str_def)
qed

end
