(* ===== verification/KwdbUpdate.thy ===== *)
theory KwdbUpdate
  imports KwdbFits
begin

section \<open>Updating the header of a FITS file (kwdb_UpdateFITS)\<close>

text \<open>
  Files are byte strings by their names.  \<open>fits_os\<close> tells which of the system calls of \<open>kwdb_UpdateFITS\<close>
  succeed; \<open>fo_mktemp\<close> gives the name of the scratch file.  The result is the function value and the
  files; \<open>None\<close> is a write outside \<open>tmpfile\<close> or a fault in the database.  A \<open>read\<close> of a regular file
  returns all the bytes asked for unless the file ends before.
\<close>

record fits_os =
  fo_open :: "string \<Rightarrow> bool"
  fo_create :: "string \<Rightarrow> bool"
  fo_mktemp :: "string \<Rightarrow> string option"
  fo_block :: "nat \<Rightarrow> bool"
  fo_copy :: bool
  fo_close_new :: bool
  fo_close_old :: bool
  fo_rename :: bool
  fo_reopen :: bool
  fo_card :: "nat \<Rightarrow> bool"
  fo_end :: bool
  fo_close :: bool

definition has_end :: "string \<Rightarrow> bool" where
  "has_end block = list_ex (\<lambda>i. streq (cstr (take 8 (drop (80 * i) block))) ''END'') [0..<36]"

text \<open>The capacity of the header and what the descriptor has not read yet.\<close>

function count_cards :: "string \<Rightarrow> int \<Rightarrow> int \<times> string" where
  "count_cards rest maxcards =
     (if length rest < 2880 then (maxcards, [])
      else if has_end (take 2880 rest) then (maxcards + 35, drop 2880 rest)
      else count_cards (drop 2880 rest) (maxcards + 36))"
  by pat_completeness auto
termination by (relation "measure (\<lambda>(rest, _). length rest)") auto

declare count_cards.simps [simp del]

definition overwrite :: "string \<Rightarrow> string \<Rightarrow> string" where
  "overwrite old s = s @ drop (length s) old"

text \<open>The cards and the last one are written from the start of the file.\<close>

definition put_header :: "fits_os \<Rightarrow> (string \<rightharpoonup> string) \<Rightarrow> kwdb \<Rightarrow> string \<Rightarrow> string \<Rightarrow> (int \<times> (string \<rightharpoonup> string)) option" where
  "put_header os fs db filename content =
     (case kwdb_WriteFITS (fo_card os) db of
        None \<Rightarrow> None
      | Some (n, out) \<Rightarrow>
          if n < 0 \<or> \<not> fo_end os then Some (-1, fs(filename \<mapsto> overwrite content out))
          else Some (if fo_close os then 0 else -1, fs(filename \<mapsto> overwrite content (out @ end_card))))"

text \<open>The template of the scratch file is in the directory of the file.\<close>

definition tmp_template :: "string \<Rightarrow> string" where
  "tmp_template filename = rev (dropWhile (\<lambda>c. c \<noteq> CHR ''/'') (rev filename)) @ ''kwdb.XXXXXX''"

definition hdr_blocks :: "kwdb \<Rightarrow> int \<Rightarrow> nat" where
  "hdr_blocks db npad = nat ((kwdb_Len db + npad + 1) + 35 div 36)"

definition extend_file :: "fits_os \<Rightarrow> (string \<rightharpoonup> string) \<Rightarrow> kwdb \<Rightarrow> string \<Rightarrow> string \<Rightarrow> int \<Rightarrow> (int \<times> (string \<rightharpoonup> string)) option" where
  "extend_file os fs db filename rest npad =
     (if 512 < length filename \<or> 512 < length (tmp_template filename) + 2 then None
      else case fo_mktemp os (tmp_template filename) of
        None \<Rightarrow> Some (-1, fs)
      | Some tmpfile \<Rightarrow>
          if \<not> fo_create os tmpfile then Some (-1, fs)
          else if \<not> list_all (fo_block os) [0..<hdr_blocks db npad] \<or> \<not> fo_copy os \<or> \<not> fo_close_new os
               \<or> \<not> fo_close_old os \<or> \<not> fo_rename os then Some (-1, fs(tmpfile := None))
          else
            let content = replicate (2880 * hdr_blocks db npad) NUL @ rest;
                fs1 = fs(tmpfile := None, filename \<mapsto> content)
            in if fo_reopen os then put_header os fs1 db filename content else Some (-1, fs1))"

definition kwdb_UpdateFITS ::
  "fits_os \<Rightarrow> (string \<rightharpoonup> string) \<Rightarrow> kwdb \<Rightarrow> string \<Rightarrow> bool \<Rightarrow> bool \<Rightarrow> int \<Rightarrow> (int \<times> (string \<rightharpoonup> string)) option" where
  "kwdb_UpdateFITS os fs db filename update ext npad =
     (if update then
        (case fs filename of
           None \<Rightarrow> Some (-1, fs)
         | Some content \<Rightarrow>
             if \<not> fo_open os filename then Some (-1, fs)
             else case count_cards content 0 of (maxcards, rest) \<Rightarrow>
               if maxcards < kwdb_Len db then
                 (if \<not> ext then Some (-1, fs) else extend_file os fs db filename rest npad)
               else put_header os fs db filename content)
      else if \<not> fo_create os filename then Some (-1, fs)
      else put_header os fs db filename (case fs filename of None \<Rightarrow> [] | Some content \<Rightarrow> content))"

subsection \<open>Properties\<close>

definition os_works :: "fits_os \<Rightarrow> string \<Rightarrow> bool" where
  "os_works os filename \<longleftrightarrow> fo_open os filename \<and> fo_create os filename \<and> fo_card os = (\<lambda>_. True) \<and> fo_end os \<and> fo_close os"

definition kw_cards :: "kwdb \<Rightarrow> nat list \<Rightarrow> string" where
  "kw_cards db gs = concat (map (\<lambda>g. fits_card (kw_entry db g)) gs) @ end_card"

lemma put_header_writes:
  assumes "links_ok db gs" "os_works os filename"
  shows "put_header os fs db filename content = Some (0, fs(filename \<mapsto> overwrite content (kw_cards db gs)))"
  using assms(2) WriteFITS_result [OF assms(1)] by (simp add: put_header_def os_works_def kw_cards_def)


lemma cstr_no_nul: "NUL \<notin> set s \<Longrightarrow> cstr s = s"
  by (auto simp: cstr_def takeWhile_eq_all_conv)

lemma no_end_seen:
  assumes "NUL \<notin> set block" "length block = 2880"
  shows "\<not> has_end block"
proof -
  have "\<not> streq (cstr (take 8 (drop (80 * i) block))) ''END''" if "i < 36" for i
  proof -
    have n: "NUL \<notin> set (take 8 (drop (80 * i) block))" using assms(1) by (meson in_set_dropD in_set_takeD)
    have "length (cstr (take 8 (drop (80 * i) block))) = 8" using that assms(2) unfolding cstr_no_nul [OF n] by simp
    then have "length (map c_tolower (cstr (take 8 (drop (80 * i) block)))) \<noteq> length (map c_tolower ''END'')" by simp
    then show ?thesis unfolding streq_iff by (metis (no_types))
  qed
  then show ?thesis by (auto simp: has_end_def list_ex_iff)
qed

lemma count_cards_all:
  assumes "NUL \<notin> set rest"
  shows "count_cards rest n = (n + 36 * int (length rest div 2880), [])"
  using assms
proof (induction rest n rule: count_cards.induct)
  case (1 rest n)
  show ?case
  proof (cases "length rest < 2880")
    case True
    then show ?thesis by (subst count_cards.simps) simp
  next
    case False
    have e: "\<not> has_end (take 2880 rest)" using False "1.prems" by (intro no_end_seen) (auto dest: in_set_takeD)
    have d: "length rest div 2880 = Suc ((length rest - 2880) div 2880)" using False by (simp add: le_div_geq)
    have "NUL \<notin> set (drop 2880 rest)" using "1.prems" by (auto dest: in_set_dropD)
    then show ?thesis using "1.IH" [OF False e] False e d by (subst count_cards.simps) simp
  qed
qed

text \<open>C40.  An update does not stop at the end of the header: the last card of a header ends in blanks and is not
  recognised, so in a file without zero bytes every block counts as header, and a database with
  more entries than the header has cards is written over the data behind it, whether or not the file
  may be extended, and the call reports success.\<close>

theorem kwdb_UpdateFITS_overwrites_data:
  assumes wf: "kw_wf db gs rs" and ok: "\<forall>g \<in> set gs. fits_ok (kw_entry db g)" and os: "os_works os filename"
    and fil: "fs filename = Some (hdr @ dat)" "NUL \<notin> set (hdr @ dat)" "length hdr = 2880 * k"
    and big: "36 * k \<le> length gs" "length gs < 36 * (length (hdr @ dat) div 2880)"
  shows "\<exists>fs' c. kwdb_UpdateFITS os fs db filename True ext npad = Some (0, fs') \<and> fs' filename = Some c \<and> length c = length (hdr @ dat)
    \<and> take (80 * (length gs + 1 - 36 * k)) (drop (2880 * k) c) = drop (2880 * k) (kw_cards db gs)"
proof -
  have l: "links_ok db gs" using wf by (simp add: kw_wf_def)
  have len: "kwdb_Len db = int (length gs)" using l by (simp add: links_ok_def kwdb_Len_def)
  have cards: "length (kw_cards db gs) = 80 * (length gs + 1)"
    using FITS_read_back [OF wf ok _ refl, of "[]"] by (auto simp: kw_cards_def end_card_def DEF_SZSBUF_def)
  have "80 * (length gs + 1) \<le> 80 * 36 * (length (hdr @ dat) div 2880)" using big(2) by simp
  also have "\<dots> \<le> length (hdr @ dat)" using times_div_less_eq_dividend [of 2880 "length (hdr @ dat)"] by simp
  finally have fit: "length (kw_cards db gs) \<le> length (hdr @ dat)" using cards by simp
  let ?c = "overwrite (hdr @ dat) (kw_cards db gs)"
  have "count_cards (hdr @ dat) 0 = (36 * int (length (hdr @ dat) div 2880), [])" using count_cards_all [OF fil(2)] by simp
  then have "kwdb_UpdateFITS os fs db filename True ext npad = Some (0, fs(filename \<mapsto> ?c))"
    using put_header_writes [OF l os] os fil(1) big(2) len by (simp add: kwdb_UpdateFITS_def os_works_def)
  moreover have "length ?c = length (hdr @ dat)" using fit by (simp add: overwrite_def)
  moreover have "take (80 * (length gs + 1 - 36 * k)) (drop (2880 * k) ?c) = drop (2880 * k) (kw_cards db gs)"
    using big(1) cards by (simp add: overwrite_def diff_mult_distrib2)
  ultimately show ?thesis by (intro exI [of _ "fs(filename \<mapsto> ?c)"] exI [of _ ?c]) simp
qed

subsection \<open>Examples\<close>

definition sample_fos :: fits_os where
  "sample_fos = \<lparr>fo_open = (\<lambda>_. True), fo_create = (\<lambda>_. True), fo_mktemp = (\<lambda>_. None), fo_block = (\<lambda>_. True), fo_copy = True, fo_close_new = True,
     fo_close_old = True, fo_rename = True, fo_reopen = True, fo_card = (\<lambda>_. True), fo_end = True, fo_close = True\<rparr>"

lemma sample_fos_works: "os_works sample_fos filename"
  by (simp add: os_works_def sample_fos_def)

text \<open>A database with any number of entries.\<close>

lemma many_entries:
  "\<exists>db gs rs. kw_wf db gs rs \<and> length gs = n \<and> (\<forall>g \<in> set gs. fits_ok (kw_entry db g))"
proof (induction n)
  case 0
  show ?case using kw_hdr0_wf by (intro exI [of _ kw_hdr0] exI [of _ "[]"]) auto
next
  case (Suc n)
  then obtain db gs rs where d: "kw_wf db gs rs" "length gs = n" "\<forall>g \<in> set gs. fits_ok (kw_entry db g)" by blast
  obtain i db' rs' where a: "kw_wf db' (gs @ [i]) rs'"
      "kw_view db' (gs @ [i]) = kw_view db gs @ [(i, kw_args (Some ''EXPTIME'') (Some ''10'') (Some ''N'') (Some ''seconds''))]"
    using AddEntry_step [OF d(1) sample_args(1,5,6,7)] by blast
  have "kw_entry db' i = kw_args (Some ''EXPTIME'') (Some ''10'') (Some ''N'') (Some ''seconds'')" "\<forall>g \<in> set gs. kw_entry db' g = kw_entry db g"
    using a(2) by (simp_all add: kw_view_def)
  then have "\<forall>g \<in> set (gs @ [i]). fits_ok (kw_entry db' g)" using d(3) sample_fits(1) by simp
  then show ?case using a(1) d(2) by (intro exI [of _ db'] exI [of _ "gs @ [i]"] exI [of _ rs']) simp
qed



theorem kwdb_UpdateFITS_overwrites_data_witness:
  "\<exists>db gs fs' c. length gs = 40 \<and> kwdb_UpdateFITS sample_fos [''a.fits'' \<mapsto> (end_card @ replicate 2800 blank) @ replicate 8640 (CHR ''x'')] db ''a.fits'' True False 0 = Some (0, fs')
    \<and> fs' ''a.fits'' = Some c \<and> take 400 (drop 2880 c) = drop 2880 (kw_cards db gs)"
proof -
  obtain db gs rs where d: "kw_wf db gs rs" "length gs = 40" "\<forall>g \<in> set gs. fits_ok (kw_entry db g)" using many_entries by blast
  let ?h = "end_card @ replicate 2800 blank" and ?d = "replicate 8640 (CHR ''x'')"
  have f: "[''a.fits'' \<mapsto> ?h @ ?d] ''a.fits'' = Some (?h @ ?d)" "NUL \<notin> set (?h @ ?d)" "length ?h = 2880 * 1"
    by (auto simp: end_card_def NUL_def)
  have big: "36 * 1 \<le> length gs" "length gs < 36 * (length (?h @ ?d) div 2880)" using d(2) by (simp_all add: end_card_def)
  show ?thesis using kwdb_UpdateFITS_overwrites_data [OF d(1,3) sample_fos_works, where fs = "[''a.fits'' \<mapsto> ?h @ ?d]" and filename = "''a.fits''" and hdr = ?h and dat = ?d
      and k = 1 and ext = False and npad = 0, OF f big] d(2) by auto
qed

end
