(* ===== verification/SmState.thy ===== *)
theory SmState
  imports Prelude
begin

section \<open>The process state table (lib/smc/smState.c)\<close>

text \<open>
  The cache and every page carry a table of \<open>MAX_PROCS\<close> entries, one per attached
  process, searched by process id.  The model of each routine takes the calling
  process's id (\<open>smPid()\<close>, which caches \<open>getpid()\<close>) and, where dead processes are
  pruned, the predicate \<open>alive\<close>: whether \<open>/proc/<pid>\<close> is readable.  The library is
  built with \<open>-DLINUX\<close>, so the pruning code is compiled in.  Diagnostics written to
  stderr are not modelled.

  A table is a list of length \<open>MAX_PROCS\<close>.  The loops \<open>for (i=0; sa[i].pid && i <
  MAX_PROCS; i++)\<close> stop at the first entry whose pid is 0.
\<close>

definition MAX_PROCS :: nat where
  "MAX_PROCS = 8"

record smState_t =
  st_smc :: addr_t
  st_pid :: pid_t
  st_atime :: cdouble
  st_ltime :: cdouble
  st_utime :: cdouble
  st_attached :: int
  st_reader :: int
  st_addr :: addr_t

type_synonym pstate = "smState_t list"

definition zero_state :: smState_t where
  "zero_state = \<lparr>st_smc = 0, st_pid = 0, st_atime = 0, st_ltime = 0, st_utime = 0,
     st_attached = 0, st_reader = 0, st_addr = 0\<rparr>"

definition zero_pstate :: pstate where
  "zero_pstate = replicate MAX_PROCS zero_state"

definition smStateInit :: "pstate \<Rightarrow> pstate" where
  "smStateInit sa = map (\<lambda>s. s\<lparr>st_pid := 0, st_atime := 0, st_addr := 0\<rparr>) sa"

text \<open>\<open>ERR\<close> of the lookup is \<open>None\<close>.\<close>

definition smStateLookupByPid :: "pstate \<Rightarrow> pid_t \<Rightarrow> nat option" where
  "smStateLookupByPid sa pid = first_index (\<lambda>s. st_pid s = pid) sa"

fun smStateClean :: "(pid_t \<Rightarrow> bool) \<Rightarrow> pstate \<Rightarrow> pstate" where
  "smStateClean alive [] = []"
| "smStateClean alive (s # sa) =
     (if st_pid s = 0 then s # sa
      else (if alive (st_pid s) then s else zero_state) # smStateClean alive sa)"

text \<open>The scan shared by \<open>smStateDefined\<close> and \<open>smStateAdd\<close>.\<close>

fun pid_before_hole :: "pid_t \<Rightarrow> pstate \<Rightarrow> bool" where
  "pid_before_hole pid [] = False"
| "pid_before_hole pid (s # sa) =
     (if st_pid s = 0 then False
      else if st_pid s = pid then True
      else pid_before_hole pid sa)"

definition smStateDefined :: "pid_t \<Rightarrow> pstate \<Rightarrow> bool" where
  "smStateDefined pid sa = pid_before_hole pid sa"

text \<open>The index of the first entry with pid 0, the table's length when there is none.\<close>

fun first_hole :: "pstate \<Rightarrow> nat" where
  "first_hole [] = 0"
| "first_hole (s # sa) = (if st_pid s = 0 then 0 else Suc (first_hole sa))"

text \<open>
  \<open>smStateAdd\<close> falls off with a plain \<open>return\<close> when the process is already listed: its
  value is then unspecified, \<open>None\<close> here.  The fields \<open>smc\<close> and \<open>reader\<close> of the slot keep
  their old values.
\<close>

definition smStateAdd ::
  "(pid_t \<Rightarrow> bool) \<Rightarrow> pid_t \<Rightarrow> pstate \<Rightarrow> cdouble \<Rightarrow> addr_t \<Rightarrow> int \<Rightarrow> int option \<times> pstate" where
  "smStateAdd alive pid sa atime addr attached =
     (let sa' = smStateClean alive sa in
      if pid_before_hole pid sa' then (None, sa')
      else let slot = first_hole sa' in
        if slot < MAX_PROCS then
          (Some OK, sa'[slot := (sa' ! slot)\<lparr>st_pid := pid,
             st_atime := (if attached \<noteq> 0 then atime else 0),
             st_ltime := atime, st_utime := 0, st_addr := addr,
             st_attached := attached\<rparr>])
        else (Some ERR, sa'))"

function state_shift :: "nat \<Rightarrow> pstate \<Rightarrow> pstate" where
  "state_shift i sa =
     (if i < MAX_PROCS - 1 then state_shift (Suc i) (sa[i := sa ! Suc i]) else sa)"
  by pat_completeness auto
termination
  by (relation "measure (\<lambda>(i, sa). MAX_PROCS - 1 - i)") auto

declare state_shift.simps [simp del]

definition smStateRemove :: "(pid_t \<Rightarrow> bool) \<Rightarrow> pid_t \<Rightarrow> pstate \<Rightarrow> pid_t \<Rightarrow> int \<times> pstate" where
  "smStateRemove alive mypid sa rmpid =
     (let pid = (if rmpid \<noteq> 0 then rmpid else mypid) in
      case smStateLookupByPid sa pid of
        None \<Rightarrow> (ERR, sa)
      | Some index \<Rightarrow>
          (OK, state_shift index ((smStateClean alive sa)[index := zero_state])))"

text \<open>The setters: nothing is written when the calling process is not in the table.\<close>

definition st_modify :: "pid_t \<Rightarrow> (smState_t \<Rightarrow> smState_t) \<Rightarrow> pstate \<Rightarrow> pstate" where
  "st_modify pid f sa =
     (case smStateLookupByPid sa pid of None \<Rightarrow> sa | Some i \<Rightarrow> sa[i := f (sa ! i)])"

definition st_entry :: "pid_t \<Rightarrow> pstate \<Rightarrow> smState_t option" where
  "st_entry pid sa = map_option (\<lambda>i. sa ! i) (smStateLookupByPid sa pid)"

definition smStateSetATime :: "pid_t \<Rightarrow> pstate \<Rightarrow> cdouble \<Rightarrow> pstate" where
  "smStateSetATime pid sa atime = st_modify pid (\<lambda>s. s\<lparr>st_atime := atime\<rparr>) sa"

definition smStateGetATime :: "pid_t \<Rightarrow> pstate \<Rightarrow> cdouble" where
  "smStateGetATime pid sa = (case st_entry pid sa of None \<Rightarrow> 0 | Some s \<Rightarrow> st_atime s)"

definition smStateSetLTime :: "pid_t \<Rightarrow> pstate \<Rightarrow> cdouble \<Rightarrow> pstate" where
  "smStateSetLTime pid sa ltime = st_modify pid (\<lambda>s. s\<lparr>st_ltime := ltime\<rparr>) sa"

definition smStateGetLTime :: "pid_t \<Rightarrow> pstate \<Rightarrow> cdouble" where
  "smStateGetLTime pid sa = (case st_entry pid sa of None \<Rightarrow> 0 | Some s \<Rightarrow> st_ltime s)"

definition smStateSetUTime :: "pid_t \<Rightarrow> pstate \<Rightarrow> cdouble \<Rightarrow> pstate" where
  "smStateSetUTime pid sa utime = st_modify pid (\<lambda>s. s\<lparr>st_utime := utime\<rparr>) sa"

definition smStateGetUTime :: "pid_t \<Rightarrow> pstate \<Rightarrow> cdouble" where
  "smStateGetUTime pid sa = (case st_entry pid sa of None \<Rightarrow> 0 | Some s \<Rightarrow> st_utime s)"

definition smStateSetReader :: "pid_t \<Rightarrow> pstate \<Rightarrow> int \<Rightarrow> pstate" where
  "smStateSetReader pid sa reader = st_modify pid (\<lambda>s. s\<lparr>st_reader := reader\<rparr>) sa"

definition smStateGetReader :: "pid_t \<Rightarrow> pstate \<Rightarrow> int" where
  "smStateGetReader pid sa = (case st_entry pid sa of None \<Rightarrow> ERR | Some s \<Rightarrow> st_reader s)"

definition smStateSetAddr :: "pid_t \<Rightarrow> pstate \<Rightarrow> addr_t \<Rightarrow> pstate" where
  "smStateSetAddr pid sa addr = st_modify pid (\<lambda>s. s\<lparr>st_addr := addr\<rparr>) sa"

definition smStateGetAddr :: "pid_t \<Rightarrow> pstate \<Rightarrow> addr_t" where
  "smStateGetAddr pid sa = (case st_entry pid sa of None \<Rightarrow> 0 | Some s \<Rightarrow> st_addr s)"

definition smStateSetSMC :: "pid_t \<Rightarrow> pstate \<Rightarrow> addr_t \<Rightarrow> pstate" where
  "smStateSetSMC pid sa smc = st_modify pid (\<lambda>s. s\<lparr>st_smc := smc\<rparr>) sa"

definition smStateGetSMC :: "pid_t \<Rightarrow> pstate \<Rightarrow> addr_t" where
  "smStateGetSMC pid sa = (case st_entry pid sa of None \<Rightarrow> 0 | Some s \<Rightarrow> st_smc s)"

definition smStateSetAttached :: "pid_t \<Rightarrow> pstate \<Rightarrow> int \<Rightarrow> pstate" where
  "smStateSetAttached pid sa attached = st_modify pid (\<lambda>s. s\<lparr>st_attached := attached\<rparr>) sa"

definition smStateGetAttached :: "pid_t \<Rightarrow> pstate \<Rightarrow> int" where
  "smStateGetAttached pid sa = (case st_entry pid sa of None \<Rightarrow> 0 | Some s \<Rightarrow> st_attached s)"

lemmas st_setter_defs =
  smStateSetATime_def smStateSetLTime_def smStateSetUTime_def smStateSetReader_def
  smStateSetAddr_def smStateSetSMC_def smStateSetAttached_def

lemmas st_getter_defs =
  smStateGetATime_def smStateGetLTime_def smStateGetUTime_def smStateGetReader_def
  smStateGetAddr_def smStateGetSMC_def smStateGetAttached_def

subsection \<open>The contract of a table searched by process id\<close>

text \<open>
  What the page and cache operations rely on: an update through one process's entry is
  seen by that process and by no other.
\<close>

locale process_table =
  fixes key :: "'e \<Rightarrow> pid_t"
    and entry :: "pid_t \<Rightarrow> 't \<Rightarrow> 'e option"
    and modify :: "pid_t \<Rightarrow> ('e \<Rightarrow> 'e) \<Rightarrow> 't \<Rightarrow> 't"
  assumes entry_key: "entry p t = Some e \<Longrightarrow> key e = p"
    and entry_modify_own:
      "(\<And>e. key (f e) = key e) \<Longrightarrow> entry p (modify p f t) = map_option f (entry p t)"
    and entry_modify_other:
      "(\<And>e. key (f e) = key e) \<Longrightarrow> q \<noteq> p \<Longrightarrow> entry q (modify p f t) = entry q t"
begin

lemma modify_read:
  assumes "\<And>e. key (f e) = key e" and "entry p t = Some e"
  shows "entry p (modify p f t) = Some (f e)"
  using entry_modify_own [OF assms(1)] assms(2) by simp

lemma modify_absent:
  assumes "\<And>e. key (f e) = key e" and "entry p t = None"
  shows "entry q (modify p f t) = entry q t"
proof (cases "q = p")
  case True
  then show ?thesis using entry_modify_own [OF assms(1)] assms(2) by simp
next
  case False
  then show ?thesis using entry_modify_other [OF assms(1)] by simp
qed

lemma modify_commute_read:
  assumes f: "\<And>e. key (f e) = key e" and g: "\<And>e. key (g e) = key e" and pq: "p \<noteq> q"
  shows "entry r (modify p f (modify q g t)) = entry r (modify q g (modify p f t))"
proof -
  consider "r = p" | "r = q" | "r \<noteq> p" "r \<noteq> q" by blast
  then show ?thesis
  proof cases
    case 1
    then show ?thesis using pq by (simp add: entry_modify_own f g entry_modify_other)
  next
    case 2
    then show ?thesis using pq by (simp add: entry_modify_own f g entry_modify_other)
  next
    case 3
    then show ?thesis by (simp add: entry_modify_other f g)
  qed
qed

end

lemma length_st_modify [simp]: "length (st_modify pid f sa) = length sa"
  by (simp add: st_modify_def split: option.splits)

lemma lookup_pid [dest]:
  "smStateLookupByPid sa pid = Some i \<Longrightarrow> i < length sa \<and> st_pid (sa ! i) = pid"
  by (auto simp: smStateLookupByPid_def first_index_Some)

lemma nth_st_modify:
  "st_modify pid f sa ! j
    = (if smStateLookupByPid sa pid = Some j then f (sa ! j) else sa ! j)"
  by (auto simp: st_modify_def nth_list_update split: option.splits)

lemma lookup_st_modify:
  assumes "\<And>s. st_pid (f s) = st_pid s"
  shows "smStateLookupByPid (st_modify pid f sa) q = smStateLookupByPid sa q"
  unfolding smStateLookupByPid_def [of _ q]
  by (rule first_index_cong_pointwise) (simp_all add: nth_st_modify assms)

interpretation st: process_table st_pid st_entry st_modify
proof
  fix p t and e :: smState_t
  assume "st_entry p t = Some e"
  then show "st_pid e = p" by (auto simp: st_entry_def)
next
  fix f :: "smState_t \<Rightarrow> smState_t" and p t
  assume f: "\<And>e. st_pid (f e) = st_pid e"
  show "st_entry p (st_modify p f t) = map_option f (st_entry p t)"
    by (cases "smStateLookupByPid t p")
      (simp_all add: st_entry_def lookup_st_modify f nth_st_modify)
next
  fix f :: "smState_t \<Rightarrow> smState_t" and p q :: pid_t and t
  assume f: "\<And>e. st_pid (f e) = st_pid e" and neq: "q \<noteq> p"
  then show "st_entry q (st_modify p f t) = st_entry q t"
    by (cases "smStateLookupByPid t q")
      (auto simp: st_entry_def lookup_st_modify nth_st_modify)
qed

lemma st_entry_modify:
  assumes "\<And>e. st_pid (f e) = st_pid e"
  shows "st_entry q (st_modify p f sa) = (if q = p then map_option f (st_entry q sa) else st_entry q sa)"
  using st.entry_modify_own [of f p sa] st.entry_modify_other [of f q p sa] assms by simp

lemma st_entry_setters [simp]:
  "st_entry q (smStateSetATime p sa x) = (if q = p then map_option (\<lambda>e. e\<lparr>st_atime := x\<rparr>) (st_entry q sa) else st_entry q sa)"
  "st_entry q (smStateSetLTime p sa x) = (if q = p then map_option (\<lambda>e. e\<lparr>st_ltime := x\<rparr>) (st_entry q sa) else st_entry q sa)"
  "st_entry q (smStateSetUTime p sa x) = (if q = p then map_option (\<lambda>e. e\<lparr>st_utime := x\<rparr>) (st_entry q sa) else st_entry q sa)"
  "st_entry q (smStateSetReader p sa y) = (if q = p then map_option (\<lambda>e. e\<lparr>st_reader := y\<rparr>) (st_entry q sa) else st_entry q sa)"
  "st_entry q (smStateSetAddr p sa y) = (if q = p then map_option (\<lambda>e. e\<lparr>st_addr := y\<rparr>) (st_entry q sa) else st_entry q sa)"
  "st_entry q (smStateSetSMC p sa y) = (if q = p then map_option (\<lambda>e. e\<lparr>st_smc := y\<rparr>) (st_entry q sa) else st_entry q sa)"
  "st_entry q (smStateSetAttached p sa y) = (if q = p then map_option (\<lambda>e. e\<lparr>st_attached := y\<rparr>) (st_entry q sa) else st_entry q sa)"
  by (simp_all add: st_setter_defs st_entry_modify)

lemma length_setters [simp]:
  "length (smStateSetATime p sa x) = length sa" "length (smStateSetLTime p sa x) = length sa"
  "length (smStateSetUTime p sa x) = length sa" "length (smStateSetReader p sa y) = length sa"
  "length (smStateSetAddr p sa y) = length sa" "length (smStateSetSMC p sa y) = length sa"
  "length (smStateSetAttached p sa y) = length sa"
  by (simp_all add: st_setter_defs)

subsection \<open>Pids listed before the first hole\<close>

definition listed :: "pstate \<Rightarrow> pid_t list" where
  "listed sa = takeWhile (\<lambda>p. p \<noteq> 0) (map st_pid sa)"

text \<open>A packed table: no entry is in use after the first free one, and no process is
  listed twice.\<close>

definition st_wf :: "pstate \<Rightarrow> bool" where
  "st_wf sa \<longleftrightarrow> length sa = MAX_PROCS \<and> distinct (listed sa)
     \<and> set (dropWhile (\<lambda>p. p \<noteq> 0) (map st_pid sa)) \<subseteq> {0}"

definition all_alive :: "(pid_t \<Rightarrow> bool) \<Rightarrow> pstate \<Rightarrow> bool" where
  "all_alive alive sa \<longleftrightarrow> (\<forall>s \<in> set sa. st_pid s \<noteq> 0 \<longrightarrow> alive (st_pid s))"

lemma listed_Nil [simp]: "listed [] = []"
  by (simp add: listed_def)

lemma listed_Cons [simp]:
  "listed (s # sa) = (if st_pid s = 0 then [] else st_pid s # listed sa)"
  by (simp add: listed_def)

lemma first_hole_listed: "first_hole sa = length (listed sa)"
  by (induction sa) auto

lemma first_hole_le: "first_hole sa \<le> length sa"
  by (induction sa) auto

lemma first_hole_pid: "first_hole sa < length sa \<Longrightarrow> st_pid (sa ! first_hole sa) = 0"
  by (induction sa) auto

lemma pid_before_hole_listed: "pid \<noteq> 0 \<Longrightarrow> pid_before_hole pid sa \<longleftrightarrow> pid \<in> set (listed sa)"
  by (induction sa) auto

lemma listed_in_table: "p \<in> set (listed sa) \<Longrightarrow> \<exists>s \<in> set sa. st_pid s = p \<and> p \<noteq> 0"
  by (induction sa) (auto split: if_splits)

lemma length_smStateClean [simp]: "length (smStateClean alive sa) = length sa"
  by (induction sa) auto

lemma smStateClean_all_alive: "all_alive alive sa \<Longrightarrow> smStateClean alive sa = sa"
  by (induction sa) (auto simp: all_alive_def)

lemma nth_smStateClean:
  "i < length sa \<Longrightarrow> smStateClean alive sa ! i = sa ! i
     \<or> (st_pid (sa ! i) \<noteq> 0 \<and> \<not> alive (st_pid (sa ! i)) \<and> smStateClean alive sa ! i = zero_state)"
  by (induction sa arbitrary: i) (auto simp: nth_Cons split: nat.splits)

lemma zero_state_pid [simp]: "st_pid zero_state = 0"
  by (simp add: zero_state_def)

lemma smStateClean_live:
  "i < length sa \<Longrightarrow> alive (st_pid (sa ! i)) \<Longrightarrow> smStateClean alive sa ! i = sa ! i"
  using nth_smStateClean [of i sa alive] by auto

text \<open>A process that is alive keeps its entry through the pruning.\<close>

lemma lookup_smStateClean:
  assumes "alive q" and "q \<noteq> 0"
  shows "smStateLookupByPid (smStateClean alive sa) q = smStateLookupByPid sa q"
  unfolding smStateLookupByPid_def
proof (rule first_index_cong_pointwise)
  fix i assume "i < length (smStateClean alive sa)"
  then show "(st_pid (smStateClean alive sa ! i) = q) = (st_pid (sa ! i) = q)"
    using nth_smStateClean [of i sa alive] assms by auto
qed simp

lemma st_entry_smStateClean:
  assumes "alive q" and "q \<noteq> 0"
  shows "st_entry q (smStateClean alive sa) = st_entry q sa"
  using assms
  by (cases "smStateLookupByPid sa q")
    (auto simp: st_entry_def lookup_smStateClean smStateClean_live dest: lookup_pid)

lemma pid_before_hole_lookup:
  "pid_before_hole pid sa \<Longrightarrow> \<exists>i. smStateLookupByPid sa pid = Some i"
  by (induction sa) (auto simp: smStateLookupByPid_def split: if_splits)

lemma smStateDefined_entry: "smStateDefined pid sa \<Longrightarrow> st_entry pid sa \<noteq> None"
  using pid_before_hole_lookup by (fastforce simp: smStateDefined_def st_entry_def)

subsection \<open>Adding a process\<close>

lemma smStateAdd_slot:
  assumes "length sa = MAX_PROCS" "\<not> pid_before_hole pid (smStateClean alive sa)"
    and "first_hole (smStateClean alive sa) < MAX_PROCS"
  shows "fst (smStateAdd alive pid sa atime addr attached) = Some OK"
    and "snd (smStateAdd alive pid sa atime addr attached)
      = (smStateClean alive sa)[first_hole (smStateClean alive sa) :=
          (smStateClean alive sa ! first_hole (smStateClean alive sa))\<lparr>st_pid := pid,
             st_atime := (if attached \<noteq> 0 then atime else 0),
             st_ltime := atime, st_utime := 0, st_addr := addr,
             st_attached := attached\<rparr>]"
  using assms by (simp_all add: smStateAdd_def Let_def)

lemma length_smStateAdd [simp]:
  "length (snd (smStateAdd alive pid sa atime addr attached)) = length sa"
  by (simp add: smStateAdd_def Let_def)

lemma smStateAdd_entry_own:
  assumes len: "length sa = MAX_PROCS" and "pid \<noteq> 0"
    and fresh: "smStateLookupByPid (smStateClean alive sa) pid = None"
    and ok: "fst (smStateAdd alive pid sa atime addr attached) = Some OK"
  shows "\<exists>e. st_entry pid (snd (smStateAdd alive pid sa atime addr attached)) = Some e
     \<and> st_ltime e = atime \<and> st_utime e = 0 \<and> st_addr e = addr \<and> st_attached e = attached"
proof -
  let ?sc = "smStateClean alive sa"
  have nb: "\<not> pid_before_hole pid ?sc"
    using fresh pid_before_hole_lookup by fastforce
  have slot: "first_hole ?sc < MAX_PROCS"
    using ok nb by (auto simp: smStateAdd_def Let_def OK_def ERR_def split: if_splits)
  have none: "\<forall>s \<in> set ?sc. st_pid s \<noteq> pid"
    using fresh by (simp add: smStateLookupByPid_def first_index_None)
  have "smStateLookupByPid (snd (smStateAdd alive pid sa atime addr attached)) pid
      = Some (first_hole ?sc)"
    unfolding smStateAdd_slot(2) [OF len nb slot] smStateLookupByPid_def first_index_Some
    using slot len none by (auto simp: nth_list_update)
  then show ?thesis
    using slot len unfolding st_entry_def by (simp add: smStateAdd_slot(2) [OF len nb slot])
qed

lemma smStateAdd_frame:
  assumes "length sa = MAX_PROCS" and "q \<noteq> pid" and "q \<noteq> 0" and "alive q"
  shows "st_entry q (snd (smStateAdd alive pid sa atime addr attached)) = st_entry q sa"
proof -
  let ?sc = "smStateClean alive sa"
  let ?new = "\<lambda>s. s\<lparr>st_pid := pid, st_atime := (if attached \<noteq> 0 then atime else 0),
    st_ltime := atime, st_utime := 0, st_addr := addr, st_attached := attached\<rparr>"
  have upd: "st_entry q (?sc[h := ?new (?sc ! h)]) = st_entry q ?sc"
    if "h = first_hole ?sc" "h < MAX_PROCS" for h
  proof -
    have "st_pid (?sc ! h) = 0" using that first_hole_pid assms(1) by simp
    then have "smStateLookupByPid (?sc[h := ?new (?sc ! h)]) q = smStateLookupByPid ?sc q"
      unfolding smStateLookupByPid_def
      by (intro first_index_update_neither) (use assms in auto)
    moreover have "j \<noteq> h" if "smStateLookupByPid ?sc q = Some j" for j
      using that \<open>st_pid (?sc ! h) = 0\<close> assms(3) by auto
    ultimately show ?thesis
      by (cases "smStateLookupByPid ?sc q") (auto simp: st_entry_def)
  qed
  have "st_entry q (snd (smStateAdd alive pid sa atime addr attached)) = st_entry q ?sc"
    using upd by (simp add: smStateAdd_def Let_def)
  then show ?thesis using st_entry_smStateClean assms by simp
qed

lemma smStateAdd_present:
  assumes len: "length sa = MAX_PROCS" and pid: "pid \<noteq> 0"
    and ok: "fst (smStateAdd alive pid sa atime addr attached) \<noteq> Some ERR"
  shows "\<exists>i. smStateLookupByPid (snd (smStateAdd alive pid sa atime addr attached)) pid = Some i"
proof (cases "pid_before_hole pid (smStateClean alive sa)")
  case True
  then show ?thesis
    by (simp add: smStateAdd_def Let_def pid_before_hole_lookup)
next
  case False
  then have slot: "first_hole (smStateClean alive sa) < MAX_PROCS"
    using ok by (auto simp: smStateAdd_def Let_def split: if_splits)
  have "\<exists>s \<in> set (snd (smStateAdd alive pid sa atime addr attached)). st_pid s = pid"
    unfolding smStateAdd_slot(2) [OF len False slot]
    using slot len by (intro bexI [OF _ set_update_memI]) simp_all
  then show ?thesis
    unfolding smStateLookupByPid_def using first_index_None [of "\<lambda>s. st_pid s = pid"] by blast
qed

lemma listed_append_hole:
  "first_hole sa < length sa \<Longrightarrow> st_pid s \<noteq> 0 \<Longrightarrow>
    set (dropWhile (\<lambda>p. p \<noteq> 0) (map st_pid sa)) \<subseteq> {0} \<Longrightarrow>
    listed (sa[first_hole sa := s]) = listed sa @ [st_pid s]
    \<and> set (dropWhile (\<lambda>p. p \<noteq> 0) (map st_pid (sa[first_hole sa := s]))) \<subseteq> {0}"
proof (induction sa)
  case Nil
  then show ?case by simp
next
  case (Cons a sa)
  show ?case
  proof (cases "st_pid a = 0")
    case True
    have z: "\<forall>x \<in> set sa. st_pid x = 0" using Cons.prems(3) True by auto
    then have "listed sa = []" by (cases sa) simp_all
    moreover have "dropWhile (\<lambda>p. p \<noteq> 0) (map st_pid sa) = map st_pid sa"
      using z by (cases sa) simp_all
    ultimately show ?thesis using True Cons.prems(2) z by auto
  next
    case False
    then show ?thesis using Cons.IH Cons.prems by simp
  qed
qed

subsection \<open>Removing a process\<close>

lemma length_state_shift [simp]: "length (state_shift i sa) = length sa"
proof (induction i sa rule: state_shift.induct)
  case (1 i sa)
  then show ?case
    by (cases "i < MAX_PROCS - 1") (simp_all add: state_shift.simps [of i sa])
qed

lemma state_shift_nth:
  "length sa = MAX_PROCS \<Longrightarrow> j < MAX_PROCS \<Longrightarrow>
    state_shift i sa ! j = (if i \<le> j \<and> j < MAX_PROCS - 1 then sa ! Suc j else sa ! j)"
proof (induction i sa rule: state_shift.induct)
  case (1 i sa)
  show ?case
  proof (cases "i < MAX_PROCS - 1")
    case True
    then show ?thesis using "1.IH" "1.prems"
      by (auto simp: nth_list_update state_shift.simps [of i sa])
  next
    case False
    then show ?thesis by (auto simp: state_shift.simps [of i sa])
  qed
qed

lemma state_shift_eq:
  assumes "length sa = MAX_PROCS" and "i < MAX_PROCS"
  shows "state_shift i sa = take i sa @ drop (Suc i) sa @ [sa ! (MAX_PROCS - 1)]"
proof (rule nth_equalityI)
  show "length (state_shift i sa) = length (take i sa @ drop (Suc i) sa @ [sa ! (MAX_PROCS - 1)])"
    using assms by simp
next
  fix j assume "j < length (state_shift i sa)"
  then have j: "j < MAX_PROCS" using assms by simp
  show "state_shift i sa ! j = (take i sa @ drop (Suc i) sa @ [sa ! (MAX_PROCS - 1)]) ! j"
  proof (cases "j < i")
    case True
    then show ?thesis using assms j by (simp add: state_shift_nth nth_append)
  next
    case False
    then show ?thesis
    proof (cases "j < MAX_PROCS - 1")
      case True
      have "Suc i + (j - i) = Suc j" using False by simp
      then show ?thesis using assms j False True
        by (simp add: state_shift_nth nth_append)
    next
      case last: False
      then have "j = MAX_PROCS - 1" using j by simp
      then show ?thesis using assms False
        by (simp add: state_shift_nth nth_append)
    qed
  qed
qed

lemma st_wf_split:
  assumes "st_wf sa"
  obtains us zs where "sa = us @ zs" "map st_pid us = listed sa" "0 \<notin> set (map st_pid us)"
    "set (map st_pid zs) \<subseteq> {0}" "distinct (map st_pid us)" "length us + length zs = MAX_PROCS"
proof
  let ?P = "\<lambda>s. st_pid s \<noteq> 0"
  let ?us = "takeWhile ?P sa" and ?zs = "dropWhile ?P sa"
  show "sa = ?us @ ?zs" by simp
  then have "length ?us + length ?zs = length sa" by (metis length_append)
  then show "length ?us + length ?zs = MAX_PROCS" using assms by (simp add: st_wf_def)
  show us: "map st_pid ?us = listed sa"
    by (simp add: listed_def takeWhile_map comp_def)
  show "0 \<notin> set (map st_pid ?us)" by (auto dest: set_takeWhileD)
  show "set (map st_pid ?zs) \<subseteq> {0}"
    using assms by (simp add: st_wf_def dropWhile_map comp_def)
  show "distinct (map st_pid ?us)" using assms us by (simp add: st_wf_def)
qed

lemma listed_append:
  assumes "0 \<notin> set (map st_pid us)" and "set (map st_pid zs) \<subseteq> {0}"
  shows "listed (us @ zs) = map st_pid us"
    and "dropWhile (\<lambda>p. p \<noteq> 0) (map st_pid (us @ zs)) = map st_pid zs"
proof -
  have z: "takeWhile (\<lambda>p. p \<noteq> 0) (map st_pid zs) = []"
    "dropWhile (\<lambda>p. p \<noteq> 0) (map st_pid zs) = map st_pid zs"
    using assms(2) by (cases zs; simp)+
  have u: "\<forall>p \<in> set (map st_pid us). p \<noteq> 0" using assms(1) by auto
  have "takeWhile (\<lambda>p. p \<noteq> 0) (map st_pid us @ map st_pid zs)
      = map st_pid us @ takeWhile (\<lambda>p. p \<noteq> 0) (map st_pid zs)"
    by (rule takeWhile_append2) (use u in auto)
  then show "listed (us @ zs) = map st_pid us" using z by (simp add: listed_def)
  have "dropWhile (\<lambda>p. p \<noteq> 0) (map st_pid us @ map st_pid zs)
      = dropWhile (\<lambda>p. p \<noteq> 0) (map st_pid zs)"
    by (rule dropWhile_append2) (use u in auto)
  then show "dropWhile (\<lambda>p. p \<noteq> 0) (map st_pid (us @ zs)) = map st_pid zs"
    using z by simp
qed

lemma lookup_append_first:
  assumes "st_pid s = pid" and "pid \<notin> set (map st_pid xs)"
  shows "smStateLookupByPid (xs @ s # ys) pid = Some (length xs)"
  using assms by (auto simp: smStateLookupByPid_def first_index_Some nth_append image_iff
      Ball_def dest: nth_mem)

lemma smStateRemove_split:
  assumes alive: "all_alive alive (xs @ s # ys)" and pid: "st_pid s = pid" "pid \<noteq> 0"
    and fresh: "pid \<notin> set (map st_pid xs)" and len: "length (xs @ s # ys) = MAX_PROCS"
  shows "smStateRemove alive me (xs @ s # ys) pid
    = (OK, xs @ ys @ [if ys = [] then zero_state else last ys])"
proof -
  let ?sa = "xs @ s # ys"
  have upd: "(smStateClean alive ?sa)[length xs := zero_state] = xs @ zero_state # ys"
    using alive by (simp add: smStateClean_all_alive)
  have "state_shift (length xs) (xs @ zero_state # ys)
      = xs @ ys @ [(xs @ zero_state # ys) ! (MAX_PROCS - 1)]"
    using len by (subst state_shift_eq) simp_all
  moreover have "(xs @ zero_state # ys) ! (MAX_PROCS - 1) = last (zero_state # ys)"
    using len last_conv_nth [of "xs @ zero_state # ys"] by simp
  ultimately show ?thesis
    using pid fresh upd by (simp add: smStateRemove_def Let_def lookup_append_first)
qed

subsection \<open>Properties\<close>

text \<open>Registration.  While every listed process is alive, \<open>smStateAdd\<close> keeps the
  table packed and duplicate free and appends exactly the calling process: it is listed
  once, after the others, unless it was listed already or all \<open>MAX_PROCS\<close> slots are in
  use, when the list of processes is unchanged.\<close>

theorem smStateAdd_listed:
  assumes wf: "st_wf sa" and live: "all_alive alive sa" and pid: "pid \<noteq> 0"
  shows "st_wf (snd (smStateAdd alive pid sa atime addr attached))
    \<and> listed (snd (smStateAdd alive pid sa atime addr attached))
      = (if pid \<in> set (listed sa) \<or> length (listed sa) = MAX_PROCS then listed sa
         else listed sa @ [pid])"
proof -
  let ?r = "snd (smStateAdd alive pid sa atime addr attached)"
  have len: "length sa = MAX_PROCS" using wf by (simp add: st_wf_def)
  have clean: "smStateClean alive sa = sa" using live by (rule smStateClean_all_alive)
  show ?thesis
  proof (cases "pid \<in> set (listed sa) \<or> length (listed sa) = MAX_PROCS")
    case True
    then have "?r = sa"
      using pid by (auto simp: smStateAdd_def Let_def clean pid_before_hole_listed first_hole_listed)
    then show ?thesis using True wf by simp
  next
    case False
    then have nb: "\<not> pid_before_hole pid (smStateClean alive sa)"
      and slot: "first_hole (smStateClean alive sa) < MAX_PROCS"
      using pid first_hole_le [of sa] len
      by (auto simp: clean pid_before_hole_listed first_hole_listed)
    show ?thesis
      unfolding smStateAdd_slot(2) [OF len nb slot] st_wf_def
      using listed_append_hole [of sa] slot wf False pid len
      by (simp add: clean st_wf_def)
  qed
qed

theorem smStateAdd_listed_witness:
  "st_wf (snd (smStateAdd (\<lambda>p. p \<in> {7, 9}) 9
      (zero_pstate[0 := zero_state\<lparr>st_pid := 7\<rparr>]) 5 4096 1))
   \<and> listed (snd (smStateAdd (\<lambda>p. p \<in> {7, 9}) 9
      (zero_pstate[0 := zero_state\<lparr>st_pid := 7\<rparr>]) 5 4096 1)) = [7, 9]"
proof -
  let ?sa = "zero_pstate[0 := zero_state\<lparr>st_pid := 7\<rparr>]"
  have sa: "?sa = zero_state\<lparr>st_pid := 7\<rparr> # replicate 7 zero_state"
    by (simp add: zero_pstate_def MAX_PROCS_def eval_nat_numeral)
  have wf: "st_wf ?sa" and live: "all_alive (\<lambda>p. p \<in> {7, 9}) ?sa" and "listed ?sa = [7]"
    unfolding sa by (auto simp: st_wf_def all_alive_def MAX_PROCS_def eval_nat_numeral)
  then show ?thesis
    using smStateAdd_listed [OF wf live, of 9 5 4096 1] by (simp add: MAX_PROCS_def)
qed

text \<open>Isolation.  Whatever the table holds, \<open>smStateAdd\<close> leaves the entry of every
  other process that is alive as it was; unless it reports \<open>ERR\<close> the calling process has
  an entry afterwards; and it reports \<open>ERR\<close> exactly when, after the dead processes are
  pruned, the calling process is not listed and every slot is in use.\<close>

theorem smStateAdd_isolated:
  assumes "length sa = MAX_PROCS" and "pid \<noteq> 0"
  shows "(\<forall>q. q \<noteq> pid \<longrightarrow> q \<noteq> 0 \<longrightarrow> alive q \<longrightarrow>
       st_entry q (snd (smStateAdd alive pid sa atime addr attached)) = st_entry q sa)
    \<and> (fst (smStateAdd alive pid sa atime addr attached) \<noteq> Some ERR \<longrightarrow>
       st_entry pid (snd (smStateAdd alive pid sa atime addr attached)) \<noteq> None)
    \<and> (fst (smStateAdd alive pid sa atime addr attached) = Some ERR \<longleftrightarrow>
       pid \<notin> set (listed (smStateClean alive sa))
         \<and> length (listed (smStateClean alive sa)) = MAX_PROCS)"
proof (intro conjI)
  show "\<forall>q. q \<noteq> pid \<longrightarrow> q \<noteq> 0 \<longrightarrow> alive q \<longrightarrow>
       st_entry q (snd (smStateAdd alive pid sa atime addr attached)) = st_entry q sa"
    using smStateAdd_frame [OF assms(1)] by blast
  show "fst (smStateAdd alive pid sa atime addr attached) \<noteq> Some ERR \<longrightarrow>
       st_entry pid (snd (smStateAdd alive pid sa atime addr attached)) \<noteq> None"
    using smStateAdd_present [OF assms] by (auto simp: st_entry_def)
  have "length (listed (smStateClean alive sa)) \<le> MAX_PROCS"
    using first_hole_le [of "smStateClean alive sa"] assms(1) by (simp add: first_hole_listed)
  then show "fst (smStateAdd alive pid sa atime addr attached) = Some ERR \<longleftrightarrow>
       pid \<notin> set (listed (smStateClean alive sa))
         \<and> length (listed (smStateClean alive sa)) = MAX_PROCS"
    using assms(2) by (auto simp: smStateAdd_def Let_def pid_before_hole_listed first_hole_listed
        OK_def ERR_def)
qed

theorem smStateAdd_isolated_witness:
  "st_entry 7 (snd (smStateAdd (\<lambda>p. p = 7) 9
      (zero_pstate[1 := zero_state\<lparr>st_pid := 7\<rparr>]) 5 4096 1))
    = st_entry 7 (zero_pstate[1 := zero_state\<lparr>st_pid := 7\<rparr>])"
  using smStateAdd_isolated [of "zero_pstate[1 := zero_state\<lparr>st_pid := 7\<rparr>]" 9 "\<lambda>p. p = 7" 5 4096 1]
  by (simp add: zero_pstate_def)

text \<open>Removal.  On a packed table of live processes with a free slot,
  \<open>smStateRemove\<close> of a listed process takes exactly that process off the list and keeps
  the order of the others and the packing.\<close>

theorem smStateRemove_listed:
  assumes wf: "st_wf sa" and live: "all_alive alive sa" and room: "length (listed sa) < MAX_PROCS"
    and pid: "pid \<in> set (listed sa)"
  shows "fst (smStateRemove alive me sa pid) = OK
    \<and> listed (snd (smStateRemove alive me sa pid)) = remove1 pid (listed sa)
    \<and> st_wf (snd (smStateRemove alive me sa pid))"
proof -
  obtain us zs where sa: "sa = us @ zs" and us: "map st_pid us = listed sa" "0 \<notin> set (map st_pid us)"
    "distinct (map st_pid us)" and zs: "set (map st_pid zs) \<subseteq> {0}"
    and len: "length us + length zs = MAX_PROCS"
    using wf by (rule st_wf_split)
  have "zs \<noteq> []" using room len us(1) by (metis add.right_neutral length_map list.size(3) less_irrefl)
  have "pid \<in> set (map st_pid us)" using pid us(1) by simp
  then obtain xs s ys where u: "us = xs @ s # ys" "st_pid s = pid"
    by (auto simp: in_set_conv_decomp)
  have fresh: "pid \<notin> set (map st_pid xs)" "pid \<notin> set (map st_pid ys)" "pid \<noteq> 0"
    using us(2,3) u by auto
  have r: "smStateRemove alive me sa pid = (OK, (xs @ ys) @ (zs @ [last zs]))"
    using smStateRemove_split [of alive xs s "ys @ zs" pid me] live u fresh len sa \<open>zs \<noteq> []\<close> by simp
  have z: "set (map st_pid (zs @ [last zs])) \<subseteq> {0}" using zs \<open>zs \<noteq> []\<close> by auto
  have u0: "0 \<notin> set (map st_pid (xs @ ys))" using us(2) u by auto
  have "remove1 pid (map st_pid us) = map st_pid (xs @ ys)"
    using u fresh by (simp add: remove1_append)
  moreover have "distinct (map st_pid (xs @ ys))" using us(3) u by auto
  ultimately show ?thesis
    using r listed_append [OF u0 z] us(1) u len z by (simp add: st_wf_def)
qed

theorem smStateRemove_listed_witness:
  "listed (snd (smStateRemove (\<lambda>p. True) 9
      (zero_pstate[0 := zero_state\<lparr>st_pid := 7\<rparr>, 1 := zero_state\<lparr>st_pid := 9\<rparr>]) 7)) = [9]"
proof -
  let ?sa = "zero_pstate[0 := zero_state\<lparr>st_pid := 7\<rparr>, 1 := zero_state\<lparr>st_pid := 9\<rparr>]"
  have sa: "?sa = zero_state\<lparr>st_pid := 7\<rparr> # zero_state\<lparr>st_pid := 9\<rparr> # replicate 6 zero_state"
    by (simp add: zero_pstate_def MAX_PROCS_def eval_nat_numeral)
  have wf: "st_wf ?sa" and live: "all_alive (\<lambda>p. True) ?sa" and l: "listed ?sa = [7, 9]"
    unfolding sa by (auto simp: st_wf_def all_alive_def MAX_PROCS_def eval_nat_numeral)
  show ?thesis
    using smStateRemove_listed [OF wf live, of 7 9] l by (simp add: MAX_PROCS_def)
qed

text \<open>A process that dies ahead of a live one in the table makes the live one listed
  twice: the pruning leaves a hole, the scan for the caller stops at the hole, and the
  caller is entered again in it.\<close>

theorem smStateAdd_duplicate_after_death:
  assumes "st_pid d \<noteq> 0" "st_pid d \<noteq> pid" "\<not> alive (st_pid d)"
    and "st_pid s = pid" "alive pid" "pid \<noteq> 0"
  shows "count_if (\<lambda>e. st_pid e = pid)
      (snd (smStateAdd alive pid (d # s # replicate 6 zero_state) atime addr attached)) = 2"
  using assms by (simp add: smStateAdd_def Let_def MAX_PROCS_def eval_nat_numeral)

theorem smStateAdd_duplicate_after_death_witness:
  "count_if (\<lambda>e. st_pid e = 9)
     (snd (smStateAdd (\<lambda>p. p = 9) 9 (zero_state\<lparr>st_pid := 7\<rparr> # zero_state\<lparr>st_pid := 9\<rparr>
        # replicate 6 zero_state) 5 4096 1)) = 2"
  by (rule smStateAdd_duplicate_after_death) simp_all

end
