(* ===== verification/SmConfig.thy ===== *)
theory SmConfig
  imports Prelude
begin

section \<open>Configuration of the cache (lib/smc/smConfig.c)\<close>

text \<open>
  The configuration record and the parser of configuration strings and files.  The
  parser copies tokens into the fixed buffers \<open>keyw[SZ_KEYW]\<close> and \<open>val[SZ_VAL]\<close>
  without a bound; a token that does not leave room for its terminator is the value
  \<open>None\<close> here (the C program writes or reads past the buffer).  The same holds for the
  path buffers of \<open>SZ_PATH\<close> bytes.  Warnings on stderr are not modelled.

  What the routines ask of the operating system is the record \<open>cfg_env\<close>: the user
  id, the page size and page counts, whether a path is readable or writable and the
  contents of files.  Its field \<open>junk_len\<close> is the value of the variable \<open>len\<close> of
  \<open>smParseCfgFile\<close>, which the source never initialises, and \<open>sizeof_smCache\<close> the size
  of the cache structure under the compiler in use.
\<close>

definition SZ_PATH :: nat where "SZ_PATH = 164"
definition SZ_FNAME :: nat where "SZ_FNAME = 64"
definition SZ_LINE :: nat where "SZ_LINE = 1024"
definition SZ_KEYW :: nat where "SZ_KEYW = 64"
definition SZ_VAL :: nat where "SZ_VAL = 64"
definition MAX_SEGS :: int where "MAX_SEGS = 4096"

definition TY_NONE :: int where "TY_NONE = -1"
definition TY_ANY :: int where "TY_ANY = 0"
definition TY_VOID :: int where "TY_VOID = 1"
definition TY_DATA :: int where "TY_DATA = 2"
definition TY_META :: int where "TY_META = 3"

record sysConfig_t =
  cfg_smc :: addr_t
  cfg_smc_debug :: int \<comment> \<open>\<open>cfg->smc->debug\<close>, of the structure \<open>cfg->smc\<close> points to\<close>
  cfg_config :: string
  cfg_cache_path :: string
  cfg_cache_size :: int
  cfg_cache_memKey :: key_t
  cfg_cache_addr :: addr_t
  cfg_debug :: int
  cfg_nsegs :: int
  cfg_max_segs :: int
  cfg_min_seg_size :: int
  cfg_lock_cache :: int
  cfg_lock_segs :: int
  cfg_throttle_time :: xlong
  cfg_throttle_ntry :: xlong
  cfg_interval :: xlong
  cfg_verbose :: int
  cfg_sys_page_size :: xlong
  cfg_sys_phys_pages :: xlong
  cfg_sys_avphys_pages :: xlong
  cfg_sys_pmask :: xlong

record cfg_env =
  getuid :: int
  getpagesize :: int
  sc_phys_pages :: int
  sc_avphys_pages :: int
  smc_debug_env :: int
  readable :: "string \<Rightarrow> bool"
  read_writable :: "string \<Rightarrow> bool"
  file_text :: "string \<Rightarrow> string option"
  junk_len :: int
  sizeof_smCache :: int

text \<open>\<open>calloc (1, sizeof(sysConfig_t))\<close>.\<close>

definition zero_config :: sysConfig_t where
  "zero_config = \<lparr>cfg_smc = 0, cfg_smc_debug = 0, cfg_config = '''', cfg_cache_path = '''',
     cfg_cache_size = 0, cfg_cache_memKey = 0, cfg_cache_addr = 0, cfg_debug = 0,
     cfg_nsegs = 0, cfg_max_segs = 0, cfg_min_seg_size = 0, cfg_lock_cache = 0,
     cfg_lock_segs = 0, cfg_throttle_time = 0, cfg_throttle_ntry = 0, cfg_interval = 0,
     cfg_verbose = 0, cfg_sys_page_size = 0, cfg_sys_phys_pages = 0,
     cfg_sys_avphys_pages = 0, cfg_sys_pmask = 0\<rparr>"

text \<open>\<open>AC_LOCK|VM_LOCK\<close> is 3.\<close>

definition smSetConfigDefaults :: "sysConfig_t \<Rightarrow> sysConfig_t" where
  "smSetConfigDefaults cfg = cfg\<lparr>cfg_cache_size := 0, cfg_max_segs := MAX_SEGS,
     cfg_nsegs := MAX_SEGS, cfg_min_seg_size := 4096, cfg_lock_cache := 3,
     cfg_lock_segs := 3, cfg_throttle_time := 1000, cfg_throttle_ntry := 60,
     cfg_interval := 500, cfg_verbose := 1\<rparr>"

definition is_keyw_char :: "char \<Rightarrow> bool" where
  "is_keyw_char c \<longleftrightarrow> c \<noteq> CHR ''='' \<and> (c_isalnum c \<or> c = CHR ''_'')"

definition is_sep1 :: "char \<Rightarrow> bool" where
  "is_sep1 c \<longleftrightarrow> c = CHR ''='' \<or> c_isspace c"

definition is_sep2 :: "char \<Rightarrow> bool" where
  "is_sep2 c \<longleftrightarrow> c = CHR '','' \<or> c_isspace c"

text \<open>The keyword, the value and the rest of the input.\<close>

definition smGetCfgOption :: "string \<Rightarrow> (string \<times> string \<times> string) option" where
  "smGetCfgOption ip =
     (let keyw = takeWhile is_keyw_char ip;
          op1 = dropWhile is_sep1 (dropWhile is_keyw_char ip);
          val = takeWhile (\<lambda>c. \<not> is_sep2 c) op1;
          op2 = dropWhile is_sep2 (dropWhile (\<lambda>c. \<not> is_sep2 c) op1)
      in if length keyw < SZ_KEYW \<and> length val < SZ_VAL then Some (keyw, val, op2) else None)"

definition is_true :: "char \<Rightarrow> int" where
  "is_true c = (if strchr_found (''tTyY1'' @ [CHR 0x0A]) c then 1 else 0)"

definition flag_value :: "string \<Rightarrow> int" where
  "flag_value val = (if strchr_found ''tTyY1'' (char0 val) then 1 else 0)"

definition smSetCfgOption :: "sysConfig_t \<Rightarrow> string \<Rightarrow> string \<Rightarrow> sysConfig_t" where
  "smSetCfgOption cfg keyw val =
     (if strncmp_eq keyw ''cache_path'' 7 \<or> strncmp_eq keyw ''cache_file'' 7 then
        (if length val > 0 then cfg\<lparr>cfg_cache_path := val\<rparr> else cfg)
      else if strncmp_eq keyw ''cache_size'' 7 then cfg\<lparr>cfg_cache_size := atoi val\<rparr>
      else if strncmp_eq keyw ''cache_memKey'' 7 then cfg\<lparr>cfg_cache_memKey := atoi val\<rparr>
      else if strncmp_eq keyw ''cache_addr'' 7 then cfg\<lparr>cfg_cache_addr := atoi val\<rparr>
      else if strncmp_eq keyw ''nsegs'' 4 then
        cfg\<lparr>cfg_nsegs := (if MAX_SEGS < atoi val then MAX_SEGS else atoi val)\<rparr>
      else if strncmp_eq keyw ''debug'' 4 then
        (let cfg' = cfg\<lparr>cfg_debug := is_true (char0 val)\<rparr> in
         if cfg_smc cfg \<noteq> 0 then cfg'\<lparr>cfg_smc_debug := is_true (char0 val)\<rparr> else cfg')
      else if strncmp_eq keyw ''throttle_time'' 10 then
        cfg\<lparr>cfg_throttle_time := word_of_int (atoi val)\<rparr>
      else if strncmp_eq keyw ''throttle_ntry'' 10 then
        cfg\<lparr>cfg_throttle_ntry := word_of_int (atoi val)\<rparr>
      else if strncmp_eq keyw ''min_seg_size'' 9 then
        (let sps = sint (cfg_sys_page_size cfg) in
         cfg\<lparr>cfg_min_seg_size := (if sps > atoi val then sps else atoi val)\<rparr>)
      else if strncmp_eq keyw ''verbose'' 4 then cfg\<lparr>cfg_verbose := flag_value val\<rparr>
      else if strncmp_eq keyw ''lock_cache'' 6 then cfg\<lparr>cfg_lock_cache := flag_value val\<rparr>
      else if strncmp_eq keyw ''lock_segs'' 6 then cfg\<lparr>cfg_lock_segs := flag_value val\<rparr>
      else cfg)"

text \<open>The local option \<open>segments\<close>, handled by both parsers before the others.\<close>

definition set_seg_reader :: "int \<Rightarrow> string \<Rightarrow> int" where
  "set_seg_reader reader val =
     (if char0 val = CHR ''a'' then TY_ANY
      else if char0 val = CHR ''n'' then TY_NONE
      else if char0 val = CHR ''d'' then TY_DATA
      else if char0 val = CHR ''m'' then TY_META
      else reader)"

definition apply_option :: "sysConfig_t \<times> int \<Rightarrow> string \<Rightarrow> string \<Rightarrow> sysConfig_t \<times> int" where
  "apply_option cr keyw val =
     (if strncmp_eq keyw ''segments'' 3 then (fst cr, set_seg_reader (snd cr) val)
      else (smSetCfgOption (fst cr) keyw val, snd cr))"

subsection \<open>Every option consumes input\<close>

lemma smGetCfgOption_shorter:
  assumes "smGetCfgOption ip = Some (keyw, val, rest)" and "ip \<noteq> []"
  shows "length rest < length ip"
proof -
  let ?d1 = "dropWhile is_keyw_char ip"
  let ?d2 = "dropWhile is_sep1 ?d1"
  let ?d3 = "dropWhile (\<lambda>c. \<not> is_sep2 c) ?d2"
  have rest: "rest = dropWhile is_sep2 ?d3"
    using assms(1) by (simp add: smGetCfgOption_def Let_def split: if_splits)
  obtain c cs where ip: "ip = c # cs" using assms(2) by (cases ip) auto
  note len = length_dropWhile_le
  have chain: "length rest \<le> length ?d3" "length ?d3 \<le> length ?d2" "length ?d2 \<le> length ?d1"
    using len rest by auto
  consider "is_keyw_char c" | "\<not> is_keyw_char c" "is_sep1 c"
    | "\<not> is_keyw_char c" "\<not> is_sep1 c" "\<not> is_sep2 c"
    | "\<not> is_keyw_char c" "\<not> is_sep1 c" "is_sep2 c" by blast
  then show ?thesis
  proof cases
    case 1
    then have "length ?d1 \<le> length cs" using len ip by simp
    then show ?thesis using chain ip by simp
  next
    case 2
    then have "length ?d2 \<le> length cs" using len ip by simp
    then show ?thesis using chain ip by simp
  next
    case 3
    then have "length ?d3 \<le> length cs" using len ip by simp
    then show ?thesis using chain ip by simp
  next
    case 4
    then have "length rest \<le> length cs" using len ip rest by simp
    then show ?thesis using ip by simp
  qed
qed

function parse_string_loop :: "string \<Rightarrow> sysConfig_t \<times> int \<Rightarrow> (sysConfig_t \<times> int) option" where
  "parse_string_loop ip cr =
     (if ip = [] then Some cr
      else case smGetCfgOption ip of
        None \<Rightarrow> None
      | Some (keyw, val, rest) \<Rightarrow> parse_string_loop rest (apply_option cr keyw val))"
  by pat_completeness auto
termination
  by (relation "measure (\<lambda>(ip, cr). length ip)") (auto dest: smGetCfgOption_shorter)

declare parse_string_loop.simps [simp del]

definition smParseCfgString ::
  "string option \<Rightarrow> sysConfig_t \<Rightarrow> int \<Rightarrow> (int \<times> sysConfig_t \<times> int) option" where
  "smParseCfgString config cfg seg_reader =
     (case config of
        None \<Rightarrow> Some (ERR, cfg, seg_reader)
      | Some s \<Rightarrow>
          (case parse_string_loop s (cfg, seg_reader) of
             None \<Rightarrow> None
           | Some (cfg', reader') \<Rightarrow>
               if length s < SZ_PATH then Some (OK, cfg'\<lparr>cfg_config := s\<rparr>, reader') else None))"

subsection \<open>Configuration files\<close>

text \<open>\<open>fgets (line, n + 1, fd)\<close>: at most \<open>n\<close> characters, up to and with a newline.\<close>

fun fgets :: "nat \<Rightarrow> string \<Rightarrow> string \<times> string" where
  "fgets 0 s = ([], s)"
| "fgets (Suc n) [] = ([], [])"
| "fgets (Suc n) (c # cs) =
     (if c = CHR 0x0A then ([c], cs) else case fgets n cs of (l, r) \<Rightarrow> (c # l, r))"

lemma fgets_split: "fgets n s = (l, r) \<Longrightarrow> s = l @ r"
  by (induction n s arbitrary: l r rule: fgets.induct) (auto split: if_splits prod.splits)

lemma fgets_progress: "s \<noteq> [] \<Longrightarrow> fgets (Suc n) s = (l, r) \<Longrightarrow> length r < length s"
  using fgets_split [of n] by (cases s) (fastforce split: if_splits prod.splits)+

lemma fgets_line_shorter: "s \<noteq> [] \<Longrightarrow> (l, r) = fgets (SZ_LINE - 1) s \<Longrightarrow> length r < length s"
  using fgets_progress [of s "SZ_LINE - 2" l r] by (simp add: SZ_LINE_def)

function parse_line_loop ::
  "int \<Rightarrow> int \<Rightarrow> string \<Rightarrow> sysConfig_t \<times> int \<Rightarrow> (bool \<times> sysConfig_t \<times> int) option" where
  "parse_line_loop len pos ip cr =
     (if ip = [] \<or> len < pos then Some (False, cr)
      else case smGetCfgOption ip of
        None \<Rightarrow> None
      | Some (keyw, val, rest) \<Rightarrow>
          if strncmp_eq keyw ''E_O_C'' 5 then Some (True, cr)
          else parse_line_loop len (pos + int (length ip) - int (length rest)) rest
                 (apply_option cr keyw val))"
  by pat_completeness auto
termination
  by (relation "measure (\<lambda>(len, pos, ip, cr). length ip)") (auto dest: smGetCfgOption_shorter)

declare parse_line_loop.simps [simp del]

function parse_file_loop ::
  "int \<Rightarrow> string \<Rightarrow> bool \<Rightarrow> sysConfig_t \<times> int \<Rightarrow> (sysConfig_t \<times> int) option" where
  "parse_file_loop len s done cr =
     (if s = [] then Some cr
      else case fgets (SZ_LINE - 1) s of (line, rest) \<Rightarrow>
        if done then Some cr
        else if char0 line = CHR 0x0A \<or> char0 line = CHR ''#'' then
          parse_file_loop len rest done cr
        else case parse_line_loop len 0 line cr of
            None \<Rightarrow> None
          | Some (done', cr') \<Rightarrow> parse_file_loop len rest done' cr')"
  by pat_completeness auto
termination
  by (relation "measure (\<lambda>(len, s, done, cr). length s)") (simp_all add: fgets_line_shorter)

declare parse_file_loop.simps [simp del]

text \<open>
  When the file to read is named by \<open>cfg->cache_path\<close> itself the argument aliases the
  field that the option \<open>cache_path\<close> writes, so the name stored at the end is the one
  then in the field.
\<close>

definition smParseCfgFile ::
  "cfg_env \<Rightarrow> bool \<Rightarrow> string option \<Rightarrow> sysConfig_t \<Rightarrow> int \<Rightarrow> (int \<times> sysConfig_t \<times> int) option" where
  "smParseCfgFile env aliased config cfg seg_reader =
     (case config of
        None \<Rightarrow> Some (ERR, cfg, seg_reader)
      | Some fname \<Rightarrow>
          (case file_text env fname of
             None \<Rightarrow> Some (ERR, cfg, seg_reader)
           | Some contents \<Rightarrow>
               (case parse_file_loop (junk_len env) contents False (cfg, seg_reader) of
                  None \<Rightarrow> None
                | Some (cfg', reader') \<Rightarrow>
                    (let name = (if aliased then cfg_cache_path cfg' else fname) in
                     if length name < SZ_PATH then
                       Some (OK, cfg'\<lparr>cfg_config := name, cfg_cache_path := name\<rparr>, reader')
                     else None))))"

definition DEF_CACHE_FILE :: "int \<Rightarrow> string" where
  "DEF_CACHE_FILE uid = ''/tmp/.smc'' @ show_int uid"

text \<open>The initial part of \<open>smParseConfig\<close>: defaults and the machine's resources.\<close>

definition parse_config_init :: "cfg_env \<Rightarrow> sysConfig_t \<Rightarrow> sysConfig_t" where
  "parse_config_init env cfg =
     (let cfg1 = smSetConfigDefaults (cfg\<lparr>cfg_cache_path := DEF_CACHE_FILE (getuid env)\<rparr>);
          ps = word_of_int (getpagesize env div 1024) :: xlong in
      cfg1\<lparr>cfg_sys_page_size := ps,
        cfg_sys_phys_pages := word_of_int (sc_phys_pages env) div ps,
        cfg_sys_avphys_pages := word_of_int (sc_avphys_pages env) div ps,
        cfg_sys_pmask := ps - 1,
        cfg_debug := smc_debug_env env\<rparr>)"

text \<open>The size of the cache object, computed last whatever the configuration said.\<close>

definition cache_size_for :: "cfg_env \<Rightarrow> sysConfig_t \<Rightarrow> int" where
  "cache_size_for env cfg =
     (let pgsize = sint (cfg_sys_page_size cfg) in
      ((sizeof_smCache env + pgsize) div pgsize) * pgsize)"

definition smParseConfig ::
  "cfg_env \<Rightarrow> string option \<Rightarrow> sysConfig_t \<Rightarrow> (int \<times> sysConfig_t \<times> int) option" where
  "smParseConfig env config cfg =
     (let cfg0 = parse_config_init env cfg;
          parsed =
            (case config of
               None \<Rightarrow> Some (OK, cfg0, TY_ANY)
             | Some s \<Rightarrow>
                 if readable env s then smParseCfgFile env False (Some s) cfg0 TY_ANY
                 else (case smParseCfgString (Some s) cfg0 TY_ANY of
                     None \<Rightarrow> None
                   | Some (status, cfg1, reader1) \<Rightarrow>
                       if read_writable env (cfg_cache_path cfg1) then
                         smParseCfgFile env True (Some (cfg_cache_path cfg1))
                           (smSetConfigDefaults cfg1) reader1
                       else Some (status, cfg1, reader1)))
      in case parsed of
           None \<Rightarrow> None
         | Some (status, cfg2, reader2) \<Rightarrow>
             Some (status, cfg2\<lparr>cfg_cache_size := cache_size_for env cfg2\<rparr>, reader2))"

subsection \<open>What no option can change\<close>

text \<open>The limits that hold of every configuration the parsers produce.\<close>

definition cfg_ok :: "xlong \<Rightarrow> sysConfig_t \<times> int \<Rightarrow> bool" where
  "cfg_ok ps cr \<longleftrightarrow> cfg_nsegs (fst cr) \<le> MAX_SEGS \<and> cfg_max_segs (fst cr) = MAX_SEGS
     \<and> cfg_sys_page_size (fst cr) = ps \<and> snd cr \<in> {TY_NONE, TY_ANY, TY_DATA, TY_META}"

lemma smSetCfgOption_keeps:
  "cfg_max_segs (smSetCfgOption cfg keyw val) = cfg_max_segs cfg"
  "cfg_sys_page_size (smSetCfgOption cfg keyw val) = cfg_sys_page_size cfg"
  "cfg_nsegs cfg \<le> MAX_SEGS \<Longrightarrow> cfg_nsegs (smSetCfgOption cfg keyw val) \<le> MAX_SEGS"
  unfolding smSetCfgOption_def Let_def by simp_all

lemma set_seg_reader_range:
  "r \<in> {TY_NONE, TY_ANY, TY_DATA, TY_META} \<Longrightarrow>
    set_seg_reader r val \<in> {TY_NONE, TY_ANY, TY_DATA, TY_META}"
  by (simp add: set_seg_reader_def)

lemma apply_option_ok: "cfg_ok ps cr \<Longrightarrow> cfg_ok ps (apply_option cr keyw val)"
  using set_seg_reader_range
  by (simp add: cfg_ok_def apply_option_def smSetCfgOption_keeps)

lemma parse_string_loop_ok:
  "parse_string_loop ip cr = Some cr' \<Longrightarrow> cfg_ok ps cr \<Longrightarrow> cfg_ok ps cr'"
proof (induction ip cr rule: parse_string_loop.induct)
  case (1 ip cr)
  show ?case
  proof (cases "ip = []")
    case True
    then show ?thesis using "1.prems" by (simp add: parse_string_loop.simps)
  next
    case False
    then obtain keyw val rest where o: "smGetCfgOption ip = Some (keyw, val, rest)"
      and r: "parse_string_loop rest (apply_option cr keyw val) = Some cr'"
      using "1.prems"(1) by (subst (asm) parse_string_loop.simps) (auto split: option.splits)
    show ?thesis
      using "1.IH" [OF False o refl refl r] "1.prems"(2) by (simp add: apply_option_ok)
  qed
qed

lemma parse_line_loop_ok:
  "parse_line_loop len pos ip cr = Some (d, cr') \<Longrightarrow> cfg_ok ps cr \<Longrightarrow> cfg_ok ps cr'"
proof (induction len pos ip cr rule: parse_line_loop.induct)
  case (1 len pos ip cr)
  show ?case
  proof (cases "ip = [] \<or> len < pos")
    case True
    then show ?thesis using "1.prems" by (auto simp: parse_line_loop.simps)
  next
    case False
    then obtain keyw val rest where o: "smGetCfgOption ip = Some (keyw, val, rest)"
      using "1.prems"(1) by (subst (asm) parse_line_loop.simps) (auto split: option.splits)
    show ?thesis
    proof (cases "strncmp_eq keyw ''E_O_C'' 5")
      case True
      then show ?thesis
        using "1.prems" False o by (subst (asm) parse_line_loop.simps) simp
    next
      case no_eoc: False
      then have "parse_line_loop len (pos + int (length ip) - int (length rest)) rest
          (apply_option cr keyw val) = Some (d, cr')"
        using "1.prems"(1) False o by (subst (asm) parse_line_loop.simps) simp
      then show ?thesis
        using "1.IH" [OF False o refl refl no_eoc] "1.prems"(2) by (simp add: apply_option_ok)
    qed
  qed
qed

lemma parse_file_loop_ok:
  "parse_file_loop len s done cr = Some cr' \<Longrightarrow> cfg_ok ps cr \<Longrightarrow> cfg_ok ps cr'"
proof (induction len s "done" cr rule: parse_file_loop.induct)
  case (1 len s "done" cr)
  obtain line rest where f: "fgets (SZ_LINE - 1) s = (line, rest)" by fastforce
  let ?skip = "char0 line = CHR 0x0A \<or> char0 line = CHR ''#''"
  consider "s = [] \<or> done" | "s \<noteq> []" "\<not> done" "?skip" | "s \<noteq> []" "\<not> done" "\<not> ?skip"
    by blast
  then show ?case
  proof cases
    case 1
    then show ?thesis using "1.prems" f
      by (subst (asm) parse_file_loop.simps) (auto simp del: One_nat_def split: if_splits)
  next
    case 2
    then have "parse_file_loop len rest done cr = Some cr'"
      using "1.prems"(1) f by (subst (asm) parse_file_loop.simps) (auto simp del: One_nat_def)
    then show ?thesis using "1.IH"(1) [OF 2(1) f [symmetric] 2(2,3)] "1.prems"(2) by blast
  next
    case 3
    then obtain d2 cr2 where l: "parse_line_loop len 0 line cr = Some (d2, cr2)"
      and r: "parse_file_loop len rest d2 cr2 = Some cr'"
      using "1.prems"(1) f by (subst (asm) parse_file_loop.simps) (auto simp del: One_nat_def split: option.splits)
    show ?thesis
      using "1.IH"(2) [OF 3(1) f [symmetric] 3(2,3) l refl r] parse_line_loop_ok [OF l "1.prems"(2)]
      by blast
  qed
qed

lemma smParseCfgString_ok:
  assumes "smParseCfgString config cfg r = Some (status, cfg', r')" and "cfg_ok ps (cfg, r)"
  shows "cfg_ok ps (cfg', r')"
  using assms parse_string_loop_ok [of _ "(cfg, r)" _ ps]
  by (fastforce simp: smParseCfgString_def cfg_ok_def split: option.splits if_splits)

lemma smParseCfgFile_ok:
  assumes "smParseCfgFile env al config cfg r = Some (status, cfg', r')" and "cfg_ok ps (cfg, r)"
  shows "cfg_ok ps (cfg', r')"
  using assms parse_file_loop_ok [of _ _ _ "(cfg, r)" _ ps]
  by (fastforce simp: smParseCfgFile_def Let_def cfg_ok_def split: option.splits if_splits)

lemma smSetConfigDefaults_ok:
  "r \<in> {TY_NONE, TY_ANY, TY_DATA, TY_META} \<Longrightarrow>
    cfg_ok (cfg_sys_page_size cfg) (smSetConfigDefaults cfg, r)"
  by (simp add: cfg_ok_def smSetConfigDefaults_def)

lemma parse_config_init_ok:
  "cfg_ok (word_of_int (getpagesize env div 1024)) (parse_config_init env cfg, TY_ANY)"
  by (simp add: cfg_ok_def parse_config_init_def Let_def smSetConfigDefaults_def)

lemma round_up_bounds:
  fixes n g :: int
  assumes "0 < g"
  shows "n < ((n + g) div g) * g \<and> ((n + g) div g) * g \<le> n + g \<and> g dvd ((n + g) div g) * g"
proof -
  have "(n + g) div g * g + (n + g) mod g = n + g" by (rule div_mult_mod_eq)
  moreover have "0 \<le> (n + g) mod g" "(n + g) mod g < g" using assms by simp_all
  ultimately show ?thesis by auto
qed

subsection \<open>Options written as \<open>keyword=value,\<close> are read back\<close>

definition fmt_options :: "(string \<times> string) list \<Rightarrow> string" where
  "fmt_options kvs = concat (map (\<lambda>(k, v). k @ ''='' @ v @ '','') kvs)"

text \<open>A pair that the grammar of the parser can carry.\<close>

definition option_token :: "string \<times> string \<Rightarrow> bool" where
  "option_token kv \<longleftrightarrow> (case kv of (k, v) \<Rightarrow>
     list_all is_keyw_char k \<and> length k < SZ_KEYW \<and>
     v \<noteq> [] \<and> char0 v \<noteq> CHR ''='' \<and> list_all (\<lambda>c. \<not> is_sep2 c) v \<and> length v < SZ_VAL)"

lemma dropWhile_all_then:
  "list_all P xs \<Longrightarrow> ys = [] \<or> \<not> P (hd ys) \<Longrightarrow>
    takeWhile P (xs @ ys) = xs \<and> dropWhile P (xs @ ys) = ys"
  by (induction xs) (cases ys; auto)+

lemma smGetCfgOption_fmt:
  assumes kv: "option_token (k, v)" and rest: "rest = [] \<or> \<not> is_sep2 (hd rest)"
  shows "smGetCfgOption (k @ ''='' @ v @ '','' @ rest) = Some (k, v, rest)"
proof -
  have v: "v \<noteq> []" "\<not> is_sep2 (hd v)" "hd v \<noteq> CHR ''=''"
    using kv by (cases v; simp add: option_token_def char0_def)+
  have k1: "takeWhile is_keyw_char (k @ ''='' @ v @ '','' @ rest) = k
      \<and> dropWhile is_keyw_char (k @ ''='' @ v @ '','' @ rest) = ''='' @ v @ '','' @ rest"
    by (rule dropWhile_all_then) (use kv in \<open>simp_all add: option_token_def is_keyw_char_def\<close>)
  have "\<not> is_sep1 (hd v)" using v by (simp add: is_sep1_def is_sep2_def)
  then have s1: "dropWhile is_sep1 (''='' @ v @ '','' @ rest) = v @ '','' @ rest"
    using v(1) by (cases v) (simp_all add: is_sep1_def)
  have v1: "takeWhile (\<lambda>c. \<not> is_sep2 c) (v @ '','' @ rest) = v
      \<and> dropWhile (\<lambda>c. \<not> is_sep2 c) (v @ '','' @ rest) = '','' @ rest"
    by (rule dropWhile_all_then) (use kv in \<open>simp_all add: option_token_def is_sep2_def\<close>)
  have s2: "dropWhile is_sep2 ('','' @ rest) = rest"
    using rest by (cases rest) (simp_all add: is_sep2_def)
  show ?thesis
    unfolding smGetCfgOption_def Let_def using k1 s1 v1 s2 kv by (simp add: option_token_def)
qed

lemma fmt_options_start:
  assumes "list_all option_token kvs"
  shows "fmt_options kvs = [] \<or> \<not> is_sep2 (hd (fmt_options kvs))"
proof (cases kvs)
  case Nil
  then show ?thesis by (simp add: fmt_options_def)
next
  case (Cons kv kvs')
  obtain k v where kv: "kv = (k, v)" by fastforce
  have "\<not> is_sep2 (hd (k @ ''=''))"
  proof (cases k)
    case Nil
    then show ?thesis by (simp add: is_sep2_def c_isspace_def c_code_def)
  next
    case (Cons c cs)
    then have "is_keyw_char c" using assms kv \<open>kvs = kv # kvs'\<close> by (simp add: option_token_def)
    then show ?thesis using Cons
      by (auto simp: is_sep2_def is_keyw_char_def c_isalnum_def c_isdigit_def c_isupper_def
          c_islower_def c_isspace_def c_code_def)
  qed
  then show ?thesis using Cons kv by (cases k) (simp_all add: fmt_options_def)
qed

lemma parse_string_loop_fmt:
  "list_all option_token kvs \<Longrightarrow>
    parse_string_loop (fmt_options kvs) cr = Some (fold (\<lambda>(k, v) cr. apply_option cr k v) kvs cr)"
proof (induction kvs arbitrary: cr)
  case Nil
  then show ?case by (simp add: fmt_options_def parse_string_loop.simps)
next
  case (Cons kv kvs)
  obtain k v where kv: "kv = (k, v)" by fastforce
  have f: "fmt_options (kv # kvs) = k @ ''='' @ v @ '','' @ fmt_options kvs"
    by (simp add: fmt_options_def kv)
  have g: "smGetCfgOption (fmt_options (kv # kvs)) = Some (k, v, fmt_options kvs)"
    unfolding f
    by (rule smGetCfgOption_fmt) (use Cons.prems kv fmt_options_start in auto)
  have ne: "fmt_options (kv # kvs) \<noteq> []" by (simp add: f)
  show ?case
    using Cons.IH [of "apply_option cr k v"] Cons.prems g ne kv
    by (simp add: parse_string_loop.simps [of "fmt_options ((k, v) # kvs)"])
qed

lemma smGetCfgOption_short:
  assumes "length ip < SZ_KEYW"
  shows "\<exists>keyw val rest. smGetCfgOption ip = Some (keyw, val, rest) \<and> length rest \<le> length ip"
proof -
  let ?d2 = "dropWhile is_sep1 (dropWhile is_keyw_char ip)"
  have a: "length (takeWhile is_keyw_char ip) \<le> length ip" by (rule length_takeWhile_le)
  have b: "length ?d2 \<le> length ip"
    using length_dropWhile_le le_trans by blast
  have c: "length (takeWhile (\<lambda>c. \<not> is_sep2 c) ?d2) \<le> length ?d2" by (rule length_takeWhile_le)
  have d: "length (dropWhile is_sep2 (dropWhile (\<lambda>c. \<not> is_sep2 c) ?d2)) \<le> length ?d2"
    using length_dropWhile_le le_trans by blast
  show ?thesis
    using a b c d assms by (simp add: smGetCfgOption_def Let_def SZ_KEYW_def SZ_VAL_def)
qed

lemma parse_string_loop_short:
  "length ip < SZ_KEYW \<Longrightarrow> \<exists>cr'. parse_string_loop ip cr = Some cr'"
proof (induction ip cr rule: parse_string_loop.induct)
  case (1 ip cr)
  show ?case
  proof (cases "ip = []")
    case True
    then show ?thesis by (simp add: parse_string_loop.simps)
  next
    case False
    obtain keyw val rest where o: "smGetCfgOption ip = Some (keyw, val, rest)"
      and le: "length rest \<le> length ip" using smGetCfgOption_short "1.prems" by blast
    obtain cr' where "parse_string_loop rest (apply_option cr keyw val) = Some cr'"
      using "1.IH" [OF False o refl refl] le "1.prems" by auto
    then show ?thesis using False o by (simp add: parse_string_loop.simps [of ip])
  qed
qed

lemma sint_small: "0 \<le> k \<Longrightarrow> k < 2 ^ 31 \<Longrightarrow> sint (word_of_int k :: xlong) = k"
  using signed_take_bit_int_eq_self [of 31 k] by (simp add: signed_of_int)

lemma smParseConfig_ok:
  assumes "smParseConfig env config cfg = Some (status, cfg', reader)"
  shows "cfg_ok (word_of_int (getpagesize env div 1024)) (cfg', reader)
    \<and> cfg_cache_size cfg' = cache_size_for env cfg'"
proof -
  let ?ps = "word_of_int (getpagesize env div 1024) :: xlong"
  let ?cfg0 = "parse_config_init env cfg"
  note init = parse_config_init_ok [of env cfg]
  have fin: "cfg_ok ?ps (c\<lparr>cfg_cache_size := z\<rparr>, r) = cfg_ok ?ps (c, r)" for c z r
    by (simp add: cfg_ok_def)
  have siz: "cache_size_for env (c\<lparr>cfg_cache_size := z\<rparr>) = cache_size_for env c" for c z
    by (simp add: cache_size_for_def)
  have def: "cfg_ok ?ps (c, r) \<Longrightarrow> cfg_ok ?ps (smSetConfigDefaults c, r)" for c r
    by (simp add: cfg_ok_def smSetConfigDefaults_def)
  obtain st c r where p: "(case config of None \<Rightarrow> Some (OK, ?cfg0, TY_ANY)
      | Some s \<Rightarrow> if readable env s then smParseCfgFile env False (Some s) ?cfg0 TY_ANY
        else (case smParseCfgString (Some s) ?cfg0 TY_ANY of None \<Rightarrow> None
          | Some (status, cfg1, reader1) \<Rightarrow>
              if read_writable env (cfg_cache_path cfg1) then
                smParseCfgFile env True (Some (cfg_cache_path cfg1)) (smSetConfigDefaults cfg1) reader1
              else Some (status, cfg1, reader1))) = Some (st, c, r)"
    and eq: "cfg' = c\<lparr>cfg_cache_size := cache_size_for env c\<rparr>" "reader = r"
    using assms unfolding smParseConfig_def Let_def
    by (auto split: option.splits if_splits)
  have str: "cfg_ok ?ps (c1, r1) \<and> cfg_ok ?ps (smSetConfigDefaults c1, r1)" if "smParseCfgString s ?cfg0 TY_ANY = Some (st1, c1, r1)" for s st1 c1 r1
    using smParseCfgString_ok [OF that init] def by blast
  have "cfg_ok ?ps (c, r)"
  proof (cases config)
    case None
    then show ?thesis using p init by simp
  next
    case (Some s)
    then show ?thesis
      using p init str
      by (auto split: option.splits if_splits elim!: smParseCfgFile_ok)
  qed
  then show ?thesis by (simp add: eq fin siz)
qed

subsection \<open>Properties\<close>

text \<open>Limits of a parsed configuration.  Whatever the configuration string or file
  holds, the parsed configuration manages at most \<open>MAX_SEGS\<close> segments, \<open>max_segs\<close> is
  \<open>MAX_SEGS\<close>, the reader flag is one of the defined types, and the cache object is
  larger than the cache structure by at most one unit of \<open>getpagesize()/1024\<close> and a multiple
  of that unit.\<close>

theorem smParseConfig_limits:
  assumes parsed: "smParseConfig env config cfg = Some (status, cfg', reader)"
    and page: "1024 \<le> getpagesize env" "getpagesize env < 2 ^ 31"
  shows "cfg_nsegs cfg' \<le> MAX_SEGS \<and> cfg_max_segs cfg' = MAX_SEGS
    \<and> reader \<in> {TY_NONE, TY_ANY, TY_DATA, TY_META}
    \<and> sizeof_smCache env < cfg_cache_size cfg'
    \<and> cfg_cache_size cfg' \<le> sizeof_smCache env + getpagesize env div 1024
    \<and> (getpagesize env div 1024) dvd cfg_cache_size cfg'"
proof -
  let ?g = "getpagesize env div 1024"
  have g: "0 < ?g" "?g < 2 ^ 31" using page by auto
  have ok: "cfg_ok (word_of_int ?g) (cfg', reader)"
    and size: "cfg_cache_size cfg' = cache_size_for env cfg'"
    using smParseConfig_ok [OF parsed] by simp_all
  have ps: "sint (cfg_sys_page_size cfg') = ?g"
    using ok g sint_small [of ?g] by (simp add: cfg_ok_def)
  have "cfg_cache_size cfg' = ((sizeof_smCache env + ?g) div ?g) * ?g"
    unfolding size cache_size_for_def Let_def ps by (rule refl)
  then have "sizeof_smCache env < cfg_cache_size cfg' \<and> cfg_cache_size cfg' \<le> sizeof_smCache env + ?g
      \<and> ?g dvd cfg_cache_size cfg'"
    using round_up_bounds [OF g(1), of "sizeof_smCache env"] by metis
  then show ?thesis using ok by (simp add: cfg_ok_def)
qed

definition sample_env :: cfg_env where
  "sample_env = \<lparr>getuid = 500, getpagesize = 4096, sc_phys_pages = 1000000, sc_avphys_pages = 500000,
     smc_debug_env = 0, readable = (\<lambda>_. False), read_writable = (\<lambda>_. False),
     file_text = (\<lambda>_. None), junk_len = 2000, sizeof_smCache = 7000001\<rparr>"

theorem smParseConfig_limits_witness:
  "\<exists>cfg. smParseConfig sample_env None zero_config = Some (OK, cfg, TY_ANY)
    \<and> cfg_cache_size cfg = 7000004 \<and> cfg_max_segs cfg = MAX_SEGS"
proof -
  let ?cfg = "(parse_config_init sample_env zero_config)\<lparr>cfg_cache_size :=
    cache_size_for sample_env (parse_config_init sample_env zero_config)\<rparr>"
  have p: "smParseConfig sample_env None zero_config = Some (OK, ?cfg, TY_ANY)"
    by (simp add: smParseConfig_def Let_def)
  have env: "getpagesize sample_env = 4096" "sizeof_smCache sample_env = 7000001"
    by (simp_all add: sample_env_def)
  have "cfg_max_segs ?cfg = MAX_SEGS" "7000001 < cfg_cache_size ?cfg"
    "cfg_cache_size ?cfg \<le> 7000005" "4 dvd cfg_cache_size ?cfg"
    using smParseConfig_limits [OF p] by (simp_all add: env)
  then have "cfg_cache_size ?cfg = 7000004" by presburger
  then show ?thesis using p \<open>cfg_max_segs ?cfg = MAX_SEGS\<close> by blast
qed

text \<open>C39.  Round trip.  Options written as \<open>keyword=value,\<close> with tokens that fit the
  parser's buffers are read back one by one, in order, whatever the keywords are.\<close>

theorem smParseCfgString_roundtrip:
  assumes "list_all option_token kvs" and "length (fmt_options kvs) < SZ_PATH"
  shows "smParseCfgString (Some (fmt_options kvs)) cfg reader
    = (let cr = fold (\<lambda>(k, v) cr. apply_option cr k v) kvs (cfg, reader)
       in Some (OK, (fst cr)\<lparr>cfg_config := fmt_options kvs\<rparr>, snd cr))"
  using assms parse_string_loop_fmt [OF assms(1), of "(cfg, reader)"]
  by (simp add: smParseCfgString_def Let_def split: prod.splits)

theorem smParseCfgString_roundtrip_witness:
  "\<exists>cfg. smParseCfgString (Some ''nsegs=12,segments=meta,'') zero_config TY_ANY = Some (OK, cfg, TY_META)
    \<and> cfg_nsegs cfg = 12"
proof -
  let ?kvs = "[(''nsegs'', ''12''), (''segments'', ''meta'')]"
  have fmt: "fmt_options ?kvs = ''nsegs=12,segments=meta,''" by (simp add: fmt_options_def)
  have tok: "list_all option_token ?kvs"
    by (simp add: option_token_def is_keyw_char_def is_sep2_def char0_def c_isalnum_def c_isdigit_def
        c_isupper_def c_islower_def c_isspace_def c_code_def SZ_KEYW_def SZ_VAL_def)
  have "atoi ''12'' = 12"
    by (simp add: atoi_def c_isspace_def c_isdigit_def c_code_def)
  then show ?thesis
    using smParseCfgString_roundtrip [OF tok, of zero_config TY_ANY] unfolding fmt
    by (simp add: SZ_PATH_def Let_def apply_option_def strncmp_eq_def smSetCfgOption_def
        set_seg_reader_def char0_def MAX_SEGS_def)
qed

text \<open>A configuration string shorter than the token buffers is always parsed: no
  buffer is overrun, the parse ends and reports \<open>OK\<close>.\<close>

theorem smParseCfgString_total:
  assumes "length s < SZ_KEYW"
  shows "\<exists>cfg' reader'. smParseCfgString (Some s) cfg reader = Some (OK, cfg', reader')"
proof -
  obtain c r where "parse_string_loop s (cfg, reader) = Some (c, r)"
    using parse_string_loop_short [OF assms] by fastforce
  then show ?thesis using assms by (simp add: smParseCfgString_def SZ_KEYW_def SZ_PATH_def)
qed

theorem smParseCfgString_total_witness:
  "\<exists>cfg' reader'. smParseCfgString (Some ''debug = yes,,verbose'') zero_config TY_ANY
     = Some (OK, cfg', reader')"
  by (rule smParseCfgString_total) (simp add: SZ_KEYW_def)

text \<open>The line loop of \<open>smParseCfgFile\<close> is bounded by a variable that is never
  initialised.  When that variable happens to be negative no line of any file is read: the
  configuration is unchanged but for the file's name, and the status is still \<open>OK\<close>.\<close>

theorem smParseCfgFile_uninitialised_len:
  assumes "junk_len env < 0" and "file_text env f = Some contents" and "length f < SZ_PATH"
  shows "smParseCfgFile env False (Some f) cfg reader
    = Some (OK, cfg\<lparr>cfg_config := f, cfg_cache_path := f\<rparr>, reader)"
proof -
  have "parse_file_loop (junk_len env) s d cr = Some cr" for s d cr
    using assms(1)
  proof (induction "junk_len env" s d cr rule: parse_file_loop.induct)
    case (1 s d cr)
    obtain line rest where f: "fgets (SZ_LINE - 1) s = (line, rest)" by fastforce
    have "parse_line_loop (junk_len env) 0 line cr = Some (False, cr)"
      using "1.prems" by (simp add: parse_line_loop.simps)
    then show ?case
      using 1 f by (subst parse_file_loop.simps) (auto simp del: One_nat_def)
  qed
  then show ?thesis using assms(2,3) by (simp add: smParseCfgFile_def)
qed

theorem smParseCfgFile_uninitialised_len_witness:
  "smParseCfgFile (sample_env\<lparr>junk_len := -1, file_text := (\<lambda>_. Some ''nsegs=12'')\<rparr>) False
     (Some ''/tmp/cfg'') zero_config TY_ANY
   = Some (OK, zero_config\<lparr>cfg_config := ''/tmp/cfg'', cfg_cache_path := ''/tmp/cfg''\<rparr>, TY_ANY)"
  by (rule smParseCfgFile_uninitialised_len [where contents = "''nsegs=12''"])
    (simp_all add: SZ_PATH_def)

end
