(* ===== verification/SmUtil.thy ===== *)
theory SmUtil
  imports SmConfig
begin

section \<open>Shared memory utilities (lib/smc/smUtil.c)\<close>

text \<open>
  The routines that create, attach and detach System V segments and keep the lock
  files.  The kernel is the record \<open>os_env\<close>: what each call answers in the state in
  which it is made.  What the routines do to the kernel and to the file system is the
  list of \<open>sys_event\<close>s they return, in order.  Diagnostics are not modelled; a write
  past a fixed buffer is \<open>None\<close>.
\<close>

record os_env =
  fopen_append :: "string \<Rightarrow> bool" \<comment> \<open>\<open>fopen (f, "a")\<close> succeeds\<close>
  append_pos :: "string \<Rightarrow> int" \<comment> \<open>\<open>ftell\<close> right after it\<close>
  ftok :: "string \<Rightarrow> int \<Rightarrow> key_t"
  shmget :: "key_t \<Rightarrow> xlong \<Rightarrow> bool \<Rightarrow> int" \<comment> \<open>key, size, \<open>IPC_CREAT\<close>; \<open>ERR\<close> on failure\<close>
  shmat :: "int \<Rightarrow> addr_t" \<comment> \<open>\<open>ERR\<close> on failure\<close>
  shm_nattch :: "int \<Rightarrow> int option" \<comment> \<open>\<open>IPC_STAT\<close>; \<open>None\<close> on failure\<close>
  os_pid :: pid_t
  os_time :: int \<comment> \<open>\<open>time (NULL)\<close>, for the comments in the lock files\<close>

datatype sys_event =
    FileAppend string string
  | ShmAttach int addr_t
  | ShmZero addr_t xlong
  | ShmDetach addr_t
  | ShmRemove int
  | Unlink string

definition NL :: string where
  "NL = [CHR 0x0A]"

definition TAB :: string where
  "TAB = [CHR 0x09]"

text \<open>A line \<open>keyword = value\<close> of a lock file.\<close>

definition kv_line :: "string \<Rightarrow> string \<Rightarrow> string" where
  "kv_line k v = k @ '' = '' @ v @ NL"

definition init_comment :: "os_env \<Rightarrow> string" where
  "init_comment os = ''# init pid='' @ show_int (os_pid os) @ '' ('' @ show_int (os_time os) @ '')'' @ NL"

definition lockfile_config :: "sysConfig_t \<Rightarrow> string" where
  "lockfile_config cfg =
     kv_line ''cache_path'' (cfg_cache_path cfg) @
     kv_line ''cache_size'' (show_int (cfg_cache_size cfg)) @
     kv_line ''nsegs'' (show_int (cfg_nsegs cfg)) @
     kv_line ''min_seg_size'' (show_int (cfg_min_seg_size cfg)) @
     kv_line ''lock_cache'' (show_int (cfg_lock_cache cfg)) @
     kv_line ''lock_segs'' (show_int (cfg_lock_segs cfg))"

text \<open>The key, the \<open>new\<close> flag, the updated configuration and the events.\<close>

definition smUtilInitCache ::
  "os_env \<Rightarrow> int \<Rightarrow> sysConfig_t \<Rightarrow> (key_t \<times> bool \<times> sysConfig_t \<times> sys_event list) option" where
  "smUtilInitCache os uid cfg0 =
     (let cfg = (if cfg_cache_path cfg0 = [] then cfg0\<lparr>cfg_cache_path := DEF_CACHE_FILE uid\<rparr>
                 else cfg0);
          fname = cfg_cache_path cfg in
      if SZ_FNAME \<le> length fname then None
      else if \<not> fopen_append os fname then
        Some (ERR, False, cfg\<lparr>cfg_cache_path := ''''\<rparr>, [])
      else
        let new = (append_pos os fname = 0);
            memKey = ftok os fname (int (length fname mod 256));
            contents = (if new then lockfile_config cfg else '''') @ init_comment os @
              kv_line ''cache_memKey'' (show_int memKey)
        in Some (memKey, new, cfg\<lparr>cfg_cache_memKey := memKey\<rparr>, [FileAppend fname contents]))"

text \<open>The key, the \<open>new\<close> flag, the lock file name (cleared when it cannot be opened) and
  the events.\<close>

definition smUtilInitSegment ::
  "os_env \<Rightarrow> string \<Rightarrow> (key_t \<times> bool \<times> string \<times> sys_event list) option" where
  "smUtilInitSegment os lockFile =
     (if SZ_FNAME \<le> length lockFile then None
      else if \<not> fopen_append os lockFile then Some (ERR, False, '''', [])
      else Some (ftok os lockFile (int (length lockFile mod 256)), append_pos os lockFile = 0,
             lockFile, [FileAppend lockFile (init_comment os)]))"

definition attach_comment :: "os_env \<Rightarrow> addr_t \<Rightarrow> int \<Rightarrow> xlong \<Rightarrow> string" where
  "attach_comment os addr shmId sz =
     kv_line ''cache_addr'' (show_int addr) @ kv_line ''E_O_C'' ''true'' @
     ''# attach pid='' @ show_int (os_pid os) @ '' ('' @ show_int (os_time os) @ '')'' @ TAB @
     ''shmid='' @ show_int shmId @ ''  size='' @ show_int (sint sz) @ NL"

text \<open>The address (0 on failure), the value left in \<open>*create\<close> and the events.\<close>

definition smUtilAttach ::
  "os_env \<Rightarrow> key_t \<Rightarrow> string \<Rightarrow> xlong \<Rightarrow> int \<Rightarrow> addr_t \<times> int \<times> sys_event list" where
  "smUtilAttach os memKey lockfile sz create =
     (if memKey = 0 \<or> sz = 0 then (0, create, [])
      else let shmId = shmget os memKey sz (create \<noteq> 0) in
        if shmId = ERR then (0, ERR, [])
        else let retAddr = shmat os shmId in
          if retAddr = ERR then (0, ERR, [])
          else if \<not> fopen_append os lockfile then (0, ERR, [ShmAttach shmId retAddr])
          else (retAddr, shmId,
            [ShmAttach shmId retAddr, FileAppend lockfile (attach_comment os retAddr shmId sz)] @
            (if create \<noteq> 0 then [ShmZero retAddr sz] else [])))"

text \<open>The segment is looked up with a size of 123 bytes.  The lock file name is copied into
  a buffer of 128 bytes.\<close>

definition smUtilDetach ::
  "os_env \<Rightarrow> key_t \<Rightarrow> string \<Rightarrow> addr_t \<Rightarrow> bool \<Rightarrow> sys_event list option" where
  "smUtilDetach os memKey lockfile address clearLock =
     (if 128 \<le> length lockfile then None
      else let shmId = shmget os memKey 123 False in
        if shmId = ERR then Some []
        else case shm_nattch os shmId of
          None \<Rightarrow> Some []
        | Some nattch \<Rightarrow>
            Some ([ShmDetach address] @
              (if clearLock \<and> nattch = 1 then [ShmRemove shmId, Unlink lockfile] else [])))"

text \<open>\<open>None\<close> of the argument is the null pointer; \<open>None\<close> of the result the trap of a
  remainder by zero.\<close>

definition smUtilSize :: "xlong option \<Rightarrow> xlong \<Rightarrow> (xlong \<times> xlong option) option" where
  "smUtilSize inSize inUnit =
     (case inSize of
        None \<Rightarrow> Some (0, None)
      | Some sz \<Rightarrow>
          if inUnit = 0 then Some (0, Some sz)
          else if sz = 0 then None
          else let sz' = (if inUnit mod sz \<noteq> 0 then (sz div inUnit + 1) * inUnit else sz)
               in Some (sz', Some sz'))"

definition smUtilKey2ID :: "os_env \<Rightarrow> key_t \<Rightarrow> int" where
  "smUtilKey2ID os memKey = shmget os memKey 0 False"

definition smUtilExists :: "os_env \<Rightarrow> key_t \<Rightarrow> bool" where
  "smUtilExists os memKey \<longleftrightarrow> shmget os memKey 0 False \<noteq> -1"

subsection \<open>Reading a lock file back\<close>

definition is_int32 :: "int \<Rightarrow> bool" where
  "is_int32 i \<longleftrightarrow> - (2 ^ 31) \<le> i \<and> i < 2 ^ 31"

lemma length_show_nat: "n < 10 ^ Suc k \<Longrightarrow> length (show_nat n) \<le> Suc k"
proof (induction k arbitrary: n)
  case 0
  then show ?case by (subst show_nat.simps) simp
next
  case (Suc k)
  show ?case
  proof (cases "n < 10")
    case True
    then show ?thesis by (subst show_nat.simps) simp
  next
    case False
    have "n div 10 < 10 ^ Suc k" using Suc.prems by (simp add: less_mult_imp_div_less)
    then have "length (show_nat (n div 10)) \<le> Suc k" by (rule Suc.IH)
    then show ?thesis using False by (subst show_nat.simps) simp
  qed
qed

lemma length_show_int32: "is_int32 i \<Longrightarrow> length (show_int i) \<le> 11"
proof -
  assume i: "is_int32 i"
  have "nat i < 10 ^ Suc 9" "nat (- i) < 10 ^ Suc 9" using i by (auto simp: is_int32_def)
  then have "length (show_nat (nat i)) \<le> Suc 9" "length (show_nat (nat (- i))) \<le> Suc 9"
    by (blast intro: length_show_nat)+
  then show ?thesis by (simp add: show_int_def)
qed

lemma newline_char: "c_isspace CHR 0x0A" "is_sep2 CHR 0x0A" "\<not> is_keyw_char CHR 0x0A"
  by (simp_all add: is_sep2_def is_keyw_char_def c_isalnum_def c_isdigit_def
      c_isupper_def c_islower_def c_isspace_def c_code_def)

lemma hash_char: "\<not> is_keyw_char CHR ''#''"
  by (simp add: is_keyw_char_def c_isalnum_def c_isdigit_def c_isupper_def c_islower_def c_code_def)

lemma show_int_no_newline: "CHR 0x0A \<notin> set (show_int i)"
  using show_int_token [of i] newline_char(1) by (auto simp: list_all_iff)

lemma fgets_line:
  "CHR 0x0A \<notin> set l \<Longrightarrow> length l < n \<Longrightarrow> fgets n (l @ CHR 0x0A # rest) = (l @ NL, rest)"
proof (induction l arbitrary: n)
  case Nil
  then show ?case by (cases n) (simp_all add: NL_def)
next
  case (Cons c l)
  then obtain m where "n = Suc m" by (cases n) auto
  moreover have "c \<noteq> CHR 0x0A" using Cons.prems by auto
  ultimately show ?case using Cons by simp
qed

text \<open>A value that a \<open>keyword = value\<close> line carries unchanged.\<close>

definition line_value :: "string \<Rightarrow> bool" where
  "line_value v \<longleftrightarrow> v \<noteq> [] \<and> char0 v \<noteq> CHR ''='' \<and> list_all (\<lambda>c. \<not> is_sep2 c) v \<and> length v < SZ_VAL"

lemma line_value_show_int: "is_int32 i \<Longrightarrow> line_value (show_int i)"
proof -
  assume i: "is_int32 i"
  have "char0 (show_int i) \<noteq> CHR ''=''"
    using show_int_token [of i] by (cases "show_int i") (auto simp: char0_def)
  then show ?thesis
    using i show_int_token [of i] length_show_int32 [OF i]
    by (auto simp: line_value_def is_sep2_def SZ_VAL_def list_all_iff)
qed

lemma smGetCfgOption_kv_line:
  assumes k: "list_all is_keyw_char k" "length k < SZ_KEYW" and v: "line_value v"
  shows "smGetCfgOption (kv_line k v) = Some (k, v, [])"
proof -
  have sp: "is_sep1 CHR '' ''" "is_sep2 CHR 0x0A" "\<not> is_keyw_char CHR '' ''"
    by (simp_all add: is_sep1_def is_sep2_def is_keyw_char_def c_isalnum_def c_isdigit_def
        c_isupper_def c_islower_def c_isspace_def c_code_def)
  have v': "v \<noteq> []" "\<not> is_sep2 (hd v)" "hd v \<noteq> CHR ''=''"
    using v by (cases v; simp add: line_value_def char0_def)+
  have k1: "takeWhile is_keyw_char (k @ '' = '' @ v @ NL) = k
      \<and> dropWhile is_keyw_char (k @ '' = '' @ v @ NL) = '' = '' @ v @ NL"
    by (rule dropWhile_all_then) (use k sp in simp_all)
  have "\<not> is_sep1 (hd v)" using v' by (simp add: is_sep1_def is_sep2_def)
  moreover have "is_sep1 CHR ''=''" by (simp add: is_sep1_def)
  ultimately have s1: "dropWhile is_sep1 ('' = '' @ v @ NL) = v @ NL"
    using v'(1) sp by (cases v) simp_all
  have v1: "takeWhile (\<lambda>c. \<not> is_sep2 c) (v @ NL) = v \<and> dropWhile (\<lambda>c. \<not> is_sep2 c) (v @ NL) = NL"
    by (rule dropWhile_all_then) (use v sp in \<open>simp_all add: line_value_def NL_def\<close>)
  have s2: "dropWhile is_sep2 NL = []" using sp by (simp add: NL_def)
  show ?thesis
    unfolding smGetCfgOption_def Let_def kv_line_def using k1 s1 v1 s2 k v by (simp add: line_value_def)
qed

lemma kv_line_fgets:
  assumes "list_all is_keyw_char k" "length k < SZ_KEYW" and "line_value v"
  shows "fgets (SZ_LINE - 1) (kv_line k v @ rest) = (kv_line k v, rest)"
proof -
  have "CHR 0x0A \<notin> set (k @ '' = '' @ v)"
    using assms newline_char by (auto simp: list_all_iff line_value_def)
  then show ?thesis
    using fgets_line [of "k @ '' = '' @ v" "SZ_LINE - 1" rest] assms
    by (simp add: kv_line_def NL_def SZ_LINE_def SZ_KEYW_def SZ_VAL_def line_value_def)
qed

definition line_keyword :: "string \<Rightarrow> bool" where
  "line_keyword k \<longleftrightarrow> k \<noteq> [] \<and> list_all is_keyw_char k \<and> length k < SZ_KEYW"

lemma parse_file_kv_line:
  assumes kw: "line_keyword k" and v: "line_value v" and len: "0 \<le> len"
  shows "parse_file_loop len (kv_line k v @ rest) False cr =
    (if strncmp_eq k ''E_O_C'' 5 then parse_file_loop len rest True cr
     else parse_file_loop len rest False (apply_option cr k v))"
proof -
  have k: "k \<noteq> []" "list_all is_keyw_char k" "length k < SZ_KEYW"
    using kw by (simp_all add: line_keyword_def)
  have c0: "char0 (kv_line k v) \<noteq> CHR 0x0A" "char0 (kv_line k v) \<noteq> CHR ''#''" "kv_line k v \<noteq> []"
    using k newline_char(3) hash_char by (cases k; auto simp: kv_line_def char0_def)+
  have "parse_line_loop len 0 (kv_line k v) cr =
    (if strncmp_eq k ''E_O_C'' 5 then Some (True, cr) else Some (False, apply_option cr k v))"
    using smGetCfgOption_kv_line [OF k(2,3) v] len c0(3)
    by (simp add: parse_line_loop.simps [of len 0] parse_line_loop.simps [of _ _ "[]"])
  then show ?thesis
    using kv_line_fgets [OF k(2,3) v, of rest] c0
    by (simp add: parse_file_loop.simps [of len "kv_line k v @ rest"])
qed

lemma parse_file_comment:
  assumes "CHR 0x0A \<notin> set l" and "length l < SZ_LINE - 2"
  shows "parse_file_loop len ((CHR ''#'' # l) @ CHR 0x0A # rest) False cr
    = parse_file_loop len rest False cr"
  using fgets_line [of "CHR ''#'' # l" "SZ_LINE - 1" rest] assms
  by (subst parse_file_loop.simps) (simp add: char0_def SZ_LINE_def)

lemma parse_file_done: "parse_file_loop len s True cr = Some cr"
  by (subst parse_file_loop.simps) (simp split: prod.splits)

lemma parse_file_init_comment:
  assumes "is_int32 (os_pid os)" "is_int32 (os_time os)"
  shows "parse_file_loop len (init_comment os @ rest) False cr = parse_file_loop len rest False cr"
proof -
  let ?l = "'' init pid='' @ show_int (os_pid os) @ '' ('' @ show_int (os_time os) @ '')''"
  have "init_comment os @ rest = (CHR ''#'' # ?l) @ CHR 0x0A # rest"
    by (simp add: init_comment_def NL_def)
  moreover have "CHR 0x0A \<notin> set ?l" using show_int_no_newline by simp
  moreover have "length ?l < SZ_LINE - 2"
    using length_show_int32 [OF assms(1)] length_show_int32 [OF assms(2)] by (simp add: SZ_LINE_def)
  ultimately show ?thesis using parse_file_comment by metis
qed

subsection \<open>Properties\<close>

lemma lock_keywords:
  "line_keyword ''cache_path''" "line_keyword ''cache_size''" "line_keyword ''nsegs''"
  "line_keyword ''min_seg_size''" "line_keyword ''lock_cache''" "line_keyword ''lock_segs''"
  "line_keyword ''cache_memKey''" "line_keyword ''cache_addr''" "line_keyword ''E_O_C''"
  by (simp_all add: line_keyword_def is_keyw_char_def c_isalnum_def c_isdigit_def c_isupper_def
      c_islower_def c_code_def SZ_KEYW_def)

lemma true_value: "line_value ''true''"
  by (simp add: line_value_def char0_def is_sep2_def c_isspace_def c_code_def SZ_VAL_def)

definition lockfile_options :: "sysConfig_t \<Rightarrow> key_t \<Rightarrow> addr_t \<Rightarrow> (string \<times> string) list" where
  "lockfile_options cfg key addr =
     [(''cache_path'', cfg_cache_path cfg), (''cache_size'', show_int (cfg_cache_size cfg)),
      (''nsegs'', show_int (cfg_nsegs cfg)), (''min_seg_size'', show_int (cfg_min_seg_size cfg)),
      (''lock_cache'', show_int (cfg_lock_cache cfg)), (''lock_segs'', show_int (cfg_lock_segs cfg)),
      (''cache_memKey'', show_int key), (''cache_addr'', show_int addr)]"

definition cfg_int32 :: "sysConfig_t \<Rightarrow> bool" where
  "cfg_int32 cfg \<longleftrightarrow> is_int32 (cfg_cache_size cfg) \<and> is_int32 (cfg_nsegs cfg)
     \<and> is_int32 (cfg_min_seg_size cfg) \<and> is_int32 (cfg_lock_cache cfg) \<and> is_int32 (cfg_lock_segs cfg)"

lemma parse_lockfile:
  assumes "line_value (cfg_cache_path cfg)" and "cfg_int32 cfg"
    and "is_int32 key" "is_int32 addr" "is_int32 (os_pid os)" "is_int32 (os_time os)" and "0 \<le> len"
  shows "parse_file_loop len (lockfile_config cfg @ init_comment os
      @ kv_line ''cache_memKey'' (show_int key) @ attach_comment os addr shmId sz) False cr
    = Some (fold (\<lambda>(k, v) cr. apply_option cr k v) (lockfile_options cfg key addr) cr)"
  using assms
  by (simp add: lockfile_config_def attach_comment_def parse_file_kv_line lock_keywords
      line_value_show_int cfg_int32_def parse_file_init_comment parse_file_done true_value
      strncmp_eq_def lockfile_options_def)

lemma apply_lockfile_options:
  assumes "cfg_cache_path cfg \<noteq> []"
  shows "fold (\<lambda>(k, v) cr. apply_option cr k v) (lockfile_options cfg key addr) (cfg0, r)
    = (cfg0\<lparr>cfg_cache_path := cfg_cache_path cfg, cfg_cache_size := cfg_cache_size cfg,
        cfg_nsegs := min MAX_SEGS (cfg_nsegs cfg),
        cfg_min_seg_size := max (sint (cfg_sys_page_size cfg0)) (cfg_min_seg_size cfg),
        cfg_lock_cache := flag_value (show_int (cfg_lock_cache cfg)),
        cfg_lock_segs := flag_value (show_int (cfg_lock_segs cfg)),
        cfg_cache_memKey := key, cfg_cache_addr := addr\<rparr>, r)"
  using assms
  by (simp add: lockfile_options_def apply_option_def smSetCfgOption_def strncmp_eq_def atoi_show_int
      min_def max_def Let_def)

text \<open>What a list of events has appended to a file.\<close>

definition appended :: "string \<Rightarrow> sys_event list \<Rightarrow> string" where
  "appended f evs = concat (map (\<lambda>e. case e of FileAppend g s \<Rightarrow> if g = f then s else [] | _ \<Rightarrow> []) evs)"

lemma smUtilInitCache_new:
  assumes "smUtilInitCache os uid cfg = Some (key, True, cfg', evs)" "cfg_cache_path cfg \<noteq> []"
  shows "evs = [FileAppend (cfg_cache_path cfg)
    (lockfile_config cfg @ init_comment os @ kv_line ''cache_memKey'' (show_int key))]"
  using assms by (auto simp: smUtilInitCache_def Let_def split: if_splits)

lemma smUtilAttach_appends:
  assumes "smUtilAttach os key f sz create = (addr, shmId, evs)" "addr \<noteq> 0"
  shows "appended f evs = attach_comment os addr shmId sz"
  using assms by (auto simp: smUtilAttach_def Let_def appended_def split: if_splits)

lemma flag_value_bool:
  assumes "i = 0 \<or> i = 1"
  shows "flag_value (show_int i) = i"
proof -
  have "show_nat 0 = ''0''" "show_nat (Suc 0) = ''1''" by (code_simp, code_simp)
  then show ?thesis using assms by (auto simp: show_int_def flag_value_def strchr_found_def char0_def NUL_def)
qed

text \<open>C38.  The lock file carries the cache to the next process.  After \<open>smUtilInitCache\<close> has found a new lock
  file and \<open>smUtilAttach\<close> has attached the segment, \<open>smParseCfgFile\<close> reads from what the two have
  appended the path, the size, the key and the address of the cache as they were.  The number of segments
  comes back cut to \<open>MAX_SEGS\<close>, the least segment size raised to the page size of the reader, and each lock
  flag as the boolean that the first character of its number stands for; so these four come back as they
  were under the limits stated last, flags being 0 or 1.\<close>

theorem lockfile_roundtrip:
  assumes init: "smUtilInitCache os uid cfg = Some (key, True, cfg', evs1)"
    and attach: "smUtilAttach os key (cfg_cache_path cfg) sz create = (addr, shmId, evs2)" "addr \<noteq> 0"
    and path: "line_value (cfg_cache_path cfg)" and ints: "cfg_int32 cfg"
    and ids: "is_int32 key" "is_int32 addr" "is_int32 (os_pid os)" "is_int32 (os_time os)"
    and contents: "file_text env (cfg_cache_path cfg) = Some (appended (cfg_cache_path cfg) (evs1 @ evs2))"
    and len: "0 \<le> junk_len env"
  shows "\<exists>cfg2. smParseCfgFile env False (Some (cfg_cache_path cfg)) cfg0 reader = Some (OK, cfg2, reader)
    \<and> cfg2 = cfg0\<lparr>cfg_config := cfg_cache_path cfg, cfg_cache_path := cfg_cache_path cfg,
        cfg_cache_size := cfg_cache_size cfg, cfg_nsegs := min MAX_SEGS (cfg_nsegs cfg),
        cfg_min_seg_size := max (sint (cfg_sys_page_size cfg0)) (cfg_min_seg_size cfg),
        cfg_lock_cache := flag_value (show_int (cfg_lock_cache cfg)),
        cfg_lock_segs := flag_value (show_int (cfg_lock_segs cfg)),
        cfg_cache_memKey := key, cfg_cache_addr := addr\<rparr>
    \<and> (cfg_nsegs cfg \<le> MAX_SEGS \<longrightarrow> cfg_nsegs cfg2 = cfg_nsegs cfg)
    \<and> (sint (cfg_sys_page_size cfg0) \<le> cfg_min_seg_size cfg \<longrightarrow> cfg_min_seg_size cfg2 = cfg_min_seg_size cfg)
    \<and> (cfg_lock_cache cfg \<in> {0, 1} \<longrightarrow> cfg_lock_cache cfg2 = cfg_lock_cache cfg)
    \<and> (cfg_lock_segs cfg \<in> {0, 1} \<longrightarrow> cfg_lock_segs cfg2 = cfg_lock_segs cfg)"
proof -
  have ne: "cfg_cache_path cfg \<noteq> []" and short: "length (cfg_cache_path cfg) < SZ_PATH"
    using path by (simp_all add: line_value_def SZ_VAL_def SZ_PATH_def)
  have "appended (cfg_cache_path cfg) (evs1 @ evs2) = lockfile_config cfg @ init_comment os
      @ kv_line ''cache_memKey'' (show_int key) @ attach_comment os addr shmId sz"
    using smUtilInitCache_new [OF init ne] smUtilAttach_appends [OF attach] by (simp add: appended_def)
  then have "smParseCfgFile env False (Some (cfg_cache_path cfg)) cfg0 reader
    = Some (OK, cfg0\<lparr>cfg_config := cfg_cache_path cfg, cfg_cache_path := cfg_cache_path cfg,
        cfg_cache_size := cfg_cache_size cfg, cfg_nsegs := min MAX_SEGS (cfg_nsegs cfg),
        cfg_min_seg_size := max (sint (cfg_sys_page_size cfg0)) (cfg_min_seg_size cfg),
        cfg_lock_cache := flag_value (show_int (cfg_lock_cache cfg)),
        cfg_lock_segs := flag_value (show_int (cfg_lock_segs cfg)),
        cfg_cache_memKey := key, cfg_cache_addr := addr\<rparr>, reader)"
    unfolding smParseCfgFile_def
    using contents short
    by (cases cfg0) (simp add: Let_def parse_lockfile [OF path ints ids len] apply_lockfile_options [OF ne])
  then show ?thesis using flag_value_bool by auto
qed

definition sample_os :: os_env where
  "sample_os = \<lparr>fopen_append = (\<lambda>_. True), append_pos = (\<lambda>_. 0), ftok = (\<lambda>f n. 77), shmget = (\<lambda>k s c. 5),
     shmat = (\<lambda>_. 8192), shm_nattch = (\<lambda>_. Some 1), os_pid = 100, os_time = 1000\<rparr>"

definition sample_cfg :: sysConfig_t where
  "sample_cfg = (smSetConfigDefaults zero_config)\<lparr>cfg_cache_path := ''/tmp/.smc500''\<rparr>"

theorem lockfile_roundtrip_witness:
  "\<exists>evs1 evs2 cfg2. smUtilInitCache sample_os 500 sample_cfg
      = Some (77, True, sample_cfg\<lparr>cfg_cache_memKey := 77\<rparr>, evs1)
    \<and> smUtilAttach sample_os 77 ''/tmp/.smc500'' 4096 1 = (8192, 5, evs2)
    \<and> smParseCfgFile (sample_env\<lparr>file_text := (\<lambda>_. Some (appended ''/tmp/.smc500'' (evs1 @ evs2)))\<rparr>)
        False (Some ''/tmp/.smc500'') zero_config TY_ANY = Some (OK, cfg2, TY_ANY)
    \<and> cfg_cache_memKey cfg2 = 77 \<and> cfg_cache_addr cfg2 = 8192 \<and> cfg_nsegs cfg2 = 4096"
proof -
  obtain evs1 where i: "smUtilInitCache sample_os 500 sample_cfg
      = Some (77, True, sample_cfg\<lparr>cfg_cache_memKey := 77\<rparr>, evs1)"
    by (simp add: smUtilInitCache_def Let_def sample_os_def sample_cfg_def SZ_FNAME_def)
  obtain evs2 where t: "smUtilAttach sample_os 77 (cfg_cache_path sample_cfg) 4096 1 = (8192, 5, evs2)"
    by (simp add: smUtilAttach_def Let_def sample_os_def ERR_def)
  let ?env = "sample_env\<lparr>file_text := (\<lambda>_. Some (appended ''/tmp/.smc500'' (evs1 @ evs2)))\<rparr>"
  have p: "cfg_cache_path sample_cfg = ''/tmp/.smc500''" by (simp add: sample_cfg_def)
  have v: "line_value (cfg_cache_path sample_cfg)"
    by (simp add: sample_cfg_def line_value_def char0_def is_sep2_def c_isspace_def c_code_def SZ_VAL_def)
  have n: "cfg_int32 sample_cfg"
    by (simp add: cfg_int32_def sample_cfg_def smSetConfigDefaults_def is_int32_def MAX_SEGS_def)
  have s: "is_int32 77" "is_int32 8192" "is_int32 (os_pid sample_os)" "is_int32 (os_time sample_os)" "(8192::int) \<noteq> 0"
    by (simp_all add: is_int32_def sample_os_def)
  have e: "file_text ?env (cfg_cache_path sample_cfg) = Some (appended (cfg_cache_path sample_cfg) (evs1 @ evs2))"
    "0 \<le> junk_len ?env" by (simp_all add: p sample_env_def)
  show ?thesis
    using lockfile_roundtrip [OF i t s(5) v n s(1-4) e, of zero_config TY_ANY] i t
    by (auto simp: sample_cfg_def smSetConfigDefaults_def MAX_SEGS_def)
qed

text \<open>A segment is destroyed, and its lock file unlinked, exactly when the caller asks
  for it and the kernel counts one attachment; whenever the segment can be looked up and
  examined the caller's address is detached, first.\<close>

theorem smUtilDetach_removes:
  assumes "length lockfile < 128"
  shows "\<exists>evs. smUtilDetach os key lockfile address clearLock = Some evs
    \<and> (Unlink lockfile \<in> set evs \<longleftrightarrow>
        clearLock \<and> shmget os key 123 False \<noteq> ERR \<and> shm_nattch os (shmget os key 123 False) = Some 1)
    \<and> (ShmRemove (shmget os key 123 False) \<in> set evs \<longleftrightarrow> Unlink lockfile \<in> set evs)
    \<and> (evs \<noteq> [] \<longrightarrow> hd evs = ShmDetach address)"
  using assms by (auto simp: smUtilDetach_def Let_def split: option.splits)

theorem smUtilDetach_removes_witness:
  "\<exists>evs. smUtilDetach sample_os 77 ''/tmp/.smc500_0'' 8192 True = Some evs
     \<and> Unlink ''/tmp/.smc500_0'' \<in> set evs"
proof -
  have "shmget sample_os 77 123 False = 5" "shm_nattch sample_os 5 = Some 1" "5 \<noteq> ERR"
    by (simp_all add: sample_os_def ERR_def)
  then show ?thesis
    using smUtilDetach_removes [of "''/tmp/.smc500_0''" sample_os 77 8192 True] by auto
qed

text \<open>\<open>smUtilSize\<close> takes the remainder the wrong way round: a size that divides the
  unit, which is every power of two below the page size, is returned unchanged instead of
  being rounded up to a multiple of the unit, and the size 0 traps.\<close>

theorem smUtilSize_divisors_unchanged:
  "smUtilSize (Some 0) 4096 = None
   \<and> (\<forall>u s. u \<noteq> 0 \<longrightarrow> s \<noteq> 0 \<longrightarrow> u mod s = 0 \<longrightarrow> smUtilSize (Some s) u = Some (s, Some s))
   \<and> smUtilSize (Some 512) 4096 = Some (512, Some 512)"
  by (simp add: smUtilSize_def)

theorem smUtilSize_divisors_unchanged_witness:
  "smUtilSize (Some 1024) 4096 = Some (1024, Some 1024)"
  using smUtilSize_divisors_unchanged by simp

end
