(* ===== verification/SmPage.thy ===== *)
theory SmPage
  imports SmState SmUtil
begin

section \<open>Pages, segments and their attributes (include/smCache.h, lib/smc/smCache.c)\<close>

text \<open>
  A page is an entry of the cache's page array; it names a shared segment, whose first
  bytes are a header of type \<open>smcSegment_t\<close>.  The fields \<open>smc\<close>, \<open>shmid\<close>, \<open>seg_addr\<close>,
  \<open>segment\<close> and \<open>mut\<close> of a page and \<open>mut\<close> of a segment are never used by the code and left
  out.  The \<open>world\<close> holds what is outside the
  cache structure: the headers of the segments by segment id, the segments mapped by each
  process, the log of system events, the number of clock readings made so far and the
  semaphore of the mutual exclusion lock.

  A process reaches the header of a page through the address in its own entry of the page's
  state table (\<open>SEG_ADDR\<close>, \<open>SEG_PTR\<close>).  An access through an address that is not mapped
  is \<open>None\<close>: the C program would fault.

  \<open>proc_env\<close> is the calling process: the kernel it sees, its pid, which pids are alive,
  the clock, the address at which it has the cache, whether it may lock memory and whether
  \<open>calloc\<close> succeeds.
\<close>

record fpConfig_t =
  fp_xSize :: xlong
  fp_ySize :: xlong
  fp_xStart :: xlong
  fp_yStart :: xlong
  fp_dataType :: xlong
  fp_xDir :: xlong
  fp_yDir :: xlong
  fp_xDetSz :: xlong
  fp_yDetSz :: xlong
  fp_xDetCnt :: xlong
  fp_yDetCnt :: xlong

record mdConfig_t =
  md_metaType :: xlong
  md_numFields :: xlong
  md_fieldSize :: "xlong list"
  md_dataType :: "xlong list"

record smcSegment_t =
  seg_smc :: addr_t
  seg_pagenum :: nat
  seg_memKey :: key_t
  seg_shmid :: int
  seg_size :: xlong
  seg_type :: int
  seg_ctime :: cdouble
  seg_who :: xlong
  seg_expID :: cdouble
  seg_obsetID :: string
  seg_dirpath :: string
  seg_froot :: string
  seg_seqno :: int
  seg_colID :: string
  seg_expPageNum :: int
  seg_mdCfg :: mdConfig_t
  seg_fpCfg :: fpConfig_t
  seg_dsize :: xlong
  seg_data :: addr_t
  seg_edata :: addr_t

record smcPage_t =
  pg_memKey :: key_t
  pg_lockFile :: string
  pg_size :: xlong
  pg_free :: int
  pg_type :: int
  pg_ctime :: cdouble
  pg_cpid :: pid_t
  pg_nattached :: int
  pg_refcount :: int
  pg_nreaders :: int
  pg_initialized :: int
  pg_expID :: cdouble
  pg_colID :: string
  pg_ac_locked :: int
  pg_vm_locked :: int
  pg_pstate :: pstate

definition DHS_MAXFIELDS :: nat where
  "DHS_MAXFIELDS = 4096"

definition zero_fpConfig :: fpConfig_t where
  "zero_fpConfig = \<lparr>fp_xSize = 0, fp_ySize = 0, fp_xStart = 0, fp_yStart = 0, fp_dataType = 0,
     fp_xDir = 0, fp_yDir = 0, fp_xDetSz = 0, fp_yDetSz = 0, fp_xDetCnt = 0, fp_yDetCnt = 0\<rparr>"

definition zero_mdConfig :: mdConfig_t where
  "zero_mdConfig = \<lparr>md_metaType = 0, md_numFields = 0, md_fieldSize = replicate DHS_MAXFIELDS 0,
     md_dataType = replicate DHS_MAXFIELDS 0\<rparr>"

definition zero_segment :: smcSegment_t where
  "zero_segment = \<lparr>seg_smc = 0, seg_pagenum = 0, seg_memKey = 0, seg_shmid = 0, seg_size = 0,
     seg_type = 0, seg_ctime = 0, seg_who = 0, seg_expID = 0, seg_obsetID = '''', seg_dirpath = '''',
     seg_froot = '''', seg_seqno = 0, seg_colID = '''', seg_expPageNum = 0, seg_mdCfg = zero_mdConfig,
     seg_fpCfg = zero_fpConfig, seg_dsize = 0, seg_data = 0, seg_edata = 0\<rparr>"

definition zero_page :: smcPage_t where
  "zero_page = \<lparr>pg_memKey = 0, pg_lockFile = '''', pg_size = 0, pg_free = 0, pg_type = 0, pg_ctime = 0,
     pg_cpid = 0, pg_nattached = 0, pg_refcount = 0, pg_nreaders = 0, pg_initialized = 0, pg_expID = 0,
     pg_colID = '''', pg_ac_locked = 0, pg_vm_locked = 0, pg_pstate = zero_pstate\<rparr>"

record world =
  w_shm :: "int \<Rightarrow> smcSegment_t option"
  w_map :: "pid_t \<Rightarrow> addr_t \<Rightarrow> int option"
  w_log :: "sys_event list"
  w_ticks :: nat
  w_sem :: "int option" \<comment> \<open>the mutex semaphore, \<open>None\<close> before it is created\<close>
  w_sem_init :: "pid_t \<Rightarrow> bool" \<comment> \<open>\<open>smc_sem_initialized\<close> of each process\<close>

record proc_env =
  pe_os :: os_env
  pe_pid :: pid_t
  pe_alive :: "pid_t \<Rightarrow> bool"
  pe_clock :: "nat \<Rightarrow> cdouble"
  pe_smc :: addr_t
  pe_root :: bool
  pe_mlock :: bool \<comment> \<open>\<open>mlock\<close> and \<open>munlock\<close> succeed\<close>
  pe_calloc :: bool
  pe_sizeof_seg :: int \<comment> \<open>\<open>sizeof (smcSegment_t)\<close>\<close>
  pe_sizeof_page :: int \<comment> \<open>\<open>sizeof (smcPage_t)\<close>\<close>
  pe_off_pdata :: int \<comment> \<open>\<open>offsetof (smCache_t, pdata)\<close>\<close>
  pe_sem_ok :: bool \<comment> \<open>\<open>semget\<close> and \<open>semctl\<close> succeed\<close>

text \<open>What an event does to the segments and to the mappings of the process that causes it.\<close>

fun apply_event :: "pid_t \<Rightarrow> sys_event \<Rightarrow> world \<Rightarrow> world" where
  "apply_event pid (FileAppend f t) w = w"
| "apply_event pid (Unlink f) w = w"
| "apply_event pid (ShmAttach i a) w =
     w\<lparr>w_map := (w_map w)(pid := (w_map w pid)(a := Some i)),
       w_shm := (w_shm w)(i := (case w_shm w i of None \<Rightarrow> Some zero_segment | Some s \<Rightarrow> Some s))\<rparr>"
| "apply_event pid (ShmZero a sz) w =
     (case w_map w pid a of
        None \<Rightarrow> w
      | Some i \<Rightarrow> w\<lparr>w_shm := (w_shm w)(i := Some zero_segment)\<rparr>)"
| "apply_event pid (ShmDetach a) w = w\<lparr>w_map := (w_map w)(pid := (w_map w pid)(a := None))\<rparr>"
| "apply_event pid (ShmRemove i) w = w\<lparr>w_shm := (w_shm w)(i := None)\<rparr>"

definition run_events :: "pid_t \<Rightarrow> sys_event list \<Rightarrow> world \<Rightarrow> world" where
  "run_events pid evs w = (fold (apply_event pid) evs w)\<lparr>w_log := w_log w @ evs\<rparr>"

definition smUtilTime :: "proc_env \<Rightarrow> world \<Rightarrow> cdouble \<times> world" where
  "smUtilTime env w = (pe_clock env (w_ticks w), w\<lparr>w_ticks := Suc (w_ticks w)\<rparr>)"

subsection \<open>Reaching a segment\<close>

definition seg_addr :: "proc_env \<Rightarrow> smcPage_t \<Rightarrow> addr_t" where
  "seg_addr env p = smStateGetAddr (pe_pid env) (pg_pstate p)"

definition seg_attached :: "proc_env \<Rightarrow> smcPage_t \<Rightarrow> int" where
  "seg_attached env p = smStateGetAttached (pe_pid env) (pg_pstate p)"

definition deref :: "proc_env \<Rightarrow> world \<Rightarrow> addr_t \<Rightarrow> smcSegment_t option" where
  "deref env w a = (case w_map w (pe_pid env) a of None \<Rightarrow> None | Some i \<Rightarrow> w_shm w i)"

definition store_seg :: "proc_env \<Rightarrow> world \<Rightarrow> addr_t \<Rightarrow> (smcSegment_t \<Rightarrow> smcSegment_t) \<Rightarrow> world option" where
  "store_seg env w a f =
     (case w_map w (pe_pid env) a of
        None \<Rightarrow> None
      | Some i \<Rightarrow> (case w_shm w i of
            None \<Rightarrow> None
          | Some s \<Rightarrow> Some (w\<lparr>w_shm := (w_shm w)(i := Some (f s))\<rparr>)))"

subsection \<open>Attributes kept in the segment header\<close>

text \<open>The getters that test the pointer first return a default for a null address.\<close>

definition smcGetWho :: "proc_env \<Rightarrow> world \<Rightarrow> smcPage_t \<Rightarrow> xlong option" where
  "smcGetWho env w p = (if seg_addr env p \<noteq> 0 then map_option seg_who (deref env w (seg_addr env p))
     else Some (-1))"

definition smcSetWho :: "proc_env \<Rightarrow> world \<Rightarrow> smcPage_t \<Rightarrow> xlong \<Rightarrow> world option" where
  "smcSetWho env w p who = store_seg env w (seg_addr env p) (\<lambda>s. s\<lparr>seg_who := who\<rparr>)"

definition smcGetExpID :: "smcPage_t \<Rightarrow> cdouble" where
  "smcGetExpID p = pg_expID p"

definition smcSetExpID :: "proc_env \<Rightarrow> world \<Rightarrow> smcPage_t \<Rightarrow> cdouble \<Rightarrow> (world \<times> smcPage_t) option" where
  "smcSetExpID env w p expid =
     (case store_seg env w (seg_addr env p) (\<lambda>s. s\<lparr>seg_expID := expid\<rparr>) of
        None \<Rightarrow> None | Some w' \<Rightarrow> Some (w', p\<lparr>pg_expID := expid\<rparr>))"

text \<open>\<open>strncpy (dst, src, strlen (src))\<close> copies no terminator: what follows in the buffer
  stays, so a shorter string leaves the tail of the longer one.\<close>

definition strncpy_noterm :: "string \<Rightarrow> string \<Rightarrow> string" where
  "strncpy_noterm dst src = src @ drop (length src) dst"

definition smcGetObsetID :: "proc_env \<Rightarrow> world \<Rightarrow> smcPage_t \<Rightarrow> string option option" where
  "smcGetObsetID env w p =
     (if seg_addr env p \<noteq> 0 then map_option (\<lambda>s. Some (seg_obsetID s)) (deref env w (seg_addr env p))
      else Some None)"

definition smcSetObsetID :: "proc_env \<Rightarrow> world \<Rightarrow> smcPage_t \<Rightarrow> string \<Rightarrow> world option" where
  "smcSetObsetID env w p obsetID =
     (if SZ_PATH \<le> length obsetID then None
      else store_seg env w (seg_addr env p)
             (\<lambda>s. s\<lparr>seg_obsetID := strncpy_noterm (seg_obsetID s) obsetID\<rparr>))"

definition smcGetColID :: "smcPage_t \<Rightarrow> string" where
  "smcGetColID p = pg_colID p"

definition smcSetColID :: "proc_env \<Rightarrow> world \<Rightarrow> smcPage_t \<Rightarrow> string \<Rightarrow> (world \<times> smcPage_t) option" where
  "smcSetColID env w p colID =
     (if SZ_PATH \<le> length colID then None
      else let p' = p\<lparr>pg_colID := strncpy_noterm (pg_colID p) colID\<rparr> in
        if seg_addr env p \<noteq> 0 then
          (case store_seg env w (seg_addr env p)
                  (\<lambda>s. s\<lparr>seg_colID := strncpy_noterm (seg_colID s) colID\<rparr>) of
             None \<Rightarrow> None | Some w' \<Rightarrow> Some (w', p'))
        else Some (w, p'))"

definition smcGetExpPageNum :: "proc_env \<Rightarrow> world \<Rightarrow> smcPage_t \<Rightarrow> int option" where
  "smcGetExpPageNum env w p =
     (if seg_addr env p \<noteq> 0 then map_option seg_expPageNum (deref env w (seg_addr env p)) else Some (-1))"

definition smcSetExpPageNum :: "proc_env \<Rightarrow> world \<Rightarrow> smcPage_t \<Rightarrow> int \<Rightarrow> world option" where
  "smcSetExpPageNum env w p n = store_seg env w (seg_addr env p) (\<lambda>s. s\<lparr>seg_expPageNum := n\<rparr>)"

definition smcGetMDConfig :: "proc_env \<Rightarrow> world \<Rightarrow> smcPage_t \<Rightarrow> mdConfig_t option" where
  "smcGetMDConfig env w p = map_option seg_mdCfg (deref env w (seg_addr env p))"

definition smcSetMDConfig :: "proc_env \<Rightarrow> world \<Rightarrow> smcPage_t \<Rightarrow> mdConfig_t \<Rightarrow> world option" where
  "smcSetMDConfig env w p md = store_seg env w (seg_addr env p) (\<lambda>s. s\<lparr>seg_mdCfg := md\<rparr>)"

definition smcGetFPConfig :: "proc_env \<Rightarrow> world \<Rightarrow> smcPage_t \<Rightarrow> fpConfig_t option" where
  "smcGetFPConfig env w p = map_option seg_fpCfg (deref env w (seg_addr env p))"

definition smcSetFPConfig :: "proc_env \<Rightarrow> world \<Rightarrow> smcPage_t \<Rightarrow> fpConfig_t \<Rightarrow> world option" where
  "smcSetFPConfig env w p fp = store_seg env w (seg_addr env p) (\<lambda>s. s\<lparr>seg_fpCfg := fp\<rparr>)"

definition smcGetPageDir :: "proc_env \<Rightarrow> world \<Rightarrow> smcPage_t \<Rightarrow> string option" where
  "smcGetPageDir env w p = map_option seg_dirpath (deref env w (seg_addr env p))"

definition smcGetPageFRoot :: "proc_env \<Rightarrow> world \<Rightarrow> smcPage_t \<Rightarrow> string option" where
  "smcGetPageFRoot env w p = map_option seg_froot (deref env w (seg_addr env p))"

definition smcGetPageSeqNo :: "proc_env \<Rightarrow> world \<Rightarrow> smcPage_t \<Rightarrow> int option" where
  "smcGetPageSeqNo env w p = map_option seg_seqno (deref env w (seg_addr env p))"

definition smcSetPageSeqNo :: "proc_env \<Rightarrow> world \<Rightarrow> smcPage_t \<Rightarrow> int \<Rightarrow> world option" where
  "smcSetPageSeqNo env w p n = store_seg env w (seg_addr env p) (\<lambda>s. s\<lparr>seg_seqno := n\<rparr>)"

text \<open>The data area starts one byte after the header; \<open>None\<close> is the null pointer.\<close>

definition smcGetPageData :: "proc_env \<Rightarrow> smcPage_t option \<Rightarrow> addr_t" where
  "smcGetPageData env page =
     (case page of
        None \<Rightarrow> 0
      | Some p \<Rightarrow> if pg_initialized p = 0 then 0 else seg_addr env p + pe_sizeof_seg env + 1)"

subsection \<open>Locking, attaching and freeing one page\<close>

definition smcFreePage :: "smcPage_t \<Rightarrow> smcPage_t" where
  "smcFreePage p = zero_page\<lparr>pg_free := 1\<rparr>"

definition smcLock :: "smcPage_t \<Rightarrow> smcPage_t" where
  "smcLock p = p\<lparr>pg_ac_locked := 1\<rparr>"

definition smcUnlock :: "proc_env \<Rightarrow> world \<Rightarrow> smcPage_t \<Rightarrow> world \<times> smcPage_t" where
  "smcUnlock env w p =
     (let p' = p\<lparr>pg_ac_locked := 0\<rparr> in
      if seg_attached env p' > 0 then
        (case smUtilTime env w of (t, w') \<Rightarrow>
           (w', p'\<lparr>pg_pstate := smStateSetLTime (pe_pid env) (pg_pstate p') t\<rparr>))
      else (w, p'))"

definition smcAttach :: "proc_env \<Rightarrow> world \<Rightarrow> smcPage_t \<Rightarrow> world \<times> smcPage_t" where
  "smcAttach env w p =
     (if pg_memKey p = 0 then (w, p)
      else case smUtilAttach (pe_os env) (pg_memKey p) (pg_lockFile p) (pg_size p) 0 of
        (addr, _, evs) \<Rightarrow>
          (let w1 = run_events (pe_pid env) evs w;
               pid = pe_pid env in
           case (if smStateDefined pid (pg_pstate p) then (w1, pg_pstate p)
                 else case smUtilTime env w1 of (t, w2) \<Rightarrow>
                   (w2, snd (smStateAdd (pe_alive env) pid (pg_pstate p) t addr 1))) of
             (w3, sa) \<Rightarrow>
               (w3, p\<lparr>pg_pstate :=
                  smStateSetAttached pid (smStateSetSMC pid (smStateSetAddr pid sa addr) (pe_smc env)) 1\<rparr>)))"

definition smcType2Str :: "int \<Rightarrow> string" where
  "smcType2Str ty = (if ty = TY_VOID then ''TY_VOID'' else if ty = TY_DATA then ''TY_DATA''
     else if ty = TY_META then ''TY_META'' else ''INDEF'')"

definition EXPID_TOL :: cdouble where
  "EXPID_TOL = 1 / 1000000"

definition smcEqualExpID :: "cdouble \<Rightarrow> cdouble \<Rightarrow> bool" where
  "smcEqualExpID a b = (if a < b then b - a < EXPID_TOL else a - b < EXPID_TOL)"

subsection \<open>Fields of the shared header\<close>

text \<open>
  A field of the header with its update: the law under which a value stored by one attached
  process is the value every attached process reads.
\<close>

locale header_field =
  fixes get :: "smcSegment_t \<Rightarrow> 'v"
    and put :: "'v \<Rightarrow> smcSegment_t \<Rightarrow> smcSegment_t"
  assumes get_put: "get (put v s) = v"
    and put_put: "put v (put u s) = put v s"
    and put_get: "put (get s) s = s"
begin

lemma store_shared:
  assumes "w_map w (pe_pid env1) a1 = Some i" and "w_map w (pe_pid env2) a2 = Some i"
    and "w_shm w i \<noteq> None"
  shows "\<exists>w'. store_seg env1 w a1 (put v) = Some w' \<and> map_option get (deref env2 w' a2) = Some v
    \<and> w_map w' = w_map w \<and> (\<forall>j. j \<noteq> i \<longrightarrow> w_shm w' j = w_shm w j)"
  using assms by (auto simp: store_seg_def deref_def get_put)

lemma store_unmapped: "w_map w (pe_pid env) a = None \<Longrightarrow> store_seg env w a (put v) = None"
  by (simp add: store_seg_def)

end

interpretation f_who: header_field seg_who "\<lambda>v s. s\<lparr>seg_who := v\<rparr>"
  by unfold_locales simp_all

interpretation f_pagenum: header_field seg_expPageNum "\<lambda>v s. s\<lparr>seg_expPageNum := v\<rparr>"
  by unfold_locales simp_all

interpretation f_seqno: header_field seg_seqno "\<lambda>v s. s\<lparr>seg_seqno := v\<rparr>"
  by unfold_locales simp_all

interpretation f_md: header_field seg_mdCfg "\<lambda>v s. s\<lparr>seg_mdCfg := v\<rparr>"
  by unfold_locales simp_all

interpretation f_fp: header_field seg_fpCfg "\<lambda>v s. s\<lparr>seg_fpCfg := v\<rparr>"
  by unfold_locales simp_all

subsection \<open>Attaching\<close>

lemma run_events_simps [simp]:
  "w_ticks (run_events pid [] w) = w_ticks w"
  "w_map (run_events pid [] w) = w_map w"
  "w_shm (run_events pid [] w) = w_shm w"
  by (simp_all add: run_events_def)

lemma smcAttach_pstate:
  assumes key: "pg_memKey p \<noteq> 0" and len: "length (pg_pstate p) = MAX_PROCS" and pid: "pe_pid env \<noteq> 0"
    and room: "pe_pid env \<in> set (listed (smStateClean (pe_alive env) (pg_pstate p)))
      \<or> length (listed (smStateClean (pe_alive env) (pg_pstate p))) < MAX_PROCS"
  shows "\<exists>e. st_entry (pe_pid env) (pg_pstate (snd (smcAttach env w p))) = Some e
      \<and> st_addr e = fst (smUtilAttach (pe_os env) (pg_memKey p) (pg_lockFile p) (pg_size p) 0)
      \<and> st_attached e = 1 \<and> st_smc e = pe_smc env"
    and "q \<noteq> pe_pid env \<Longrightarrow> q \<noteq> 0 \<Longrightarrow> pe_alive env q \<Longrightarrow>
      st_entry q (pg_pstate (snd (smcAttach env w p))) = st_entry q (pg_pstate p)"
proof -
  obtain addr c evs where u:
    "smUtilAttach (pe_os env) (pg_memKey p) (pg_lockFile p) (pg_size p) 0 = (addr, c, evs)"
    by (metis prod_cases3)
  let ?pid = "pe_pid env"
  let ?w1 = "run_events ?pid evs w"
  let ?add = "snd (smStateAdd (pe_alive env) ?pid (pg_pstate p) (pe_clock env (w_ticks ?w1)) addr 1)"
  let ?sa = "if smStateDefined ?pid (pg_pstate p) then pg_pstate p else ?add"
  have r: "pg_pstate (snd (smcAttach env w p)) =
      smStateSetAttached ?pid (smStateSetSMC ?pid (smStateSetAddr ?pid ?sa addr) (pe_smc env)) 1"
    using key u by (simp add: smcAttach_def Let_def smUtilTime_def)
  have "fst (smStateAdd (pe_alive env) ?pid (pg_pstate p) t addr 1) \<noteq> Some ERR" for t
    using room pid by (auto simp: smStateAdd_def Let_def pid_before_hole_listed first_hole_listed
        OK_def ERR_def)
  then have "st_entry ?pid ?add \<noteq> None"
    using smStateAdd_present [OF len pid] by (fastforce simp: st_entry_def)
  then have "st_entry ?pid ?sa \<noteq> None"
    using smStateDefined_entry by simp
  then show "\<exists>e. st_entry ?pid (pg_pstate (snd (smcAttach env w p))) = Some e
      \<and> st_addr e = fst (smUtilAttach (pe_os env) (pg_memKey p) (pg_lockFile p) (pg_size p) 0)
      \<and> st_attached e = 1 \<and> st_smc e = pe_smc env"
    unfolding r u by auto
  show "q \<noteq> ?pid \<Longrightarrow> q \<noteq> 0 \<Longrightarrow> pe_alive env q \<Longrightarrow>
      st_entry q (pg_pstate (snd (smcAttach env w p))) = st_entry q (pg_pstate p)"
    unfolding r using smStateAdd_frame [OF len] by simp
qed

lemma length_smcAttach [simp]: "length (pg_pstate (snd (smcAttach env w p))) = length (pg_pstate p)"
  by (auto simp: smcAttach_def Let_def smUtilTime_def split: prod.splits)

lemma smcAttach_fields [simp]:
  "pg_memKey (snd (smcAttach env w p)) = pg_memKey p"
  "pg_lockFile (snd (smcAttach env w p)) = pg_lockFile p"
  "pg_size (snd (smcAttach env w p)) = pg_size p"
  "pg_free (snd (smcAttach env w p)) = pg_free p"
  "pg_type (snd (smcAttach env w p)) = pg_type p"
  "pg_cpid (snd (smcAttach env w p)) = pg_cpid p"
  "pg_expID (snd (smcAttach env w p)) = pg_expID p"
  "pg_ac_locked (snd (smcAttach env w p)) = pg_ac_locked p"
  "pg_nattached (snd (smcAttach env w p)) = pg_nattached p"
  "pg_nreaders (snd (smcAttach env w p)) = pg_nreaders p"
  by (simp_all add: smcAttach_def Let_def split: prod.splits)

subsection \<open>Properties\<close>

lemma smcAttach_at:
  assumes key: "pg_memKey p \<noteq> 0" "pg_size p \<noteq> 0"
    and kernel: "shmget (pe_os env) (pg_memKey p) (pg_size p) False = i" "i \<noteq> ERR"
      "shmat (pe_os env) i = a" "a \<noteq> ERR" "fopen_append (pe_os env) (pg_lockFile p)"
    and table: "length (pg_pstate p) = MAX_PROCS" "pe_pid env \<noteq> 0"
      "pe_pid env \<in> set (listed (smStateClean (pe_alive env) (pg_pstate p)))
        \<or> length (listed (smStateClean (pe_alive env) (pg_pstate p))) < MAX_PROCS"
    and header: "w_shm w i = Some h"
    and r: "smcAttach env w p = (w', p')"
  shows "seg_addr env p' = a" "seg_attached env p' = 1" "w_map w' (pe_pid env) a = Some i" "w_shm w' = w_shm w"
    "\<exists>ps. p' = p\<lparr>pg_pstate := ps\<rparr>"
proof -
  have at: "smUtilAttach (pe_os env) (pg_memKey p) (pg_lockFile p) (pg_size p) 0
      = (a, i, [ShmAttach i a, FileAppend (pg_lockFile p) (attach_comment (pe_os env) a i (pg_size p))])"
    using key kernel by (simp add: smUtilAttach_def Let_def)
  obtain e where e: "st_entry (pe_pid env) (pg_pstate p') = Some e" "st_addr e = a" "st_attached e = 1"
    using smcAttach_pstate(1) [OF key(1) table, of w] r at by auto
  then show "seg_addr env p' = a" "seg_attached env p' = 1"
    by (simp_all add: seg_addr_def seg_attached_def st_getter_defs)
  show "w_map w' (pe_pid env) a = Some i" "w_shm w' = w_shm w" "\<exists>ps. p' = p\<lparr>pg_pstate := ps\<rparr>"
    using r key(1) at header by (auto simp: smcAttach_def Let_def smUtilTime_def run_events_def fun_upd_idem split: if_splits)
qed

text \<open>Attaching.  When the kernel finds and maps the page's segment, the lock file can
  be written and the state table has the process or a free slot, \<open>smcAttach\<close> makes the page's
  segment reachable: the process's address for the page is where the kernel mapped the segment,
  the page counts as attached, and reading through the address gives the shared header.  The
  entries of the other live processes are unchanged.\<close>

theorem smcAttach_reaches_segment:
  assumes key: "pg_memKey p \<noteq> 0" "pg_size p \<noteq> 0"
    and kernel: "shmget (pe_os env) (pg_memKey p) (pg_size p) False = i" "i \<noteq> ERR"
      "shmat (pe_os env) i = a" "a \<noteq> ERR" "fopen_append (pe_os env) (pg_lockFile p)"
    and table: "length (pg_pstate p) = MAX_PROCS" "pe_pid env \<noteq> 0"
      "pe_pid env \<in> set (listed (smStateClean (pe_alive env) (pg_pstate p)))
        \<or> length (listed (smStateClean (pe_alive env) (pg_pstate p))) < MAX_PROCS"
    and header: "w_shm w i = Some h"
    and r: "smcAttach env w p = (w', p')"
  shows "seg_addr env p' = a \<and> seg_attached env p' = 1 \<and> deref env w' (seg_addr env p') = Some h
    \<and> (\<forall>q. q \<noteq> pe_pid env \<longrightarrow> q \<noteq> 0 \<longrightarrow> pe_alive env q \<longrightarrow>
         st_entry q (pg_pstate p') = st_entry q (pg_pstate p))"
  using smcAttach_at [OF key kernel table header r] smcAttach_pstate(2) [OF key(1) table, of _ w] r header by (auto simp: deref_def)

definition sample_proc :: proc_env where
  "sample_proc = \<lparr>pe_os = sample_os, pe_pid = 100, pe_alive = (\<lambda>_. True), pe_clock = rat_of_nat,
     pe_smc = 65536, pe_root = False, pe_mlock = False, pe_calloc = True, pe_sizeof_seg = 33400,
     pe_sizeof_page = 968, pe_off_pdata = 1024, pe_sem_ok = True\<rparr>"

definition sample_page :: smcPage_t where
  "sample_page = zero_page\<lparr>pg_memKey := 77, pg_size := 34000, pg_lockFile := ''/tmp/.smc500_0''\<rparr>"

definition sample_world :: world where
  "sample_world = \<lparr>w_shm = (\<lambda>i. if i = 5 then Some (zero_segment\<lparr>seg_who := 9\<rparr>) else None),
     w_map = (\<lambda>_ _. None), w_log = [], w_ticks = 1,
     w_sem = None, w_sem_init = (\<lambda>_. False)\<rparr>"

lemma listed_zero_pstate [simp]: "listed (smStateClean alive zero_pstate) = []"
  by (simp add: zero_pstate_def MAX_PROCS_def eval_nat_numeral)

theorem smcAttach_reaches_segment_witness:
  "seg_addr sample_proc (snd (smcAttach sample_proc sample_world sample_page)) = 8192
   \<and> deref sample_proc (fst (smcAttach sample_proc sample_world sample_page)) 8192
     = Some (zero_segment\<lparr>seg_who := 9\<rparr>)"
proof -
  have p: "pg_memKey sample_page = 77" "pg_size sample_page = 34000" "pg_pstate sample_page = zero_pstate"
    "pg_lockFile sample_page = ''/tmp/.smc500_0''"
    by (simp_all add: sample_page_def zero_page_def)
  have e: "pe_os sample_proc = sample_os" "pe_pid sample_proc = 100" "pe_alive sample_proc = (\<lambda>_. True)"
    by (simp_all add: sample_proc_def)
  have len: "length zero_pstate = MAX_PROCS" by (simp add: zero_pstate_def)
  have "seg_addr sample_proc (snd (smcAttach sample_proc sample_world sample_page)) = 8192
    \<and> seg_attached sample_proc (snd (smcAttach sample_proc sample_world sample_page)) = 1
    \<and> deref sample_proc (fst (smcAttach sample_proc sample_world sample_page))
        (seg_addr sample_proc (snd (smcAttach sample_proc sample_world sample_page)))
      = Some (zero_segment\<lparr>seg_who := 9\<rparr>)
    \<and> (\<forall>q. q \<noteq> pe_pid sample_proc \<longrightarrow> q \<noteq> 0 \<longrightarrow> pe_alive sample_proc q \<longrightarrow>
        st_entry q (pg_pstate (snd (smcAttach sample_proc sample_world sample_page)))
          = st_entry q (pg_pstate sample_page))"
    by (rule smcAttach_reaches_segment [where i = 5])
      (simp_all add: p e len sample_os_def sample_world_def ERR_def MAX_PROCS_def)
  then show ?thesis by auto
qed

text \<open>The header is shared.  What one process attached to a segment stores as the
  sender, the exposure page number, the sequence number, the metadata or the focal plane
  configuration is what any process attached to the same segment reads back, each through its
  own address; the other segments and the mappings are unchanged.\<close>

theorem header_attributes_shared:
  assumes "w_map w (pe_pid env1) (seg_addr env1 p1) = Some i"
    and "w_map w (pe_pid env2) (seg_addr env2 p2) = Some i"
    and "w_shm w i \<noteq> None" and "seg_addr env2 p2 \<noteq> 0"
  shows "(\<exists>w'. smcSetWho env1 w p1 v1 = Some w' \<and> smcGetWho env2 w' p2 = Some v1)
    \<and> (\<exists>w'. smcSetExpPageNum env1 w p1 v2 = Some w' \<and> smcGetExpPageNum env2 w' p2 = Some v2)
    \<and> (\<exists>w'. smcSetPageSeqNo env1 w p1 v3 = Some w' \<and> smcGetPageSeqNo env2 w' p2 = Some v3)
    \<and> (\<exists>w'. smcSetMDConfig env1 w p1 v4 = Some w' \<and> smcGetMDConfig env2 w' p2 = Some v4)
    \<and> (\<exists>w'. smcSetFPConfig env1 w p1 v5 = Some w' \<and> smcGetFPConfig env2 w' p2 = Some v5)"
  using f_who.store_shared [OF assms(1-3)] f_pagenum.store_shared [OF assms(1-3)]
    f_seqno.store_shared [OF assms(1-3)] f_md.store_shared [OF assms(1-3)]
    f_fp.store_shared [OF assms(1-3)] assms(4)
  by (simp add: smcSetWho_def smcGetWho_def smcSetExpPageNum_def smcGetExpPageNum_def
      smcSetPageSeqNo_def smcGetPageSeqNo_def smcSetMDConfig_def smcGetMDConfig_def
      smcSetFPConfig_def smcGetFPConfig_def) blast

definition shared_page :: smcPage_t where
  "shared_page = zero_page\<lparr>pg_pstate := zero_pstate[0 := zero_state\<lparr>st_pid := 100, st_addr := 8192\<rparr>,
     1 := zero_state\<lparr>st_pid := 200, st_addr := 12288\<rparr>]\<rparr>"

definition shared_world :: world where
  "shared_world = sample_world\<lparr>w_map := (\<lambda>p a. if (p, a) = (100, 8192) \<or> (p, a) = (200, 12288) then Some 5
     else None)\<rparr>"

theorem header_attributes_shared_witness:
  "\<exists>w'. smcSetWho sample_proc shared_world shared_page 7 = Some w'
     \<and> smcGetWho (sample_proc\<lparr>pe_pid := 200\<rparr>) w' shared_page = Some 7"
proof -
  have a: "seg_addr sample_proc shared_page = 8192" "seg_addr (sample_proc\<lparr>pe_pid := 200\<rparr>) shared_page = 12288"
    by (simp_all add: seg_addr_def shared_page_def sample_proc_def smStateGetAddr_def st_entry_def
        smStateLookupByPid_def zero_pstate_def MAX_PROCS_def eval_nat_numeral)
  show ?thesis
    using header_attributes_shared [of shared_world sample_proc shared_page 5
        "sample_proc\<lparr>pe_pid := 200\<rparr>" shared_page 7]
    by (simp add: a) (simp add: shared_world_def sample_world_def sample_proc_def)
qed

text \<open>Unlocking.  \<open>smcUnlock\<close> by an attached process releases the page and stamps the
  modification time in that process's own entry only: the time another process sees for the
  page is the one it had before.\<close>

theorem smcUnlock_stamps_own_entry:
  assumes "st_entry (pe_pid env) (pg_pstate p) = Some e" and "0 < st_attached e"
    and "smcUnlock env w p = (w', p')"
  shows "pg_ac_locked p' = 0 \<and> smStateGetLTime (pe_pid env) (pg_pstate p') = pe_clock env (w_ticks w)
    \<and> (\<forall>q. q \<noteq> pe_pid env \<longrightarrow> smStateGetLTime q (pg_pstate p') = smStateGetLTime q (pg_pstate p))"
  using assms
  by (auto simp: smcUnlock_def Let_def seg_attached_def st_getter_defs smUtilTime_def)

theorem smcUnlock_stamps_own_entry_witness:
  "\<exists>w' p'. smcUnlock sample_proc shared_world
      (shared_page\<lparr>pg_pstate := smStateSetAttached 100 (pg_pstate shared_page) 1\<rparr>) = (w', p')
    \<and> smStateGetLTime 100 (pg_pstate p') = 1 \<and> smStateGetLTime 200 (pg_pstate p') = 0"
proof -
  let ?p = "shared_page\<lparr>pg_pstate := smStateSetAttached 100 (pg_pstate shared_page) 1\<rparr>"
  obtain w' p' where r: "smcUnlock sample_proc shared_world ?p = (w', p')" by fastforce
  have e: "st_entry 100 (pg_pstate shared_page) = Some (zero_state\<lparr>st_pid := 100, st_addr := 8192\<rparr>)"
    "st_entry 200 (pg_pstate shared_page) = Some (zero_state\<lparr>st_pid := 200, st_addr := 12288\<rparr>)"
    by (simp_all add: shared_page_def st_entry_def smStateLookupByPid_def zero_pstate_def MAX_PROCS_def
        eval_nat_numeral)
  have pid: "pe_pid sample_proc = 100" "pe_clock sample_proc (w_ticks shared_world) = 1"
    by (simp_all add: sample_proc_def shared_world_def sample_world_def)
  have "pg_ac_locked p' = 0
    \<and> smStateGetLTime (pe_pid sample_proc) (pg_pstate p') = pe_clock sample_proc (w_ticks shared_world)
    \<and> (\<forall>q. q \<noteq> pe_pid sample_proc \<longrightarrow>
        smStateGetLTime q (pg_pstate p') = smStateGetLTime q (pg_pstate ?p))"
    by (rule smcUnlock_stamps_own_entry
        [where e = "zero_state\<lparr>st_pid := 100, st_addr := 8192, st_attached := 1\<rparr>", OF _ _ r])
      (simp_all add: pid e)
  then show ?thesis
    using r by (simp add: pid) (simp add: st_getter_defs e zero_state_def)
qed

text \<open>The observation set and collector identifiers are copied without a terminator.
  After \<open>smcSetColID\<close> the page's identifier is the new one exactly when the old one was not
  longer; otherwise the tail of the old one remains.\<close>

theorem smcSetColID_keeps_tail:
  assumes "smcSetColID env w p colID = Some (w', p')"
  shows "smcGetColID p' = colID @ drop (length colID) (smcGetColID p)
    \<and> (smcGetColID p' = colID \<longleftrightarrow> length (smcGetColID p) \<le> length colID)"
  using assms
  by (auto simp: smcSetColID_def smcGetColID_def Let_def strncpy_noterm_def split: if_splits option.splits)

theorem smcSetColID_keeps_tail_witness:
  "\<exists>w' p'. smcSetColID sample_proc sample_world (zero_page\<lparr>pg_colID := ''PanA''\<rparr>) ''P1'' = Some (w', p')
    \<and> smcGetColID p' = ''P1nA''"
proof -
  let ?p = "zero_page\<lparr>pg_colID := ''PanA''\<rparr>"
  have "seg_addr sample_proc ?p = 0"
    by (simp add: seg_addr_def zero_page_def smStateGetAddr_def st_entry_def smStateLookupByPid_def
        zero_pstate_def MAX_PROCS_def eval_nat_numeral sample_proc_def)
  then obtain w' p' where r: "smcSetColID sample_proc sample_world ?p ''P1'' = Some (w', p')"
    by (simp add: smcSetColID_def Let_def SZ_PATH_def)
  then show ?thesis
    using smcSetColID_keeps_tail [OF r] by (simp add: smcGetColID_def [of ?p])
qed

end
