(* ===== verification/SmCache.thy ===== *)
theory SmCache
  imports SmPage
begin

section \<open>The shared memory cache (lib/smc/smCache.c)\<close>

text \<open>
  The cache structure that all processes share, and the operations on its page array.  A
  pointer to a page is the page's index in \<open>pdata\<close>; a null page pointer is \<open>None\<close>.
  Operations that may fault on an address, overrun a buffer or never return give an outer
  \<open>None\<close>.  What other processes do to the cache while the caller sleeps is an argument of
  the operations that sleep.
\<close>

record smCache_t =
  sc_memKey :: key_t
  sc_shmid :: int
  sc_cache_addr :: addr_t
  sc_cache_size :: int
  sc_nattached :: int
  sc_vm_locked :: bool
  sc_fd :: int
  sc_new :: int
  sc_ctime :: cdouble
  sc_dirpath :: string
  sc_froot :: string
  sc_seqno :: int
  sc_np_max :: int
  sc_np_hiwater :: nat
  sc_mem_allocated :: xlong
  sc_mem_avail :: xlong
  sc_sysConfig :: sysConfig_t
  sc_pstate :: pstate
  sc_npages :: int
  sc_top :: nat
  sc_pdata :: "smcPage_t list"
  sc_debug :: int

definition MAX_SEG_SIZE :: int where
  "MAX_SEG_SIZE = 33550336"

definition DEF_DIRPATH :: string where "DEF_DIRPATH = ''./''"
definition DEF_FROOT :: string where "DEF_FROOT = ''image''"

subsection \<open>File name attributes\<close>

text \<open>\<open>strncpy\<close> with the buffer's size: a longer string fills it without a terminator, so
  only shorter ones are values of the field.\<close>

definition smcSetDir :: "smCache_t \<Rightarrow> string \<Rightarrow> smCache_t option" where
  "smcSetDir smc d = (if length d < SZ_PATH then Some (smc\<lparr>sc_dirpath := d\<rparr>) else None)"

text \<open>The limit here is \<open>SZ_FNAME\<close>; a longer root keeps what follows in the old one.\<close>

definition smcSetFRoot :: "smCache_t \<Rightarrow> string \<Rightarrow> smCache_t" where
  "smcSetFRoot smc f = smc\<lparr>sc_froot :=
     (if length f < SZ_FNAME then f else take SZ_FNAME f @ drop SZ_FNAME (sc_froot smc))\<rparr>"

definition smcSetSeqNo :: "smCache_t \<Rightarrow> int \<Rightarrow> smCache_t" where
  "smcSetSeqNo smc n = smc\<lparr>sc_seqno := n\<rparr>"

definition smcGetDir :: "smCache_t \<Rightarrow> string" where "smcGetDir smc = sc_dirpath smc"
definition smcGetFRoot :: "smCache_t \<Rightarrow> string" where "smcGetFRoot smc = sc_froot smc"
definition smcGetSeqNo :: "smCache_t \<Rightarrow> int" where "smcGetSeqNo smc = sc_seqno smc"

definition smcIncrSeqNo :: "smCache_t \<Rightarrow> smCache_t" where
  "smcIncrSeqNo smc = smc\<lparr>sc_seqno := sc_seqno smc + 1\<rparr>"

definition smcDecrSeqNo :: "smCache_t \<Rightarrow> smCache_t" where
  "smcDecrSeqNo smc = smc\<lparr>sc_seqno := sc_seqno smc - 1\<rparr>"

definition smcResetSeqNo :: "smCache_t \<Rightarrow> smCache_t" where
  "smcResetSeqNo smc = smc\<lparr>sc_seqno := 0\<rparr>"

definition smcToggleDebug :: "smCache_t \<Rightarrow> smCache_t" where
  "smcToggleDebug smc = smc\<lparr>sc_debug := (if sc_debug smc \<noteq> 0 then 0 else 1)\<rparr>"

subsection \<open>Getting a page\<close>

text \<open>
  The throttle: while the cache is full sleep, at most \<open>throttle_ntry + 1\<close> times.  \<open>others i
  smc\<close> is the cache after the \<open>i\<close>-th sleep.  The flag of the result tells whether there is
  room.
\<close>

partial_function (option) throttle ::
  "(nat \<Rightarrow> smCache_t \<Rightarrow> smCache_t) \<Rightarrow> nat \<Rightarrow> smCache_t \<Rightarrow> (smCache_t \<times> bool) option" where
  "throttle others i smc =
     (if sc_np_max smc \<le> sc_npages smc then
        (if int i = sint (cfg_throttle_ntry (sc_sysConfig smc)) then Some (others i smc, False)
         else throttle others (Suc i) (others i smc))
      else Some (smc, True))"

definition page_avail :: "smcPage_t \<Rightarrow> bool" where
  "page_avail p \<longleftrightarrow> pg_memKey p = 0 \<or> (pg_nattached p = 0 \<and> pg_free p \<noteq> 0)"

text \<open>The first available slot below the top of the array, else the top itself.\<close>

definition find_slot :: "smCache_t \<Rightarrow> nat" where
  "find_slot smc = (case first_index page_avail (take (sc_top smc) (sc_pdata smc)) of
       None \<Rightarrow> sc_top smc | Some i \<Rightarrow> i)"

definition seg_lockfile :: "smCache_t \<Rightarrow> nat \<Rightarrow> string" where
  "seg_lockfile smc pnum = cfg_cache_path (sc_sysConfig smc) @ ''_'' @ show_nat pnum"

text \<open>The header of a new segment, as it is filled in before it is copied to the segment.\<close>

definition new_header ::
  "proc_env \<Rightarrow> smCache_t \<Rightarrow> nat \<Rightarrow> smcPage_t \<Rightarrow> int \<Rightarrow> int \<Rightarrow> addr_t \<Rightarrow> int \<Rightarrow> cdouble \<Rightarrow> smcSegment_t" where
  "new_header env smc pnum p ty sz sp shmid t = zero_segment\<lparr>seg_smc := pe_smc env,
     seg_pagenum := pnum, seg_memKey := pg_memKey p, seg_shmid := shmid, seg_size := pg_size p,
     seg_dsize := word_of_int sz, seg_type := ty, seg_ctime := t, seg_seqno := sc_seqno smc,
     seg_dirpath := sc_dirpath smc, seg_froot := sc_froot smc,
     seg_data := sp + pe_sizeof_seg env * pe_sizeof_seg env,
     seg_edata := sp + pe_sizeof_seg env * pe_sizeof_seg env + sz\<rparr>"

text \<open>The part of \<open>smcGetPage\<close> that attaches to the segment of a fresh page.\<close>

definition getpage_attach ::
  "proc_env \<Rightarrow> world \<Rightarrow> smCache_t \<Rightarrow> nat \<Rightarrow> smcPage_t \<Rightarrow> int \<Rightarrow> int \<Rightarrow> bool \<Rightarrow> (world \<times> smcPage_t) option" where
  "getpage_attach env w smc pnum p ty sz new =
     (case smUtilAttach (pe_os env) (pg_memKey p) (pg_lockFile p) (pg_size p) (if new then 1 else 0) of
        (sp, new', evs) \<Rightarrow>
          (let w1 = run_events (pe_pid env) evs w;
               pid = pe_pid env in
           case (if new' \<noteq> 0 then
                   (case smUtilTime env w1 of (t, w2) \<Rightarrow>
                      store_seg env w2 sp (\<lambda>_. new_header env smc pnum p ty sz sp new' t))
                 else Some w1) of
             None \<Rightarrow> None
           | Some w3 \<Rightarrow>
               (case smUtilTime env w3 of (t, w4) \<Rightarrow>
                  Some (w4, p\<lparr>pg_initialized := 1,
                     pg_pstate := smStateSetAttached pid (smStateSetAddr pid
                       (snd (smStateAdd (pe_alive env) pid (pg_pstate p) t sp 1)) sp) 1\<rparr>))))"

text \<open>
  \<open>smcGetPage\<close> after the throttle: the page's slot is cleared and filled in, its segment
  created and attached.  Pages are never recycled: the source forces \<open>new\<close>.
\<close>

definition getpage_new ::
  "proc_env \<Rightarrow> world \<Rightarrow> smCache_t \<Rightarrow> int \<Rightarrow> int \<Rightarrow> bool \<Rightarrow> bool \<Rightarrow> (world \<times> smCache_t \<times> nat option) option" where
  "getpage_new env w smc ty sz attach_flag lock_flag =
     (let pnum = find_slot smc;
          lf = seg_lockfile smc pnum in
      if length (sc_pdata smc) \<le> pnum \<or> SZ_PATH \<le> length lf then None
      else case smUtilTime env w of (t, w1) \<Rightarrow>
        let p = zero_page\<lparr>pg_lockFile := lf,
                  pg_size := word_of_int ((pe_sizeof_seg env + 1) + (sz + 1) + 1),
                  pg_type := ty, pg_ctime := t, pg_cpid := pe_pid env\<rparr>;
            smc1 = smc\<lparr>sc_mem_allocated := sc_mem_allocated smc + pg_size p,
                  sc_mem_avail := sc_mem_avail smc - pg_size p,
                  sc_pdata := (sc_pdata smc)[pnum := p]\<rparr>
        in if \<not> pe_calloc env then Some (w1, smc1, None)
           else case smUtilInitSegment (pe_os env) lf of
             None \<Rightarrow> None
           | Some (memKey, new, lf', evs) \<Rightarrow>
               let w2 = run_events (pe_pid env) evs w1;
                   p1 = p\<lparr>pg_memKey := memKey, pg_lockFile := lf'\<rparr>
               in if memKey = 0 then
                    Some (w2, smc1\<lparr>sc_pdata := (sc_pdata smc)[pnum := p1]\<rparr>, None)
                  else
                    let smc2 = smc1\<lparr>sc_npages := sc_npages smc + 1,
                          sc_top := (if pnum = sc_top smc then Suc (sc_top smc) else sc_top smc)\<rparr>
                    in case (if attach_flag then getpage_attach env w2 smc2 pnum p1 ty sz new
                             else Some (w2, p1\<lparr>pg_initialized := 0,
                                    pg_pstate := smStateSetAttached (pe_pid env) (pg_pstate p1) 0\<rparr>)) of
                         None \<Rightarrow> None
                       | Some (w3, p2) \<Rightarrow>
                           let p3 = p2\<lparr>pg_free := 0,
                                  pg_pstate := smStateSetSMC (pe_pid env) (pg_pstate p2) (pe_smc env)\<rparr>;
                               p4 = (if lock_flag then smcLock p3 else p3)
                           in Some (w3, smc2\<lparr>sc_pdata := (sc_pdata smc)[pnum := p4]\<rparr>, Some pnum))"

definition smcGetPage ::
  "proc_env \<Rightarrow> (nat \<Rightarrow> smCache_t \<Rightarrow> smCache_t) \<Rightarrow> world \<Rightarrow> smCache_t option \<Rightarrow> int \<Rightarrow> int \<Rightarrow> bool \<Rightarrow> bool
    \<Rightarrow> (world \<times> smCache_t option \<times> nat option) option" where
  "smcGetPage env others w smc ty sz attach_flag lock_flag =
     (case smc of
        None \<Rightarrow> Some (w, None, None)
      | Some s \<Rightarrow>
          if MAX_SEG_SIZE < sz then Some (w, Some s, None)
          else case throttle others 0 s of
            None \<Rightarrow> None
          | Some (s', False) \<Rightarrow> Some (w, Some s', None)
          | Some (s', True) \<Rightarrow>
              (case getpage_new env w s' ty sz attach_flag lock_flag of
                 None \<Rightarrow> None
               | Some (w', s'', r) \<Rightarrow> Some (w', Some s'', r)))"

subsection \<open>Releasing pages\<close>

definition smcDetach ::
  "proc_env \<Rightarrow> world \<Rightarrow> smCache_t \<Rightarrow> nat \<Rightarrow> bool \<Rightarrow> (world \<times> smCache_t) option" where
  "smcDetach env w smc i free =
     (let p0 = sc_pdata smc ! i in
      case (if free \<and> seg_attached env p0 \<le> 0 then smcAttach env w p0 else (w, p0)) of (w1, p1) \<Rightarrow>
      case (if pg_cpid p1 = pe_pid env then smcUnlock env w1 p1 else (w1, p1)) of (w2, p2) \<Rightarrow>
      case smUtilDetach (pe_os env) (pg_memKey p2) (pg_lockFile p2) (seg_addr env p2) free of
        None \<Rightarrow> None
      | Some evs \<Rightarrow>
          let w3 = run_events (pe_pid env) evs w2;
              p3 = p2\<lparr>pg_pstate := smStateSetAttached (pe_pid env) (pg_pstate p2) 0\<rparr>
          in if free then
               Some (w3, smc\<lparr>sc_npages := sc_npages smc - 1,
                  sc_pdata := (sc_pdata smc)[i := zero_page\<lparr>pg_free := 1\<rparr>],
                  sc_top := (if Suc i = sc_top smc then sc_top smc - 1 else sc_top smc),
                  sc_mem_allocated := sc_mem_allocated smc - pg_size p3,
                  sc_mem_avail := sc_mem_avail smc + pg_size p3\<rparr>)
             else Some (w3, smc\<lparr>sc_pdata := (sc_pdata smc)[i := p3]\<rparr>))"

text \<open>The inner loop of \<open>smcPrune\<close>: \<open>for (j=i; j < top-1; j++) pdata[j] = pdata[j+1]\<close>, then
  clear the last slot.\<close>

function page_shift :: "nat \<Rightarrow> nat \<Rightarrow> smcPage_t list \<Rightarrow> smcPage_t list" where
  "page_shift j tp pd =
     (if Suc j < tp then page_shift (Suc j) tp (pd[j := pd ! Suc j]) else pd[j := zero_page])"
  by pat_completeness auto
termination
  by (relation "measure (\<lambda>(j, tp, pd). tp - j)") auto

declare page_shift.simps [simp del]

function prune_loop :: "nat \<Rightarrow> nat \<Rightarrow> smcPage_t list \<Rightarrow> nat \<times> smcPage_t list" where
  "prune_loop i tp pd =
     (if i < tp then
        (if pg_memKey (pd ! i) = 0 then prune_loop (Suc i) (tp - 1) (page_shift i tp pd)
         else prune_loop (Suc i) tp pd)
      else (tp, pd))"
  by pat_completeness auto
termination
  by (relation "measure (\<lambda>(i, tp, pd). tp - i)") auto

declare prune_loop.simps [simp del]

definition smcPrune :: "smCache_t \<Rightarrow> smCache_t" where
  "smcPrune smc =
     (let smc1 = (if sc_np_hiwater smc < sc_top smc then smc\<lparr>sc_np_hiwater := sc_top smc\<rparr> else smc)
      in case prune_loop 0 (sc_top smc) (sc_pdata smc) of (tp, pd) \<Rightarrow>
           smc1\<lparr>sc_top := tp, sc_pdata := pd\<rparr>)"

text \<open>\<open>for (i=0; i < top; i++) smcDetach (smc, &smc->pdata[i], TRUE)\<close>, with the top saved
  before the loop.\<close>

function reset_loop :: "proc_env \<Rightarrow> nat \<Rightarrow> nat \<Rightarrow> world \<Rightarrow> smCache_t \<Rightarrow> (world \<times> smCache_t) option" where
  "reset_loop env i tp w smc =
     (if i < tp then
        (case smcDetach env w smc i True of
           None \<Rightarrow> None | Some (w', smc') \<Rightarrow> reset_loop env (Suc i) tp w' smc')
      else Some (w, smc))"
  by pat_completeness auto
termination
  by (relation "measure (\<lambda>(env, i, tp, w, smc). tp - i)") auto

declare reset_loop.simps [simp del]

definition smcReset :: "proc_env \<Rightarrow> world \<Rightarrow> smCache_t \<Rightarrow> (world \<times> smCache_t) option" where
  "smcReset env w smc = reset_loop env 0 (sc_top smc) w smc"

subsection \<open>The page array's invariant\<close>

definition page_used :: "smcPage_t \<Rightarrow> bool" where
  "page_used p \<longleftrightarrow> pg_memKey p \<noteq> 0"

definition page_wf :: "smcPage_t \<Rightarrow> bool" where
  "page_wf p \<longleftrightarrow> (pg_free p \<noteq> 0 \<longrightarrow> pg_memKey p = 0) \<and> length (pg_pstate p) = MAX_PROCS"

text \<open>\<open>npages\<close> counts the used slots, all of them below \<open>top\<close>, and a slot marked free is
  not used.\<close>

definition smc_inv :: "smCache_t \<Rightarrow> bool" where
  "smc_inv smc \<longleftrightarrow> length (sc_pdata smc) = nat MAX_SEGS \<and> sc_np_max smc = MAX_SEGS
     \<and> sc_top smc \<le> nat MAX_SEGS \<and> sc_npages smc = int (count_if page_used (sc_pdata smc))
     \<and> (\<forall>i. sc_top smc \<le> i \<longrightarrow> i < length (sc_pdata smc) \<longrightarrow> \<not> page_used (sc_pdata smc ! i))
     \<and> list_all page_wf (sc_pdata smc)"

definition held_pages :: "smCache_t \<Rightarrow> nat set" where
  "held_pages smc = {i. i < length (sc_pdata smc) \<and> page_used (sc_pdata smc ! i)}"

lemma zero_page_simps [simp]:
  "pg_memKey zero_page = 0" "pg_free zero_page = 0" "pg_pstate zero_page = zero_pstate"
  "pg_size zero_page = 0" "pg_ac_locked zero_page = 0" "pg_nattached zero_page = 0"
  by (simp_all add: zero_page_def)

lemma length_zero_pstate [simp]: "length zero_pstate = MAX_PROCS"
  by (simp add: zero_pstate_def)

lemma page_avail_unused: "page_wf p \<Longrightarrow> page_avail p \<longleftrightarrow> \<not> page_used p"
  by (auto simp: page_wf_def page_avail_def page_used_def)

lemma held_below_top: "smc_inv smc \<Longrightarrow> i \<in> held_pages smc \<Longrightarrow> i < sc_top smc"
  by (auto simp: smc_inv_def held_pages_def not_less [symmetric])

lemma npages_card: "smc_inv smc \<Longrightarrow> finite (held_pages smc) \<and> sc_npages smc = int (card (held_pages smc))"
  by (simp add: smc_inv_def held_pages_def length_filter_conv_card)

lemma count_if_all: "list_all P xs \<Longrightarrow> count_if P xs = length xs"
  by (induction xs) auto

text \<open>The slot that \<open>smcGetPage\<close> picks is unused and inside the array, if the cache is not
  full.\<close>

lemma find_slot_free:
  assumes inv: "smc_inv smc" and room: "sc_npages smc < sc_np_max smc"
  shows "find_slot smc < length (sc_pdata smc) \<and> \<not> page_used (sc_pdata smc ! find_slot smc)
    \<and> find_slot smc \<le> sc_top smc"
proof (cases "first_index page_avail (take (sc_top smc) (sc_pdata smc))")
  case None
  let ?t = "take (sc_top smc) (sc_pdata smc)"
  have "list_all page_used ?t"
    using None inv unfolding first_index_None list_all_iff smc_inv_def
    by (metis page_avail_unused in_set_takeD)
  then have "count_if page_used ?t = sc_top smc"
    using inv by (simp add: count_if_all smc_inv_def)
  moreover have "count_if page_used ?t \<le> count_if page_used (sc_pdata smc)"
    by (metis append_take_drop_id filter_append length_append le_add1)
  ultimately have "sc_top smc < length (sc_pdata smc)"
    using inv room by (simp add: smc_inv_def)
  then show ?thesis
    using None inv by (simp add: find_slot_def smc_inv_def)
next
  case (Some i)
  then have i: "i < sc_top smc" "i < length (sc_pdata smc)" "page_avail (sc_pdata smc ! i)"
    using first_index_bound [OF Some] first_index_holds [OF Some] by auto
  then have "\<not> page_used (sc_pdata smc ! i)"
    using inv page_avail_unused by (auto simp: smc_inv_def list_all_length)
  then show ?thesis using Some i by (simp add: find_slot_def)
qed

lemma smc_inv_update_slot:
  assumes inv: "smc_inv smc" and i: "i < length (sc_pdata smc)" and wf: "page_wf p"
    and pd: "sc_pdata smc' = (sc_pdata smc)[i := p]" and mx: "sc_np_max smc' = sc_np_max smc"
    and np: "sc_npages smc' + (if page_used (sc_pdata smc ! i) then 1 else 0)
      = sc_npages smc + (if page_used p then 1 else 0)"
    and tp: "sc_top smc' = sc_top smc
      \<or> (i = sc_top smc \<and> sc_top smc' = Suc (sc_top smc))
      \<or> (Suc i = sc_top smc \<and> \<not> page_used p \<and> sc_top smc' = sc_top smc - 1)"
    and used: "page_used p \<Longrightarrow> i < sc_top smc'"
  shows "smc_inv smc'"
proof -
  have "sc_npages smc' = int (count_if page_used (sc_pdata smc'))"
    using count_if_update [OF i, of page_used p] np inv unfolding pd smc_inv_def
    by (auto split: if_splits)
  moreover have "list_all page_wf (sc_pdata smc')"
    using inv wf unfolding pd smc_inv_def by (auto simp: list_all_iff dest!: set_update_subset_insert [THEN subsetD])
  moreover have "\<not> page_used (sc_pdata smc' ! j)" if "sc_top smc' \<le> j" "j < length (sc_pdata smc')" for j
  proof (cases "j = i")
    case True
    then show ?thesis using that used i pd by (auto simp: not_le)
  next
    case False
    then have "sc_top smc \<le> j" using that tp by auto
    then show ?thesis using False that inv pd by (simp add: smc_inv_def)
  qed
  moreover have "sc_top smc' \<le> nat MAX_SEGS" using inv i tp by (auto simp: smc_inv_def)
  ultimately show ?thesis using inv pd mx by (simp add: smc_inv_def)
qed

lemma getpage_attach_page:
  assumes "getpage_attach env w smc pnum p ty sz new = Some (w', p')" and "length (pg_pstate p) = MAX_PROCS"
  shows "pg_memKey p' = pg_memKey p \<and> pg_size p' = pg_size p \<and> pg_ac_locked p' = pg_ac_locked p
    \<and> pg_lockFile p' = pg_lockFile p \<and> pg_type p' = pg_type p \<and> pg_cpid p' = pg_cpid p
    \<and> pg_ctime p' = pg_ctime p \<and> length (pg_pstate p') = MAX_PROCS"
  using assms by (auto simp: getpage_attach_def Let_def smUtilTime_def split: prod.splits option.splits if_splits)

lemma smUtilInitSegment_short:
  "smUtilInitSegment os l = Some (k, new, l', evs) \<Longrightarrow> length l' < SZ_FNAME"
  by (auto simp: smUtilInitSegment_def SZ_FNAME_def split: if_splits)

lemma getpage_new_result:
  assumes r: "getpage_new env w smc ty sz af lf = Some (w', smc', res)"
  shows "\<exists>p. find_slot smc < length (sc_pdata smc) \<and> sc_pdata smc' = (sc_pdata smc)[find_slot smc := p]
    \<and> length (pg_pstate p) = MAX_PROCS \<and> pg_free p = 0
    \<and> sc_np_max smc' = sc_np_max smc \<and> sc_sysConfig smc' = sc_sysConfig smc
    \<and> sc_mem_allocated smc' = sc_mem_allocated smc + pg_size p
    \<and> sc_mem_avail smc' = sc_mem_avail smc - pg_size p
    \<and> pg_size p = word_of_int (pe_sizeof_seg env + sz + 3)
    \<and> (res = None \<and> pg_memKey p = 0 \<and> sc_npages smc' = sc_npages smc \<and> sc_top smc' = sc_top smc
       \<or> res = Some (find_slot smc) \<and> pg_memKey p \<noteq> 0 \<and> sc_npages smc' = sc_npages smc + 1
         \<and> sc_top smc' = (if find_slot smc = sc_top smc then Suc (sc_top smc) else sc_top smc)
         \<and> pg_type p = ty \<and> pg_cpid p = pe_pid env \<and> pg_ctime p = pe_clock env (w_ticks w)
         \<and> pg_ac_locked p = (if lf then 1 else 0) \<and> length (pg_lockFile p) < SZ_FNAME)"
proof -
  let ?i = "find_slot smc" and ?pid = "pe_pid env"
  let ?p = "zero_page\<lparr>pg_lockFile := seg_lockfile smc ?i,
      pg_size := word_of_int ((pe_sizeof_seg env + 1) + (sz + 1) + 1),
      pg_type := ty, pg_ctime := pe_clock env (w_ticks w), pg_cpid := ?pid\<rparr>"
  have szw: "word_of_int (pe_sizeof_seg env + sz + 3) = (word_of_int ((pe_sizeof_seg env + 1) + (sz + 1) + 1) :: xlong)"
    by (rule arg_cong [where f = word_of_int]) simp
  have bounds: "?i < length (sc_pdata smc)" "length (seg_lockfile smc ?i) < SZ_PATH"
    using r by (auto simp: getpage_new_def Let_def split: if_splits)
  show ?thesis
  proof (cases "pe_calloc env")
    case False
    then show ?thesis using r bounds
      by (intro exI [of _ ?p]) (auto simp: getpage_new_def Let_def smUtilTime_def szw)
  next
    case True
    then obtain memKey new lf' evs where seg:
      "smUtilInitSegment (pe_os env) (seg_lockfile smc ?i) = Some (memKey, new, lf', evs)"
      using r bounds by (auto simp: getpage_new_def Let_def smUtilTime_def not_le split: option.splits)
    let ?p1 = "?p\<lparr>pg_memKey := memKey, pg_lockFile := lf'\<rparr>"
    show ?thesis
    proof (cases "memKey = 0")
      case True
      then show ?thesis using r bounds \<open>pe_calloc env\<close> seg
        by (intro exI [of _ ?p1]) (auto simp: getpage_new_def Let_def smUtilTime_def szw)
    next
      case False
      note defs = getpage_new_def Let_def smUtilTime_def smcLock_def
      note short = smUtilInitSegment_short [OF seg]
      show ?thesis
      proof (cases af)
        case True
        then obtain W S w3 p2 where p2: "getpage_attach env W S ?i ?p1 ty sz new = Some (w3, p2)"
          and smc': "sc_pdata smc' = (sc_pdata smc)[?i := (if lf then smcLock else id)
            (p2\<lparr>pg_free := 0, pg_pstate := smStateSetSMC ?pid (pg_pstate p2) (pe_smc env)\<rparr>)]"
          and rest: "res = Some ?i" "sc_npages smc' = sc_npages smc + 1" "sc_np_max smc' = sc_np_max smc"
            "sc_sysConfig smc' = sc_sysConfig smc" "sc_mem_allocated smc' = sc_mem_allocated smc + pg_size ?p"
            "sc_mem_avail smc' = sc_mem_avail smc - pg_size ?p"
            "sc_top smc' = (if ?i = sc_top smc then Suc (sc_top smc) else sc_top smc)"
          using r bounds \<open>pe_calloc env\<close> seg False by (auto simp: defs split: option.splits)
        show ?thesis
          using getpage_attach_page [OF p2] bounds smc' rest False short
          by (intro exI [of _ "(if lf then smcLock else id)
            (p2\<lparr>pg_free := 0, pg_pstate := smStateSetSMC ?pid (pg_pstate p2) (pe_smc env)\<rparr>)"])
            (auto simp: smcLock_def szw)
      next
        case af: False
        show ?thesis
          using r bounds \<open>pe_calloc env\<close> seg False af short
          by (intro exI [of _ "(if lf then smcLock else id)
            (?p1\<lparr>pg_initialized := 0, pg_free := 0, pg_pstate := smStateSetSMC ?pid (smStateSetAttached ?pid zero_pstate 0)
              (pe_smc env)\<rparr>)"])
            (auto simp: defs szw)
      qed
    qed
  qed
qed

lemma smc_inv_getpage_new:
  assumes inv: "smc_inv smc" and room: "sc_npages smc < sc_np_max smc"
    and r: "getpage_new env w smc ty sz af lf = Some (w', smc', res)"
  shows "smc_inv smc' \<and> (case res of None \<Rightarrow> held_pages smc' = held_pages smc
      | Some i \<Rightarrow> i \<notin> held_pages smc \<and> held_pages smc' = insert i (held_pages smc))"
proof -
  let ?i = "find_slot smc"
  note fs = find_slot_free [OF inv room]
  obtain p where p: "sc_pdata smc' = (sc_pdata smc)[?i := p]" "length (pg_pstate p) = MAX_PROCS" "pg_free p = 0"
      "sc_np_max smc' = sc_np_max smc"
    and alt: "res = None \<and> pg_memKey p = 0 \<and> sc_npages smc' = sc_npages smc \<and> sc_top smc' = sc_top smc
       \<or> res = Some ?i \<and> pg_memKey p \<noteq> 0 \<and> sc_npages smc' = sc_npages smc + 1
         \<and> sc_top smc' = (if ?i = sc_top smc then Suc (sc_top smc) else sc_top smc)"
    using getpage_new_result [OF r] by blast
  have "page_wf p" using p by (simp add: page_wf_def)
  then have "smc_inv smc'"
    using fs alt by (intro smc_inv_update_slot [OF inv _ _ p(1,4)]) (auto simp: page_used_def split: if_splits)
  moreover have "held_pages smc' = (if page_used p then insert ?i (held_pages smc) else held_pages smc)"
    using fs p(1) by (auto simp: held_pages_def nth_list_update)
  moreover have "?i \<notin> held_pages smc" using fs by (simp add: held_pages_def)
  ultimately show ?thesis using alt by (auto simp: page_used_def)
qed

lemma smcUnlock_fields [simp]:
  "pg_memKey (snd (smcUnlock env w p)) = pg_memKey p" "pg_size (snd (smcUnlock env w p)) = pg_size p"
  "pg_free (snd (smcUnlock env w p)) = pg_free p" "pg_lockFile (snd (smcUnlock env w p)) = pg_lockFile p"
  "length (pg_pstate (snd (smcUnlock env w p))) = length (pg_pstate p)"
  by (simp_all add: smcUnlock_def Let_def smUtilTime_def)

lemma smcDetach_result:
  assumes r: "smcDetach env w smc i free = Some (w', smc')" 
  shows "\<exists>p. sc_pdata smc' = (sc_pdata smc)[i := p] \<and> sc_np_max smc' = sc_np_max smc
    \<and> (if free then p = zero_page\<lparr>pg_free := 1\<rparr> \<and> sc_npages smc' = sc_npages smc - 1
         \<and> sc_top smc' = (if Suc i = sc_top smc then sc_top smc - 1 else sc_top smc)
         \<and> sc_mem_allocated smc' = sc_mem_allocated smc - pg_size (sc_pdata smc ! i)
         \<and> sc_mem_avail smc' = sc_mem_avail smc + pg_size (sc_pdata smc ! i)
       else pg_memKey p = pg_memKey (sc_pdata smc ! i) \<and> pg_free p = pg_free (sc_pdata smc ! i)
         \<and> length (pg_pstate p) = length (pg_pstate (sc_pdata smc ! i))
         \<and> sc_npages smc' = sc_npages smc \<and> sc_top smc' = sc_top smc
         \<and> sc_mem_allocated smc' = sc_mem_allocated smc \<and> sc_mem_avail smc' = sc_mem_avail smc)"
proof -
  let ?p = "sc_pdata smc ! i"
  obtain w1 p1 where p1: "(if free \<and> seg_attached env ?p \<le> 0 then smcAttach env w ?p else (w, ?p)) = (w1, p1)"
    by fastforce
  obtain w2 p2 where p2: "(if pg_cpid p1 = pe_pid env then smcUnlock env w1 p1 else (w1, p1)) = (w2, p2)"
    by fastforce
  have "p1 = (if free \<and> seg_attached env ?p \<le> 0 then snd (smcAttach env w ?p) else ?p)"
    "p2 = (if pg_cpid p1 = pe_pid env then snd (smcUnlock env w1 p1) else p1)"
    using p1 p2 by (auto split: if_splits dest: arg_cong [where f = snd])
  then have f: "pg_memKey p2 = pg_memKey ?p" "pg_size p2 = pg_size ?p" "pg_free p2 = pg_free ?p"
    "length (pg_pstate p2) = length (pg_pstate ?p)" by simp_all
  show ?thesis
    using r f unfolding smcDetach_def Let_def p1 by (auto simp: p2 split: option.splits if_splits)
qed

lemma smc_inv_smcDetach_free:
  assumes inv: "smc_inv smc" and i: "i \<in> held_pages smc" and r: "smcDetach env w smc i True = Some (w', smc')"
  shows "smc_inv smc' \<and> held_pages smc' = held_pages smc - {i}"
proof -
  let ?z = "zero_page\<lparr>pg_free := 1\<rparr>"
  have z: "sc_pdata smc' = (sc_pdata smc)[i := ?z]" "sc_np_max smc' = sc_np_max smc"
    and c: "sc_npages smc' = sc_npages smc - 1"
      "sc_top smc' = (if Suc i = sc_top smc then sc_top smc - 1 else sc_top smc)"
    using smcDetach_result [OF r] by auto
  have i': "i < length (sc_pdata smc)" "page_used (sc_pdata smc ! i)" using i by (auto simp: held_pages_def)
  have "\<not> page_used ?z" "page_wf ?z" by (simp_all add: page_used_def page_wf_def)
  then have "smc_inv smc'"
    using i' c by (intro smc_inv_update_slot [OF inv i'(1) _ z]) auto
  moreover have "held_pages smc' = held_pages smc - {i}"
    using z(1) i' \<open>\<not> page_used ?z\<close> by (auto simp: held_pages_def nth_list_update split: if_splits)
  ultimately show ?thesis by simp
qed

lemma smc_inv_smcDetach_keep:
  assumes inv: "smc_inv smc" and i: "i < length (sc_pdata smc)" and r: "smcDetach env w smc i False = Some (w', smc')"
  shows "smc_inv smc' \<and> held_pages smc' = held_pages smc"
proof -
  obtain p where p: "sc_pdata smc' = (sc_pdata smc)[i := p]" "sc_np_max smc' = sc_np_max smc"
    and e: "pg_memKey p = pg_memKey (sc_pdata smc ! i)" "pg_free p = pg_free (sc_pdata smc ! i)"
      "length (pg_pstate p) = length (pg_pstate (sc_pdata smc ! i))"
      "sc_npages smc' = sc_npages smc" "sc_top smc' = sc_top smc"
    using smcDetach_result [OF r] by auto
  have u: "page_used p = page_used (sc_pdata smc ! i)" using e by (simp add: page_used_def)
  have "page_wf (sc_pdata smc ! i)" using inv i by (simp add: smc_inv_def list_all_length)
  then have "page_wf p" using e by (simp add: page_wf_def)
  moreover have "page_used p \<Longrightarrow> i < sc_top smc'"
    using held_below_top [OF inv, of i] i u e by (simp add: held_pages_def)
  ultimately have "smc_inv smc'"
    using i u e by (intro smc_inv_update_slot [OF inv i _ p]) auto
  moreover have "held_pages smc' = held_pages smc"
    using p(1) u i by (auto simp: held_pages_def nth_list_update)
  ultimately show ?thesis by simp
qed

subsection \<open>The throttle\<close>

fun sleeps :: "(nat \<Rightarrow> 's \<Rightarrow> 's) \<Rightarrow> nat \<Rightarrow> nat \<Rightarrow> 's \<Rightarrow> 's" where
  "sleeps others i 0 s = s"
| "sleeps others i (Suc k) s = sleeps others (Suc i) k (others i s)"

abbreviation ntry :: "smCache_t \<Rightarrow> int" where
  "ntry smc \<equiv> sint (cfg_throttle_ntry (sc_sysConfig smc))"

lemma throttle_returns:
  assumes keep: "\<And>i s. ntry (others i s) = ntry s" and "int i \<le> ntry smc"
  shows "\<exists>k ok. throttle others i smc = Some (sleeps others i k smc, ok) \<and> int (i + k) \<le> ntry smc + 1
    \<and> (ok \<longrightarrow> sc_npages (sleeps others i k smc) < sc_np_max (sleeps others i k smc))
    \<and> (\<not> ok \<longrightarrow> int (i + k) = ntry smc + 1)"
  using assms(2)
proof (induction "nat (ntry smc - int i)" arbitrary: i smc)
  case 0
  then have i: "int i = ntry smc" by simp
  show ?case
  proof (cases "sc_np_max smc \<le> sc_npages smc")
    case True
    then show ?thesis using i by (intro exI [of _ 1] exI [of _ False]) (simp add: throttle.simps)
  next
    case False
    then show ?thesis using i by (intro exI [of _ 0] exI [of _ True]) (simp add: throttle.simps)
  qed
next
  case (Suc n)
  show ?case
  proof (cases "sc_np_max smc \<le> sc_npages smc")
    case True
    have "n = nat (ntry (others i smc) - int (Suc i))" "int (Suc i) \<le> ntry (others i smc)"
      using Suc.hyps(2) Suc.prems keep by auto
    then obtain k ok where "throttle others (Suc i) (others i smc) = Some (sleeps others (Suc i) k (others i smc), ok)"
      "int (Suc i + k) \<le> ntry smc + 1"
      "ok \<longrightarrow> sc_npages (sleeps others (Suc i) k (others i smc)) < sc_np_max (sleeps others (Suc i) k (others i smc))"
      "\<not> ok \<longrightarrow> int (Suc i + k) = ntry smc + 1"
      using Suc.hyps(1) keep by metis
    moreover have "int i \<noteq> ntry smc" using Suc.hyps(2) by auto
    ultimately show ?thesis
      using True by (intro exI [of _ "Suc k"] exI [of _ ok]) (simp add: throttle.simps [of _ i])
  next
    case False
    then show ?thesis using Suc.prems
      by (intro exI [of _ 0] exI [of _ True]) (simp add: throttle.simps)
  qed
qed

lemma throttle_room: "sc_npages smc < sc_np_max smc \<Longrightarrow> throttle others i smc = Some (smc, True)"
  by (simp add: throttle.simps)

lemma sleeps_invariant: "(\<And>i s. P s \<Longrightarrow> P (others i s)) \<Longrightarrow> P s \<Longrightarrow> P (sleeps others i k s)"
  by (induction others i k s rule: sleeps.induct) auto

text \<open>What holds after a call, whatever the outcome.\<close>

lemma smc_inv_smcGetPage:
  assumes inv: "smc_inv smc" and oth: "\<And>i s. smc_inv s \<Longrightarrow> smc_inv (others i s)"
    and keep: "\<And>i s. ntry (others i s) = ntry s" and "0 \<le> ntry smc"
    and r: "smcGetPage env others w (Some smc) ty sz af lf = Some (w', smc', res)"
  shows "\<exists>s'. smc' = Some s' \<and> smc_inv s'"
proof -
  obtain k ok where t: "throttle others 0 smc = Some (sleeps others 0 k smc, ok)"
    "ok \<longrightarrow> sc_npages (sleeps others 0 k smc) < sc_np_max (sleeps others 0 k smc)"
    using throttle_returns [of others 0 smc] keep assms(4) by auto
  have "smc_inv (sleeps others 0 k smc)" by (rule sleeps_invariant) (use oth inv in auto)
  then show ?thesis
    using r t inv by (cases ok)
      (auto simp: smcGetPage_def smc_inv_getpage_new split: if_splits option.splits)
qed

subsection \<open>A pool of slots\<close>

datatype pool_op = Acquire nat | Release nat

inductive pool_run :: "('s \<Rightarrow> nat \<Rightarrow> 's \<Rightarrow> bool) \<Rightarrow> ('s \<Rightarrow> nat \<Rightarrow> 's \<Rightarrow> bool) \<Rightarrow> 's \<Rightarrow> pool_op list \<Rightarrow> 's \<Rightarrow> bool"
  for acq rel where
  run_nil: "pool_run acq rel s [] s"
| run_acquire: "acq s i s' \<Longrightarrow> pool_run acq rel s' tr s'' \<Longrightarrow> pool_run acq rel s (Acquire i # tr) s''"
| run_release: "rel s i s' \<Longrightarrow> pool_run acq rel s' tr s'' \<Longrightarrow> pool_run acq rel s (Release i # tr) s''"

inductive_cases pool_run_NilE [elim!]: "pool_run acq rel s [] s'"
inductive_cases pool_run_ConsE [elim]: "pool_run acq rel s (e # tr) s'"

text \<open>What is held after a trace, and whether the trace hands out only slots that are free
  and takes back only slots that are held.\<close>

fun held_after :: "nat set \<Rightarrow> pool_op list \<Rightarrow> nat set" where
  "held_after H [] = H"
| "held_after H (Acquire i # tr) = held_after (insert i H) tr"
| "held_after H (Release i # tr) = held_after (H - {i}) tr"

fun exclusive :: "nat set \<Rightarrow> pool_op list \<Rightarrow> bool" where
  "exclusive H [] = True"
| "exclusive H (Acquire i # tr) = (i \<notin> H \<and> exclusive (insert i H) tr)"
| "exclusive H (Release i # tr) = (i \<in> H \<and> exclusive (H - {i}) tr)"

locale slot_pool =
  fixes inv :: "'s \<Rightarrow> bool"
    and held :: "'s \<Rightarrow> nat set"
    and counter :: "'s \<Rightarrow> int"
    and acq :: "'s \<Rightarrow> nat \<Rightarrow> 's \<Rightarrow> bool"
    and rel :: "'s \<Rightarrow> nat \<Rightarrow> 's \<Rightarrow> bool"
  assumes counts: "inv s \<Longrightarrow> finite (held s) \<and> counter s = int (card (held s))"
    and acquire: "inv s \<Longrightarrow> acq s i s' \<Longrightarrow> inv s' \<and> i \<notin> held s \<and> held s' = insert i (held s)"
    and release: "inv s \<Longrightarrow> rel s i s' \<Longrightarrow> inv s' \<and> i \<in> held s \<and> held s' = held s - {i}"
begin

lemma run_sound:
  assumes "pool_run acq rel s tr s'" and "inv s"
  shows "inv s' \<and> exclusive (held s) tr \<and> held s' = held_after (held s) tr"
  using assms
proof (induction rule: pool_run.induct)
  case (run_nil s)
  then show ?case by simp
next
  case (run_acquire s i s' tr s'')
  then show ?case using acquire by force
next
  case (run_release s i s' tr s'')
  then show ?case using release by force
qed

lemma run_counter:
  assumes "pool_run acq rel s tr s'" and "inv s"
  shows "counter s' = int (card (held_after (held s) tr))"
  using run_sound [OF assms] counts by metis

end

text \<open>One process gets a page of the shared cache, or frees one that is in use.\<close>

definition cache_get :: "smCache_t \<Rightarrow> nat \<Rightarrow> smCache_t \<Rightarrow> bool" where
  "cache_get smc i smc' \<longleftrightarrow> sc_npages smc < sc_np_max smc \<and> (\<exists>env others w ty sz af lf w'.
     smcGetPage env others w (Some smc) ty sz af lf = Some (w', Some smc', Some i))"

definition cache_free :: "smCache_t \<Rightarrow> nat \<Rightarrow> smCache_t \<Rightarrow> bool" where
  "cache_free smc i smc' \<longleftrightarrow> i \<in> held_pages smc \<and> (\<exists>env w w'. smcDetach env w smc i True = Some (w', smc'))"

lemma smcGetPage_room:
  assumes "sc_npages smc < sc_np_max smc" and "sz \<le> MAX_SEG_SIZE"
  shows "smcGetPage env others w (Some smc) ty sz af lf = Some (w', Some smc', res)
    \<longleftrightarrow> getpage_new env w smc ty sz af lf = Some (w', smc', res)"
  using assms by (auto simp: smcGetPage_def throttle_room split: option.splits)

lemma smcGetPage_page_size:
  "smcGetPage env others w (Some smc) ty sz af lf = Some (w', smc', Some i) \<Longrightarrow> sz \<le> MAX_SEG_SIZE"
  by (auto simp: smcGetPage_def split: if_splits)

lemma cache_get_sound:
  assumes inv: "smc_inv s" and g: "cache_get s i s'"
  shows "smc_inv s' \<and> i \<notin> held_pages s \<and> held_pages s' = insert i (held_pages s)"
proof -
  obtain env others w ty sz af lf w' where room: "sc_npages s < sc_np_max s"
    and r: "smcGetPage env others w (Some s) ty sz af lf = Some (w', Some s', Some i)"
    using g unfolding cache_get_def by blast
  have "getpage_new env w s ty sz af lf = Some (w', s', Some i)"
    using r smcGetPage_room [OF room smcGetPage_page_size [OF r]] by simp
  then show ?thesis using smc_inv_getpage_new [OF inv room, of env w ty sz af lf w' s' "Some i"] by simp
qed

interpretation cache: slot_pool smc_inv held_pages sc_npages cache_get cache_free
proof unfold_locales
  show "smc_inv s \<Longrightarrow> cache_get s i s' \<Longrightarrow> smc_inv s' \<and> i \<notin> held_pages s \<and> held_pages s' = insert i (held_pages s)"
    for s i s'
    by (rule cache_get_sound)
  show "smc_inv s \<Longrightarrow> cache_free s i s' \<Longrightarrow> smc_inv s' \<and> i \<in> held_pages s \<and> held_pages s' = held_pages s - {i}"
    for s i s'
    unfolding cache_free_def using smc_inv_smcDetach_free by blast
qed (rule npages_card)

subsection \<open>Properties\<close>

text \<open>C1.  Page allocation.  While the cache is not full \<open>smcGetPage\<close> keeps the cache's
  invariant.  If it returns a page, that is a slot nobody held, below the top of the array,
  with the requested type, the caller as its creator, the caller's clock as its creation
  time and the requested lock; every other slot is as before.  If it returns null no slot
  changes hands.  The sum of the memory counters is the same in both cases.\<close>

theorem smcGetPage_fresh_page:
  assumes inv: "smc_inv smc" and room: "sc_npages smc < sc_np_max smc" and sz: "sz \<le> MAX_SEG_SIZE"
    and r: "smcGetPage env others w (Some smc) ty sz af lf = Some (w', Some smc', res)"
  shows "smc_inv smc' \<and> sc_mem_allocated smc' + sc_mem_avail smc' = sc_mem_allocated smc + sc_mem_avail smc
    \<and> (case res of
         None \<Rightarrow> held_pages smc' = held_pages smc
       | Some i \<Rightarrow> i \<notin> held_pages smc \<and> held_pages smc' = insert i (held_pages smc)
           \<and> i < sc_top smc' \<and> sc_npages smc' = sc_npages smc + 1
           \<and> pg_type (sc_pdata smc' ! i) = ty \<and> pg_cpid (sc_pdata smc' ! i) = pe_pid env
           \<and> pg_ctime (sc_pdata smc' ! i) = pe_clock env (w_ticks w)
           \<and> (pg_ac_locked (sc_pdata smc' ! i) = 1 \<longleftrightarrow> lf)
           \<and> (\<forall>j. j \<noteq> i \<longrightarrow> sc_pdata smc' ! j = sc_pdata smc ! j))"
proof -
  have n: "getpage_new env w smc ty sz af lf = Some (w', smc', res)"
    using r smcGetPage_room [OF room sz] by simp
  obtain p where p: "find_slot smc < length (sc_pdata smc)" "sc_pdata smc' = (sc_pdata smc)[find_slot smc := p]"
      "sc_mem_allocated smc' = sc_mem_allocated smc + pg_size p" "sc_mem_avail smc' = sc_mem_avail smc - pg_size p"
    and alt: "res = None \<or> res = Some (find_slot smc) \<and> sc_npages smc' = sc_npages smc + 1
      \<and> pg_type p = ty \<and> pg_cpid p = pe_pid env \<and> pg_ctime p = pe_clock env (w_ticks w)
      \<and> pg_ac_locked p = (if lf then 1 else 0)"
    using getpage_new_result [OF n] by blast
  note i = smc_inv_getpage_new [OF inv room n]
  show ?thesis
  proof (cases res)
    case None
    then show ?thesis using i p by simp
  next
    case (Some j)
    then have "j < sc_top smc'" using i held_below_top [of smc' j] by simp
    then show ?thesis using Some i p alt by simp
  qed
qed

text \<open>C2.  Any sequence of page allocations and releases, by any processes in any order, keeps
  the invariant and hands every page to one holder at a time: a slot is given out only
  when it is not held, and \<open>npages\<close> counts the pages held at the end.\<close>

theorem cache_run_exclusive:
  assumes "pool_run cache_get cache_free smc tr smc'" and "smc_inv smc"
  shows "smc_inv smc' \<and> exclusive (held_pages smc) tr
    \<and> sc_npages smc' = int (card (held_after (held_pages smc) tr))"
  using cache.run_sound [OF assms] cache.run_counter [OF assms] by simp


lemma smStateAdd_zero_pstate:
  assumes "pid \<noteq> 0"
  shows "\<exists>e. st_entry pid (snd (smStateAdd alive pid zero_pstate t a att)) = Some e \<and> st_ltime e = t
    \<and> st_utime e = 0 \<and> st_addr e = a \<and> st_attached e = att"
proof -
  have c: "smStateClean alive zero_pstate = zero_pstate"
    by (rule smStateClean_all_alive) (simp add: all_alive_def zero_pstate_def)
  have "\<not> pid_before_hole pid zero_pstate"
    using assms by (simp add: pid_before_hole_listed zero_pstate_def MAX_PROCS_def eval_nat_numeral)
  moreover have "first_hole zero_pstate < MAX_PROCS"
    by (simp add: zero_pstate_def MAX_PROCS_def eval_nat_numeral)
  ultimately have "fst (smStateAdd alive pid zero_pstate t a att) = Some OK"
    using smStateAdd_slot(1) [of zero_pstate pid alive] c by simp
  moreover have "smStateLookupByPid zero_pstate pid = None"
    using assms by (simp add: smStateLookupByPid_def first_index_None zero_pstate_def)
  ultimately show ?thesis
    using smStateAdd_entry_own [of zero_pstate pid alive t a att] assms c by simp
qed

lemma getpage_attach_new:
  assumes key: "pg_memKey p \<noteq> 0" "pg_size p \<noteq> 0" and ps: "pg_pstate p = zero_pstate" and pid: "pe_pid env \<noteq> 0"
    and shm: "shmget (pe_os env) (pg_memKey p) (pg_size p) True = sid" "sid \<noteq> ERR" "sid \<noteq> 0"
      "shmat (pe_os env) sid = a" "a \<noteq> ERR" "fopen_append (pe_os env) (pg_lockFile p)"
  shows "\<exists>w' p' t. getpage_attach env w smc pnum p ty sz True = Some (w', p')
    \<and> w_map w' (pe_pid env) a = Some sid \<and> w_shm w' sid = Some (new_header env smc pnum p ty sz a sid t)
    \<and> (\<exists>e. st_entry (pe_pid env) (pg_pstate p') = Some e \<and> st_addr e = a \<and> st_attached e = 1)
    \<and> p' = p\<lparr>pg_initialized := 1, pg_pstate := pg_pstate p'\<rparr> \<and> w_sem w' = w_sem w \<and> w_sem_init w' = w_sem_init w"
proof -
  have at: "smUtilAttach (pe_os env) (pg_memKey p) (pg_lockFile p) (pg_size p) 1 =
      (a, sid, [ShmAttach sid a, FileAppend (pg_lockFile p) (attach_comment (pe_os env) a sid (pg_size p)),
        ShmZero a (pg_size p)])"
    using key shm by (simp add: smUtilAttach_def Let_def)
  let ?w1 = "run_events (pe_pid env) (snd (snd (smUtilAttach (pe_os env) (pg_memKey p) (pg_lockFile p) (pg_size p) 1))) w"
  have m: "w_map ?w1 (pe_pid env) a = Some sid" "w_shm ?w1 sid = Some zero_segment"
    by (simp_all add: at run_events_def)
  have sem: "w_sem ?w1 = w_sem w" "w_sem_init ?w1 = w_sem_init w" by (simp_all add: at run_events_def)
  let ?t = "pe_clock env (w_ticks ?w1)" and ?t2 = "pe_clock env (Suc (w_ticks ?w1))"
  let ?w2 = "?w1\<lparr>w_ticks := Suc (w_ticks ?w1), w_shm := (w_shm ?w1)(sid := Some (new_header env smc pnum p ty sz a sid ?t))\<rparr>"
  obtain e where "st_entry (pe_pid env) (snd (smStateAdd (pe_alive env) (pe_pid env) zero_pstate ?t2 a 1)) = Some e"
    using smStateAdd_zero_pstate [OF pid] by blast
  moreover have "getpage_attach env w smc pnum p ty sz True = Some (?w2\<lparr>w_ticks := Suc (w_ticks ?w2)\<rparr>,
      p\<lparr>pg_initialized := 1, pg_pstate := smStateSetAttached (pe_pid env) (smStateSetAddr (pe_pid env)
         (snd (smStateAdd (pe_alive env) (pe_pid env) zero_pstate ?t2 a 1)) a) 1\<rparr>)"
    using m shm(3) unfolding getpage_attach_def at by (simp add: Let_def at smUtilTime_def store_seg_def ps)
  ultimately show ?thesis
    using m sem by (intro exI conjI) (assumption | simp)+
qed

lemma smcGetPage_attached:
  assumes inv: "smc_inv smc" and room: "sc_npages smc < sc_np_max smc" and sz: "sz \<le> MAX_SEG_SIZE"
    and i: "i = find_slot smc" and l: "l = seg_lockfile smc i" "length l < SZ_FNAME"
    and key: "k = ftok (pe_os env) l (int (length l mod 256))" "k \<noteq> 0"
    and n: "n = word_of_int (pe_sizeof_seg env + sz + 3)" "n \<noteq> 0"
    and os: "fopen_append (pe_os env) l" "append_pos (pe_os env) l = 0" "pe_calloc env" "pe_pid env \<noteq> 0"
    and shm: "shmget (pe_os env) k n True = sid" "sid \<noteq> ERR" "sid \<noteq> 0" "shmat (pe_os env) sid = a" "a \<noteq> ERR"
  shows "\<exists>w' smc' p h. smcGetPage env others w (Some smc) ty sz True lf = Some (w', Some smc', Some i)
    \<and> sc_pdata smc' = (sc_pdata smc)[i := p] \<and> i < length (sc_pdata smc)
    \<and> seg_addr env p = a \<and> seg_attached env p = 1 \<and> pg_cpid p = pe_pid env \<and> pg_memKey p = k \<and> pg_lockFile p = l \<and> pg_type p = ty
    \<and> pg_initialized p = 1 \<and> pg_ac_locked p = (if lf then 1 else 0) \<and> pg_colID p = []
    \<and> w_map w' (pe_pid env) a = Some sid \<and> w_shm w' sid = Some h \<and> w_sem w' = w_sem w \<and> w_sem_init w' = w_sem_init w
    \<and> seg_pagenum h = i \<and> seg_memKey h = k \<and> seg_type h = ty \<and> seg_obsetID h = [] \<and> seg_colID h = []
    \<and> seg_dsize h = word_of_int sz \<and> seg_seqno h = sc_seqno smc \<and> seg_dirpath h = sc_dirpath smc \<and> seg_froot h = sc_froot smc"
proof -
  let ?q = "zero_page\<lparr>pg_lockFile := l, pg_size := n, pg_type := ty, pg_ctime := pe_clock env (w_ticks w),
      pg_cpid := pe_pid env\<rparr>"
  let ?p = "?q\<lparr>pg_memKey := k, pg_lockFile := l\<rparr>"
  have n': "word_of_int ((pe_sizeof_seg env + 1) + (sz + 1) + 1) = n"
    unfolding n by (rule arg_cong [where f = word_of_int]) simp
  have len: "i < length (sc_pdata smc)" using find_slot_free [OF inv room] i by simp
  have seg: "smUtilInitSegment (pe_os env) l = Some (k, True, l, [FileAppend l (init_comment (pe_os env))])"
    using l os key by (simp add: smUtilInitSegment_def)
  let ?w2 = "run_events (pe_pid env) [FileAppend l (init_comment (pe_os env))] (w\<lparr>w_ticks := Suc (w_ticks w)\<rparr>)"
  let ?smc2 = "smc\<lparr>sc_mem_allocated := sc_mem_allocated smc + n, sc_mem_avail := sc_mem_avail smc - n,
      sc_pdata := (sc_pdata smc)[i := ?q], sc_npages := sc_npages smc + 1,
      sc_top := (if i = sc_top smc then Suc (sc_top smc) else sc_top smc)\<rparr>"
  obtain w' p' t e where at: "getpage_attach env ?w2 ?smc2 i ?p ty sz True = Some (w', p')"
      "w_map w' (pe_pid env) a = Some sid" "w_shm w' sid = Some (new_header env ?smc2 i ?p ty sz a sid t)"
    and e: "st_entry (pe_pid env) (pg_pstate p') = Some e" "st_addr e = a" "st_attached e = 1"
    and p': "p' = ?p\<lparr>pg_initialized := 1, pg_pstate := pg_pstate p'\<rparr>" and sem: "w_sem w' = w_sem ?w2" "w_sem_init w' = w_sem_init ?w2"
    using getpage_attach_new [of ?p env sid a ?w2 ?smc2 i ty sz] key(2) n(2) os shm by auto
  let ?p4 = "(if lf then smcLock else id)
      (p'\<lparr>pg_free := 0, pg_pstate := smStateSetSMC (pe_pid env) (pg_pstate p') (pe_smc env)\<rparr>)"
  have "getpage_new env w smc ty sz True lf = Some (w', ?smc2\<lparr>sc_pdata := (sc_pdata smc)[i := ?p4]\<rparr>, Some i)"
    using at(1) len l(2) os key(2)
    unfolding getpage_new_def Let_def smUtilTime_def prod.case i [symmetric] l(1) [symmetric] n' seg option.case
    by (simp add: SZ_FNAME_def SZ_PATH_def)
  then have "smcGetPage env others w (Some smc) ty sz True lf
      = Some (w', Some (?smc2\<lparr>sc_pdata := (sc_pdata smc)[i := ?p4]\<rparr>), Some i)"
    using smcGetPage_room [OF room sz] by blast
  moreover have "seg_addr env ?p4 = a" "seg_attached env ?p4 = 1"
    using e by (simp_all add: seg_addr_def seg_attached_def st_getter_defs smcLock_def)
  moreover have "pg_cpid ?p4 = pe_pid env" "pg_memKey ?p4 = k" "pg_lockFile ?p4 = l" "pg_type ?p4 = ty" "pg_initialized ?p4 = 1"
      "pg_ac_locked ?p4 = (if lf then 1 else 0)" "pg_colID ?p4 = []"
    by (subst p', simp add: smcLock_def zero_page_def)+
  moreover have "w_sem w' = w_sem w" "w_sem_init w' = w_sem_init w" using sem by (simp_all add: run_events_def)
  ultimately show ?thesis using at(2,3) len
    by (intro exI [of _ w'] exI [of _ "?smc2\<lparr>sc_pdata := (sc_pdata smc)[i := ?p4]\<rparr>"] exI [of _ ?p4] exI [of _ "new_header env ?smc2 i ?p ty sz a sid t"])
      (simp add: new_header_def zero_segment_def)
qed


text \<open>A page asked for with attachment is usable at once.  When the kernel creates and
  maps a segment for the slot's key and the lock file is new, \<open>smcGetPage\<close> returns the slot,
  the caller's address for it is where the segment is mapped, and the shared header there
  names the slot, its key, the requested type and size, and the cache's current file name
  attributes.\<close>

theorem smcGetPage_initialises_segment:
  assumes inv: "smc_inv smc" and room: "sc_npages smc < sc_np_max smc" and sz: "sz \<le> MAX_SEG_SIZE"
    and i: "i = find_slot smc" and l: "l = seg_lockfile smc i" "length l < SZ_FNAME"
    and key: "k = ftok (pe_os env) l (int (length l mod 256))" "k \<noteq> 0"
    and n: "n = word_of_int (pe_sizeof_seg env + sz + 3)" "n \<noteq> 0"
    and os: "fopen_append (pe_os env) l" "append_pos (pe_os env) l = 0" "pe_calloc env" "pe_pid env \<noteq> 0"
    and shm: "shmget (pe_os env) k n True = sid" "sid \<noteq> ERR" "sid \<noteq> 0" "shmat (pe_os env) sid = a" "a \<noteq> ERR"
  shows "\<exists>w' smc' h. smcGetPage env others w (Some smc) ty sz True lf = Some (w', Some smc', Some i)
    \<and> seg_addr env (sc_pdata smc' ! i) = a \<and> seg_attached env (sc_pdata smc' ! i) = 1
    \<and> deref env w' a = Some h \<and> seg_pagenum h = i \<and> seg_memKey h = k \<and> seg_type h = ty
    \<and> seg_dsize h = word_of_int sz \<and> seg_seqno h = sc_seqno smc \<and> seg_dirpath h = sc_dirpath smc
    \<and> seg_froot h = sc_froot smc"
proof -
  obtain w' smc' p h where g: "smcGetPage env others w (Some smc) ty sz True lf = Some (w', Some smc', Some i)"
      "sc_pdata smc' = (sc_pdata smc)[i := p]" "i < length (sc_pdata smc)" "seg_addr env p = a" "seg_attached env p = 1"
      "w_map w' (pe_pid env) a = Some sid" "w_shm w' sid = Some h" "seg_pagenum h = i" "seg_memKey h = k" "seg_type h = ty"
      "seg_dsize h = word_of_int sz" "seg_seqno h = sc_seqno smc" "seg_dirpath h = sc_dirpath smc" "seg_froot h = sc_froot smc"
    using smcGetPage_attached [OF assms, where others = others and w = w and ty = ty and lf = lf] by blast
  then have "deref env w' a = Some h" by (simp add: deref_def)
  then show ?thesis using g by simp
qed

subsection \<open>Compacting the page array\<close>

text \<open>What \<open>smcPrune\<close> does to the slots below the top: an empty slot is dropped, and the slot
  that moves into its place is kept without being looked at.\<close>

fun prune_list :: "smcPage_t list \<Rightarrow> smcPage_t list" where
  "prune_list [] = []"
| "prune_list [x] = (if page_used x then [x] else [])"
| "prune_list (x # y # ys) = (if page_used x then x # prune_list (y # ys) else y # prune_list ys)"

lemma length_prune_list: "length (prune_list us) \<le> length us"
  by (induction us rule: prune_list.induct) auto

lemma page_shift_split:
  "page_shift (length ks) (length ks + Suc (length us)) (ks @ x # us @ zs) = ks @ us @ zero_page # zs"
proof (induction us arbitrary: ks x)
  case Nil
  then show ?case by (simp add: page_shift.simps list_update_append)
next
  case (Cons y us)
  have "page_shift (length ks) (length ks + Suc (length (y # us))) (ks @ x # (y # us) @ zs)
      = page_shift (length (ks @ [y])) (length (ks @ [y]) + Suc (length us)) ((ks @ [y]) @ y # us @ zs)"
    by (subst page_shift.simps) (simp add: list_update_append nth_append)
  then show ?case using Cons.IH [of "ks @ [y]" y] by simp
qed

lemma prune_loop_used:
  "page_used x \<Longrightarrow> prune_loop (length ks) (length ks + Suc n) (ks @ x # zs)
    = prune_loop (length (ks @ [x])) (length (ks @ [x]) + n) ((ks @ [x]) @ zs)"
  by (subst prune_loop.simps) (simp add: page_used_def)

lemma prune_loop_void:
  "\<not> page_used x \<Longrightarrow> prune_loop (length ks) (length ks + Suc (length us)) (ks @ x # us @ zs)
    = prune_loop (Suc (length ks)) (length ks + length us) (ks @ us @ zero_page # zs)"
  using page_shift_split [of ks us x zs] by (subst prune_loop.simps) (simp add: page_used_def)

lemma prune_loop_done: "n \<le> i \<Longrightarrow> prune_loop i n pd = (n, pd)"
  by (simp add: prune_loop.simps)

lemma prune_loop_list:
  "prune_loop (length ks) (length ks + length us) (ks @ us @ zs)
     = (length ks + length (prune_list us),
        ks @ prune_list us @ replicate (length us - length (prune_list us)) zero_page @ zs)"
proof (induction us arbitrary: ks zs rule: prune_list.induct)
  case 1
  then show ?case by (simp add: prune_loop_done)
next
  case (2 x)
  show ?case
  proof (cases "page_used x")
    case True
    then show ?thesis using prune_loop_used [of x ks 0 zs] by (simp add: prune_loop_done)
  next
    case False
    then show ?thesis using prune_loop_void [of x ks "[]" zs] by (simp add: prune_loop_done)
  qed
next
  case (3 x y ys)
  show ?case
  proof (cases "page_used x")
    case True
    then show ?thesis
      using prune_loop_used [of x ks "Suc (length ys)" "y # ys @ zs"] "3.IH"(1) [of "ks @ [x]" zs] by simp
  next
    case False
    then show ?thesis
      using prune_loop_void [of x ks "y # ys" zs] "3.IH"(2) [of "ks @ [y]" "zero_page # zs"]
      by (simp add: replicate_app_Cons_same Suc_diff_le length_prune_list)
  qed
qed

text \<open>No two neighbouring slots are empty.\<close>

fun voids_apart :: "smcPage_t list \<Rightarrow> bool" where
  "voids_apart (x # y # ys) = ((page_used x \<or> page_used y) \<and> voids_apart (y # ys))"
| "voids_apart _ = True"

lemma prune_list_filter: "filter page_used (prune_list us) = filter page_used us"
  by (induction us rule: prune_list.induct) auto

lemma voids_apart_Cons: "voids_apart (y # ys) \<Longrightarrow> voids_apart ys"
  by (cases ys) auto

lemma prune_list_apart: "voids_apart us \<Longrightarrow> prune_list us = filter page_used us"
  by (induction us rule: prune_list.induct) (auto dest: voids_apart_Cons)

lemma prune_list_voids: "prune_list (replicate n zero_page) = replicate (n div 2) zero_page"
proof (induction n rule: less_induct)
  case (less n)
  show ?case
  proof (cases "n < 2")
    case True
    then have "n = 0 \<or> n = 1" by auto
    then show ?thesis by (auto simp: page_used_def)
  next
    case False
    then obtain m where "n = Suc (Suc m)" by (metis add_2_eq_Suc le_add_diff_inverse not_less)
    then show ?thesis using less [of m] by (simp add: page_used_def)
  qed
qed

lemma smcPrune_pdata:
  assumes "sc_top smc \<le> length (sc_pdata smc)"
  defines "us \<equiv> take (sc_top smc) (sc_pdata smc)"
  shows "sc_top (smcPrune smc) = length (prune_list us)"
    and "sc_pdata (smcPrune smc) = prune_list us
      @ replicate (sc_top smc - length (prune_list us)) zero_page @ drop (sc_top smc) (sc_pdata smc)"
    and "sc_npages (smcPrune smc) = sc_npages smc" and "sc_np_max (smcPrune smc) = sc_np_max smc"
    and "sc_np_hiwater (smcPrune smc) = max (sc_np_hiwater smc) (sc_top smc)"
proof -
  have "prune_loop 0 (sc_top smc) (sc_pdata smc) = (length (prune_list us),
      prune_list us @ replicate (sc_top smc - length (prune_list us)) zero_page @ drop (sc_top smc) (sc_pdata smc))"
    using prune_loop_list [of "[]" us "drop (sc_top smc) (sc_pdata smc)"] assms by simp
  then show "sc_top (smcPrune smc) = length (prune_list us)"
    "sc_pdata (smcPrune smc) = prune_list us
      @ replicate (sc_top smc - length (prune_list us)) zero_page @ drop (sc_top smc) (sc_pdata smc)"
    "sc_npages (smcPrune smc) = sc_npages smc" "sc_np_max (smcPrune smc) = sc_np_max smc"
    "sc_np_hiwater (smcPrune smc) = max (sc_np_hiwater smc) (sc_top smc)"
    by (simp_all add: smcPrune_def Let_def)
qed

lemma filter_drop_empty:
  "filter P (drop n xs) = [] \<longleftrightarrow> (\<forall>i. n \<le> i \<longrightarrow> i < length xs \<longrightarrow> \<not> P (xs ! i))"
proof
  assume "filter P (drop n xs) = []"
  then have d: "\<forall>x \<in> set (drop n xs). \<not> P x" by (simp add: filter_empty_conv)
  show "\<forall>i. n \<le> i \<longrightarrow> i < length xs \<longrightarrow> \<not> P (xs ! i)"
  proof (intro allI impI)
    fix i assume "n \<le> i" "i < length xs"
    then have "drop n xs ! (i - n) = xs ! i" "i - n < length (drop n xs)" by simp_all
    then show "\<not> P (xs ! i)" using d nth_mem by metis
  qed
qed (auto simp: filter_empty_conv in_set_conv_nth)

lemma inv_slots_above: "smc_inv smc \<Longrightarrow> filter page_used (drop (sc_top smc) (sc_pdata smc)) = []"
  by (simp add: smc_inv_def filter_drop_empty)

lemma inv_used_below: "smc_inv smc \<Longrightarrow> filter page_used (take (sc_top smc) (sc_pdata smc)) = filter page_used (sc_pdata smc)"
  using inv_slots_above by (metis append.right_neutral append_take_drop_id filter_append)

lemma not_used_replicate [simp]: "filter page_used (replicate n zero_page) = []"
  by (induction n) (simp_all add: page_used_def)

lemma smcPrune_filter:
  "smc_inv smc \<Longrightarrow> filter page_used (sc_pdata (smcPrune smc)) = filter page_used (sc_pdata smc)"
  using smcPrune_pdata(2) [of smc] inv_slots_above inv_used_below
  by (simp add: prune_list_filter smc_inv_def)

lemma set_prune_list: "set (prune_list us) \<subseteq> set us"
  by (induction us rule: prune_list.induct) auto

lemma smc_inv_smcPrune:
  assumes inv: "smc_inv smc"
  shows "smc_inv (smcPrune smc)"
proof -
  let ?us = "take (sc_top smc) (sc_pdata smc)"
  have le: "sc_top smc \<le> length (sc_pdata smc)" using inv by (simp add: smc_inv_def)
  note pd = smcPrune_pdata [OF le]
  have lu: "length (prune_list ?us) \<le> sc_top smc" using length_prune_list [of ?us] le by simp
  have "page_wf zero_page" by (simp add: page_wf_def)
  then have "list_all page_wf (sc_pdata (smcPrune smc))"
    using inv set_prune_list [of ?us] unfolding pd(2)
    by (auto simp: smc_inv_def list_all_iff dest: in_set_takeD in_set_dropD)
  moreover have "filter page_used (drop (length (prune_list ?us)) (sc_pdata (smcPrune smc))) = []"
    unfolding pd(2) by (simp add: inv_slots_above [OF inv])
  ultimately show ?thesis
    using inv lu le smcPrune_filter [OF inv] by (simp add: smc_inv_def pd(1,3,4) filter_drop_empty) (simp add: pd(2))
qed

subsection \<open>Resetting\<close>

abbreviation freed_page :: smcPage_t where
  "freed_page \<equiv> zero_page\<lparr>pg_free := 1\<rparr>"

lemma reset_loop_result:
  assumes "reset_loop env i n w smc = Some (w', smc')" and "i < n" and "sc_top smc = n" and "n \<le> length (sc_pdata smc)"
  shows "sc_npages smc' = sc_npages smc - int (n - i) \<and> sc_top smc' = n - 1 \<and> sc_np_max smc' = sc_np_max smc
    \<and> sc_pdata smc' = take i (sc_pdata smc) @ replicate (n - i) freed_page @ drop n (sc_pdata smc)"
  using assms
proof (induction "n - i" arbitrary: i w smc)
  case 0
  then show ?case by simp
next
  case (Suc k)
  obtain w1 smc1 where d: "smcDetach env w smc i True = Some (w1, smc1)"
    and rest: "reset_loop env (Suc i) n w1 smc1 = Some (w', smc')"
    using Suc.prems(1,2) by (subst (asm) reset_loop.simps) (auto split: option.splits)
  have s1: "sc_pdata smc1 = (sc_pdata smc)[i := freed_page]" "sc_npages smc1 = sc_npages smc - 1"
    "sc_top smc1 = (if Suc i = n then n - 1 else n)" "sc_np_max smc1 = sc_np_max smc"
    using smcDetach_result [OF d] Suc.prems(3) by auto
  have tk: "take (Suc i) (sc_pdata smc1) = take i (sc_pdata smc) @ [freed_page]"
    using Suc.prems s1(1) by (simp add: take_Suc_conv_app_nth)
  show ?case
  proof (cases "Suc i = n")
    case True
    then have "smc' = smc1" using rest by (simp add: reset_loop.simps)
    then show ?thesis using s1 True Suc.prems tk append_take_drop_id [of n "sc_pdata smc1"]
      by (metis One_nat_def Suc_diff_le append_Cons append_Nil append_assoc cancel_comm_monoid_add_class.diff_cancel
          drop_update_cancel le_refl lessI of_nat_1 replicate_Suc replicate_0)
  next
    case False
    then have "sc_npages smc' = sc_npages smc1 - int (n - Suc i) \<and> sc_top smc' = n - 1 \<and> sc_np_max smc' = sc_np_max smc1
      \<and> sc_pdata smc' = take (Suc i) (sc_pdata smc1) @ replicate (n - Suc i) freed_page @ drop n (sc_pdata smc1)"
      using Suc.hyps Suc.prems s1 by (intro Suc.hyps(1) [OF _ rest]) auto
    moreover have "replicate (n - i) freed_page = freed_page # replicate (n - Suc i) freed_page"
      using Suc.prems by (simp add: Suc_diff_Suc [symmetric] flip: replicate_Suc)
    ultimately show ?thesis using s1 tk Suc.prems by simp
  qed
qed

text \<open>C15.  A page that is got and then freed leaves the cache as it was: the pages held, the
  page count and both memory counters are those of before.  So is the top of the array,
  unless the slot was a void just below it, which is then trimmed.\<close>

theorem smcGetPage_smcDetach_restores:
  assumes inv: "smc_inv smc" and room: "sc_npages smc < sc_np_max smc"
    and g: "smcGetPage env others w (Some smc) ty sz af lf = Some (w', Some smc', Some i)"
    and d: "smcDetach env' w'' smc' i True = Some (w''', smc'')"
  shows "smc_inv smc'' \<and> held_pages smc'' = held_pages smc \<and> sc_npages smc'' = sc_npages smc
    \<and> sc_top smc'' = (if Suc i = sc_top smc then sc_top smc - 1 else sc_top smc)
    \<and> sc_mem_allocated smc'' = sc_mem_allocated smc
    \<and> sc_mem_avail smc'' = sc_mem_avail smc"
proof -
  have n: "getpage_new env w smc ty sz af lf = Some (w', smc', Some i)"
    using g smcGetPage_room [OF room smcGetPage_page_size [OF g]] by simp
  note get = smc_inv_getpage_new [OF inv room n]
  then have det: "smc_inv smc'' \<and> held_pages smc'' = held_pages smc' - {i}"
    by (intro smc_inv_smcDetach_free [OF _ _ d]) auto
  obtain p where p: "sc_pdata smc' = (sc_pdata smc)[i := p]" "i < length (sc_pdata smc)"
    "sc_mem_allocated smc' = sc_mem_allocated smc + pg_size p"
    "sc_mem_avail smc' = sc_mem_avail smc - pg_size p" "sc_npages smc' = sc_npages smc + 1"
    "sc_top smc' = (if i = sc_top smc then Suc (sc_top smc) else sc_top smc)" "i = find_slot smc"
    using getpage_new_result [OF n] by auto
  moreover have "sc_npages smc'' = sc_npages smc' - 1"
    "sc_top smc'' = (if Suc i = sc_top smc' then sc_top smc' - 1 else sc_top smc')"
    "sc_mem_allocated smc'' = sc_mem_allocated smc' - pg_size p"
    "sc_mem_avail smc'' = sc_mem_avail smc' + pg_size p"
    using smcDetach_result [OF d] p by auto
  moreover have "i \<le> sc_top smc" using find_slot_free [OF inv room] p by simp
  ultimately show ?thesis using get det by (auto split: if_splits)
qed

text \<open>C36.  Compaction.  \<open>smcPrune\<close> keeps the invariant, the page count and every page in use,
  in order, and records the high-water mark.  When no two neighbouring slots are empty it
  removes every void: the used pages are then exactly the slots below the new top.  In a run
  of neighbouring voids it removes only every other one.\<close>

theorem smcPrune_compacts:
  assumes "smc_inv smc"
  shows "smc_inv (smcPrune smc)
    \<and> filter page_used (sc_pdata (smcPrune smc)) = filter page_used (sc_pdata smc)
    \<and> sc_np_hiwater (smcPrune smc) = max (sc_np_hiwater smc) (sc_top smc)
    \<and> (voids_apart (take (sc_top smc) (sc_pdata smc)) \<longrightarrow>
        int (sc_top (smcPrune smc)) = sc_npages smc
        \<and> take (sc_top (smcPrune smc)) (sc_pdata (smcPrune smc)) = filter page_used (sc_pdata smc))
    \<and> (take (sc_top smc) (sc_pdata smc) = replicate (sc_top smc) zero_page \<longrightarrow>
        sc_top (smcPrune smc) = sc_top smc div 2)"
proof -
  have le: "sc_top smc \<le> length (sc_pdata smc)" using assms by (simp add: smc_inv_def)
  note pd = smcPrune_pdata [OF le]
  have c: "sc_npages smc = int (length (filter page_used (sc_pdata smc)))" using assms by (simp add: smc_inv_def)
  have "int (sc_top (smcPrune smc)) = sc_npages smc
      \<and> take (sc_top (smcPrune smc)) (sc_pdata (smcPrune smc)) = filter page_used (sc_pdata smc)"
    if "voids_apart (take (sc_top smc) (sc_pdata smc))"
    using that by (simp add: c pd(1,2) prune_list_apart inv_used_below [OF assms])
  moreover have "sc_top (smcPrune smc) = sc_top smc div 2"
    if "take (sc_top smc) (sc_pdata smc) = replicate (sc_top smc) zero_page"
    unfolding pd(1) that prune_list_voids by simp
  ultimately show ?thesis
    using smc_inv_smcPrune [OF assms] smcPrune_filter [OF assms] pd(5) by blast
qed

text \<open>\<open>smcReset\<close> empties the cache, but it releases every slot below the top, used or not:
  the page count drops by the top and not by the number of pages, so with voids in the
  array it ends below zero and the invariant is lost.\<close>

theorem smcReset_npages:
  assumes inv: "smc_inv smc" and r: "smcReset env w smc = Some (w', smc')"
  shows "held_pages smc' = {} \<and> sc_npages smc' = sc_npages smc - int (sc_top smc)
    \<and> (smc_inv smc' \<longleftrightarrow> sc_npages smc = int (sc_top smc))"
proof (cases "sc_top smc = 0")
  case True
  then have "smc' = smc" using r by (simp add: smcReset_def reset_loop.simps)
  moreover have "held_pages smc = {}" using held_below_top [OF inv] True by auto
  moreover have "sc_npages smc = 0" using npages_card [OF inv] \<open>held_pages smc = {}\<close> by simp
  ultimately show ?thesis using inv True by simp
next
  case False
  have le: "sc_top smc \<le> length (sc_pdata smc)" using inv by (simp add: smc_inv_def)
  have res: "sc_npages smc' = sc_npages smc - int (sc_top smc)" "sc_top smc' = sc_top smc - 1"
    "sc_pdata smc' = replicate (sc_top smc) freed_page @ drop (sc_top smc) (sc_pdata smc)"
    "sc_np_max smc' = sc_np_max smc"
    using reset_loop_result [of env 0 "sc_top smc" w smc w' smc'] r False le by (simp_all add: smcReset_def)
  have "\<not> page_used freed_page" "page_wf freed_page" by (simp_all add: page_used_def page_wf_def)
  then have f: "filter page_used (sc_pdata smc') = []"
    unfolding res(3) using inv_slots_above [OF inv] by simp
  then have unused: "\<not> page_used (sc_pdata smc' ! i)" if "i < length (sc_pdata smc')" for i
    using that by (simp add: filter_empty_conv)
  then have h: "held_pages smc' = {}" by (simp add: held_pages_def)
  have wf: "list_all page_wf (sc_pdata smc')"
    unfolding res(3) using inv \<open>page_wf freed_page\<close> by (auto simp: smc_inv_def list_all_iff dest: in_set_dropD)
  have len: "length (sc_pdata smc') = length (sc_pdata smc)" using le by (simp add: res(3))
  have "smc_inv smc'" if "sc_npages smc' = 0"
    using that inv f unused wf len le res(2,4) unfolding smc_inv_def by auto
  moreover have "sc_npages smc' = 0" if "smc_inv smc'" using npages_card [OF that] h by simp
  ultimately show ?thesis using h res(1) by auto
qed

lemma smcDetach_returns:
  assumes "length (pg_lockFile (sc_pdata smc ! i)) < 128"
  shows "\<exists>w' smc'. smcDetach env w smc i free = Some (w', smc')"
proof -
  let ?p = "sc_pdata smc ! i"
  obtain w1 p1 where p1: "(if free \<and> seg_attached env ?p \<le> 0 then smcAttach env w ?p else (w, ?p)) = (w1, p1)"
    by fastforce
  obtain w2 p2 where p2: "(if pg_cpid p1 = pe_pid env then smcUnlock env w1 p1 else (w1, p1)) = (w2, p2)"
    by fastforce
  have "p1 = (if free \<and> seg_attached env ?p \<le> 0 then snd (smcAttach env w ?p) else ?p)"
    "p2 = (if pg_cpid p1 = pe_pid env then snd (smcUnlock env w1 p1) else p1)"
    using p1 p2 by (auto split: if_splits dest: arg_cong [where f = snd])
  then have "length (pg_lockFile p2) < 128" using assms by simp
  then have "\<exists>evs. smUtilDetach (pe_os env) (pg_memKey p2) (pg_lockFile p2) (seg_addr env p2) free = Some evs"
    by (simp add: smUtilDetach_def Let_def split: option.split)
  then obtain evs where "smUtilDetach (pe_os env) (pg_memKey p2) (pg_lockFile p2) (seg_addr env p2) free = Some evs"
    by blast
  then show ?thesis unfolding smcDetach_def Let_def p1 by (simp add: p2)
qed

text \<open>An empty cache, as \<open>smcOpen\<close> leaves it, for the examples.\<close>

definition sample_cache :: smCache_t where
  "sample_cache = \<lparr>sc_memKey = 77, sc_shmid = 5, sc_cache_addr = 65536, sc_cache_size = 4000000, sc_nattached = 1,
     sc_vm_locked = False, sc_fd = 5, sc_new = 1, sc_ctime = 1, sc_dirpath = DEF_DIRPATH, sc_froot = DEF_FROOT,
     sc_seqno = 3, sc_np_max = MAX_SEGS, sc_np_hiwater = 0, sc_mem_allocated = 4000000, sc_mem_avail = 1000000,
     sc_sysConfig = sample_cfg, sc_pstate = zero_pstate, sc_npages = 0, sc_top = 0,
     sc_pdata = replicate (nat MAX_SEGS) zero_page, sc_debug = 0\<rparr>"

lemma sample_cache_simps [simp]:
  "sc_npages sample_cache = 0" "sc_np_max sample_cache = MAX_SEGS" "sc_top sample_cache = 0"
  "sc_pdata sample_cache = replicate (nat MAX_SEGS) zero_page"
  "sc_sysConfig sample_cache = sample_cfg" "sc_seqno sample_cache = 3"
  by (simp_all add: sample_cache_def)

lemma sample_cache_inv [simp]: "smc_inv sample_cache"
  by (simp add: smc_inv_def page_wf_def page_used_def list_all_length MAX_SEGS_def)

lemma sample_cache_held [simp]: "held_pages sample_cache = {}"
  by (auto simp: held_pages_def page_used_def)

lemma show_nat_0: "show_nat 0 = ''0''"
  by code_simp

lemma MAX_SEGS_pos: "0 < MAX_SEGS"
  by (simp add: MAX_SEGS_def)

lemma sample_lockfile: "find_slot sample_cache = 0" "seg_lockfile sample_cache 0 = ''/tmp/.smc500_0''"
  by (simp_all add: find_slot_def seg_lockfile_def sample_cfg_def show_nat_0)

lemma sample_get:
  "\<exists>w' smc'. smcGetPage sample_proc others sample_world (Some sample_cache) TY_DATA 1000 False True
     = Some (w', Some smc', Some 0)"
  unfolding smcGetPage_def getpage_new_def Let_def
  by (simp add: sample_lockfile throttle_room MAX_SEGS_def MAX_SEG_SIZE_def SZ_PATH_def SZ_FNAME_def smUtilTime_def sample_proc_def
      smUtilInitSegment_def sample_os_def)

theorem smcGetPage_fresh_page_witness:
  "\<exists>w' smc'. smcGetPage sample_proc (\<lambda>_ s. s) sample_world (Some sample_cache) TY_DATA 1000 False True
     = Some (w', Some smc', Some 0) \<and> smc_inv smc' \<and> held_pages smc' = {0} \<and> sc_npages smc' = 1
     \<and> pg_ac_locked (sc_pdata smc' ! 0) = 1"
proof -
  obtain w' smc' where r: "smcGetPage sample_proc (\<lambda>_ s. s) sample_world (Some sample_cache) TY_DATA 1000 False True
     = Some (w', Some smc', Some 0)" using sample_get by blast
  show ?thesis
    using smcGetPage_fresh_page [OF _ _ _ r] r by (simp add: MAX_SEGS_def MAX_SEG_SIZE_def)
qed

theorem cache_run_exclusive_witness:
  "\<exists>smc'. pool_run cache_get cache_free sample_cache [Acquire 0] smc' \<and> sc_npages smc' = 1 \<and> smc_inv smc'"
proof -
  obtain w' smc' where r: "smcGetPage sample_proc (\<lambda>_ s. s) sample_world (Some sample_cache) TY_DATA 1000 False True
     = Some (w', Some smc', Some 0)" using sample_get by blast
  then have "cache_get sample_cache 0 smc'" unfolding cache_get_def using sample_cache_simps(1,2) by (metis MAX_SEGS_pos)
  then have "pool_run cache_get cache_free sample_cache [Acquire 0] smc'"
    by (rule pool_run.run_acquire) (rule pool_run.run_nil)
  then show ?thesis using cache_run_exclusive [of sample_cache "[Acquire 0]" smc'] by auto
qed

theorem smcGetPage_initialises_segment_witness:
  "\<exists>w' smc' h. smcGetPage sample_proc (\<lambda>_ s. s) sample_world (Some sample_cache) TY_DATA 1000 True False
      = Some (w', Some smc', Some 0)
    \<and> deref sample_proc w' 8192 = Some h \<and> seg_dsize h = 1000 \<and> seg_seqno h = 3"
  using smcGetPage_initialises_segment [of sample_cache 1000 0 "''/tmp/.smc500_0''" 77 sample_proc 34403 5 8192
      "\<lambda>_ s. s" sample_world TY_DATA False]
  by (simp add: sample_lockfile MAX_SEGS_def MAX_SEG_SIZE_def SZ_FNAME_def sample_proc_def sample_os_def ERR_def)
    blast

theorem smcGetPage_smcDetach_restores_witness:
  "\<exists>w' smc' w'' smc''. smcGetPage sample_proc (\<lambda>_ s. s) sample_world (Some sample_cache) TY_DATA 1000 False True
      = Some (w', Some smc', Some 0)
    \<and> smcDetach sample_proc w' smc' 0 True = Some (w'', smc'') \<and> sc_npages smc'' = 0 \<and> smc_inv smc''"
proof -
  obtain w' smc' where r: "smcGetPage sample_proc (\<lambda>_ s. s) sample_world (Some sample_cache) TY_DATA 1000 False True
     = Some (w', Some smc', Some 0)" using sample_get by blast
  have room: "sc_npages sample_cache < sc_np_max sample_cache" by (simp add: MAX_SEGS_def)
  have "getpage_new sample_proc sample_world sample_cache TY_DATA 1000 False True = Some (w', smc', Some 0)"
    using r smcGetPage_room [OF room] by (simp add: MAX_SEG_SIZE_def)
  from getpage_new_result [OF this] have "length (pg_lockFile (sc_pdata smc' ! 0)) < SZ_FNAME"
    by auto
  then obtain w'' smc'' where d: "smcDetach sample_proc w' smc' 0 True = Some (w'', smc'')"
    using smcDetach_returns [of smc' 0 sample_proc w' True] by (auto simp: SZ_FNAME_def)
  show ?thesis
    using smcGetPage_smcDetach_restores [OF _ room r d] r d by auto
qed

text \<open>A cache whose slots 0 and 2 are in use and slot 1 is void.\<close>

definition holed_cache :: smCache_t where
  "holed_cache = sample_cache\<lparr>sc_pdata := (replicate (nat MAX_SEGS) zero_page)[0 := sample_page, 2 := sample_page],
     sc_npages := 2, sc_top := 3\<rparr>"

lemma sample_page_facts: "page_used sample_page" "page_wf sample_page" "\<not> page_used zero_page" "page_wf zero_page"
  by (simp_all add: page_used_def page_wf_def sample_page_def)

lemma holed_pdata:
  "sc_pdata holed_cache = [sample_page, zero_page, sample_page] @ replicate 4093 zero_page"
proof -
  have "replicate (nat MAX_SEGS) zero_page = replicate (3 + 4093) zero_page" by (simp add: MAX_SEGS_def)
  then show ?thesis
    unfolding holed_cache_def replicate_add by (simp add: list_update_append numeral_3_eq_3 numeral_2_eq_2)
qed

lemma holed_cache_inv: "smc_inv holed_cache"
proof -
  have "filter page_used (drop (sc_top holed_cache) (sc_pdata holed_cache)) = []"
    unfolding holed_pdata by (simp add: holed_cache_def)
  moreover have "list_all page_wf (sc_pdata holed_cache)"
    unfolding holed_pdata list_all_iff using sample_page_facts by auto
  moreover have "count_if page_used (sc_pdata holed_cache) = 2"
    unfolding holed_pdata using sample_page_facts by simp
  ultimately show ?thesis
    unfolding smc_inv_def filter_drop_empty by (simp add: holed_cache_def MAX_SEGS_def)
qed

theorem smcPrune_compacts_witness:
  "sc_top (smcPrune holed_cache) = 2 \<and> smc_inv (smcPrune holed_cache)
   \<and> take 2 (sc_pdata (smcPrune holed_cache)) = [sample_page, sample_page]"
proof -
  have t: "take (sc_top holed_cache) (sc_pdata holed_cache) = [sample_page, zero_page, sample_page]"
    unfolding holed_pdata by (simp add: holed_cache_def)
  have f: "filter page_used (sc_pdata holed_cache) = [sample_page, sample_page]"
    unfolding holed_pdata using sample_page_facts by simp
  have "sc_npages holed_cache = 2" by (simp add: holed_cache_def)
  then show ?thesis
    using smcPrune_compacts [OF holed_cache_inv] sample_page_facts unfolding t f by (auto simp del: replicate.simps)
qed

lemma reset_loop_returns:
  assumes "n \<le> length (sc_pdata smc)" and "\<forall>p \<in> set (sc_pdata smc). length (pg_lockFile p) < 128"
  shows "\<exists>w' smc'. reset_loop env i n w smc = Some (w', smc')"
  using assms
proof (induction "n - i" arbitrary: i w smc)
  case 0
  then show ?case by (simp add: reset_loop.simps)
next
  case (Suc k)
  obtain w1 smc1 where d: "smcDetach env w smc i True = Some (w1, smc1)"
    using smcDetach_returns [of smc i] Suc by fastforce
  have pd: "sc_pdata smc1 = (sc_pdata smc)[i := freed_page]" using smcDetach_result [OF d] by auto
  have "pg_lockFile freed_page = []" by (simp add: zero_page_def)
  then have "\<exists>w' smc'. reset_loop env (Suc i) n w1 smc1 = Some (w', smc')"
    using Suc pd set_update_subset_insert [of "sc_pdata smc" i freed_page] by (intro Suc.hyps(1)) auto
  then show ?case using d by (subst reset_loop.simps) auto
qed

theorem smcReset_npages_witness:
  "\<exists>w' smc'. smcReset sample_proc sample_world holed_cache = Some (w', smc') \<and> sc_npages smc' = -1"
proof -
  have "sc_top holed_cache \<le> length (sc_pdata holed_cache)" by (simp add: holed_cache_def MAX_SEGS_def)
  moreover have "\<forall>p \<in> set (sc_pdata holed_cache). length (pg_lockFile p) < 128"
    unfolding holed_pdata by (simp add: sample_page_def zero_page_def)
  ultimately obtain w' smc' where r: "smcReset sample_proc sample_world holed_cache = Some (w', smc')"
    using reset_loop_returns unfolding smcReset_def by blast
  show ?thesis
    using smcReset_npages [OF holed_cache_inv r] r by (simp add: holed_cache_def)
qed

lemma throttle_forever:
  assumes "throttle others i smc = Some r"
    and "sc_np_max smc \<le> sc_npages smc" and "ntry smc < 0"
    and "\<And>i s. sc_np_max s \<le> sc_npages s \<Longrightarrow> ntry s < 0 \<Longrightarrow>
      sc_np_max (others i s) \<le> sc_npages (others i s) \<and> ntry (others i s) < 0"
  shows False
proof -
  have "oth = others \<longrightarrow> sc_np_max s \<le> sc_npages s \<longrightarrow> ntry s < 0 \<longrightarrow> False"
    if "throttle oth j s = Some r'" for oth j s r'
    by (rule throttle.raw_induct [where P = "\<lambda>oth j s r. oth = others \<longrightarrow> sc_np_max s \<le> sc_npages s
          \<longrightarrow> ntry s < 0 \<longrightarrow> False", OF _ that])
      (use assms(4) in \<open>fastforce split: if_splits\<close>)
  then show False using assms(1-3) by blast
qed

text \<open>The throttle ends.  With a retry count that is not negative and stays put while the
  process sleeps, a caller that finds the cache full sleeps at most one more time than the
  count and then either finds room or gives up.  With a negative count (a configuration
  \<open>throttle_ntry=-1\<close>) and a cache that stays full it never returns.\<close>

theorem throttle_bounded:
  assumes "\<forall>i s. ntry (others i s) = ntry s"
  shows "(0 \<le> ntry smc \<longrightarrow>
      (\<exists>k ok. throttle others 0 smc = Some (sleeps others 0 k smc, ok) \<and> int k \<le> ntry smc + 1
        \<and> (ok \<longrightarrow> sc_npages (sleeps others 0 k smc) < sc_np_max (sleeps others 0 k smc))
        \<and> (\<not> ok \<longrightarrow> int k = ntry smc + 1)))
    \<and> (ntry smc < 0 \<longrightarrow> (\<forall>i s. sc_np_max s \<le> sc_npages s \<longrightarrow> sc_np_max (others i s) \<le> sc_npages (others i s))
      \<longrightarrow> sc_np_max smc \<le> sc_npages smc \<longrightarrow> throttle others 0 smc = None)"
proof (intro conjI impI)
  assume "0 \<le> ntry smc"
  then show "\<exists>k ok. throttle others 0 smc = Some (sleeps others 0 k smc, ok) \<and> int k \<le> ntry smc + 1
        \<and> (ok \<longrightarrow> sc_npages (sleeps others 0 k smc) < sc_np_max (sleeps others 0 k smc))
        \<and> (\<not> ok \<longrightarrow> int k = ntry smc + 1)"
    using throttle_returns [of others 0 smc] assms by simp
next
  assume "ntry smc < 0" "\<forall>i s. sc_np_max s \<le> sc_npages s \<longrightarrow> sc_np_max (others i s) \<le> sc_npages (others i s)"
    "sc_np_max smc \<le> sc_npages smc"
  then show "throttle others 0 smc = None"
    using throttle_forever [of others 0 smc] assms by (cases "throttle others 0 smc") auto
qed

theorem throttle_bounded_witness:
  "\<exists>k ok. throttle (\<lambda>i s. if i = 2 then s\<lparr>sc_npages := 9\<rparr> else s) 0 (sample_cache\<lparr>sc_npages := MAX_SEGS\<rparr>)
     = Some (sleeps (\<lambda>i s. if i = 2 then s\<lparr>sc_npages := 9\<rparr> else s) 0 k (sample_cache\<lparr>sc_npages := MAX_SEGS\<rparr>), ok)
     \<and> k \<le> 61"
proof -
  have keep: "\<forall>i s. ntry ((\<lambda>i s. if i = 2 then s\<lparr>sc_npages := 9\<rparr> else s) i s) = ntry s" by simp
  have "ntry (sample_cache\<lparr>sc_npages := MAX_SEGS\<rparr>) = 60"
    by (simp add: sample_cfg_def smSetConfigDefaults_def)
  then show ?thesis
    using throttle_bounded [OF keep, of "sample_cache\<lparr>sc_npages := MAX_SEGS\<rparr>"] by fastforce
qed


end
