(* ===== verification/SmReader.thy ===== *)
theory SmReader
  imports SmCache
begin

section \<open>Finding pages to process (lib/smc/smCache.c)\<close>

text \<open>
  \<open>smcFindPage\<close>, \<open>smcNextPage\<close> and \<open>smcNextByExpID\<close>.  A page is returned by its index.  The
  static variables of \<open>smcNextByExpID\<close> are the record \<open>exp_list\<close>; an access past
  \<open>plist[MAX_ID_PAGES]\<close> is \<open>None\<close>.
\<close>

function find_page_loop :: "smCache_t \<Rightarrow> key_t \<Rightarrow> nat \<Rightarrow> nat option \<Rightarrow> nat option" where
  "find_page_loop smc memKey i p =
     (if int i < sc_npages smc then
        (if pg_memKey (sc_pdata smc ! i) = memKey then Some i else find_page_loop smc memKey (Suc i) (Some i))
      else p)"
  by pat_completeness auto
termination
  by (relation "measure (\<lambda>(smc, memKey, i, p). nat (sc_npages smc - int i))") auto

declare find_page_loop.simps [simp del]

definition smcFindPage :: "smCache_t \<Rightarrow> key_t \<Rightarrow> nat option" where
  "smcFindPage smc memKey = find_page_loop smc memKey 0 None"

subsection \<open>The next page by time\<close>

definition seg_ltime :: "proc_env \<Rightarrow> smcPage_t \<Rightarrow> cdouble" where
  "seg_ltime env p = smStateGetLTime (pe_pid env) (pg_pstate p)"

definition seg_utime :: "proc_env \<Rightarrow> smcPage_t \<Rightarrow> cdouble" where
  "seg_utime env p = smStateGetUTime (pe_pid env) (pg_pstate p)"

text \<open>\<open>(void *)(p + sizeof (smcSegment_t) + 1)\<close> with \<open>p = &smc->pdata[i]\<close>: the offset counts pages.\<close>

definition next_addr :: "proc_env \<Rightarrow> nat \<Rightarrow> addr_t" where
  "next_addr env i = pe_smc env + pe_off_pdata env + (int i + pe_sizeof_seg env + 1) * pe_sizeof_page env"

text \<open>A reader that meets a page for the first time enters itself in the page's table.\<close>

definition next_touch :: "proc_env \<Rightarrow> nat \<Rightarrow> smcPage_t \<Rightarrow> smcPage_t" where
  "next_touch env i p =
     (if smStateDefined (pe_pid env) (pg_pstate p) then p
      else p\<lparr>pg_pstate := snd (smStateAdd (pe_alive env) (pe_pid env) (pg_pstate p) (pg_ctime p) (next_addr env i) 0)\<rparr>)"

definition next_pick :: "proc_env \<Rightarrow> smcPage_t list \<Rightarrow> nat \<Rightarrow> nat option \<Rightarrow> nat option" where
  "next_pick env pd i oldest =
     (let p = pd ! i; old = (case oldest of None \<Rightarrow> i | Some j \<Rightarrow> j) in
      if pg_memKey p = 0 \<or> pg_ac_locked p = 1 then oldest
      else if seg_utime env p = 0 then
        (if seg_ltime env p < seg_ltime env (pd ! old) then Some i else Some old)
      else if seg_utime env p < seg_ltime env p then
        (if seg_utime env p < seg_utime env (pd ! old) then Some i else Some old)
      else oldest)"

function next_scan :: "proc_env \<Rightarrow> nat \<Rightarrow> nat \<Rightarrow> smcPage_t list \<Rightarrow> nat option \<Rightarrow> smcPage_t list \<times> nat option" where
  "next_scan env i n pd oldest =
     (if i < n then
        (let pd' = pd[i := next_touch env i (pd ! i)] in
         next_scan env (Suc i) n pd' (next_pick env pd' i oldest))
      else (pd, oldest))"
  by pat_completeness auto
termination
  by (relation "measure (\<lambda>(env, i, n, pd, oldest). n - i)") auto

declare next_scan.simps [simp del]

text \<open>The polling loop: \<open>others k smc\<close> is the cache after the \<open>k\<close>-th sleep.  Nothing counts the
  time that has passed, so with a positive timeout the loop ends only when a page is found.\<close>

partial_function (option) nextpage_loop ::
  "proc_env \<Rightarrow> (nat \<Rightarrow> smCache_t \<Rightarrow> smCache_t) \<Rightarrow> int \<Rightarrow> nat \<Rightarrow> world \<Rightarrow> smCache_t
    \<Rightarrow> (world \<times> smCache_t \<times> nat option) option" where
  "nextpage_loop env others timeout k w smc =
     (case next_scan env 0 (sc_top smc) (sc_pdata smc) None of
        (pd, Some j) \<Rightarrow>
          (case smUtilTime env w of (t, w') \<Rightarrow>
             Some (w', smc\<lparr>sc_pdata := pd[j := (pd ! j)\<lparr>pg_pstate :=
                smStateSetUTime (pe_pid env) (pg_pstate (pd ! j)) t\<rparr>]\<rparr>, Some j))
      | (pd, None) \<Rightarrow>
          if 0 < timeout then nextpage_loop env others timeout (Suc k) w (others k (smc\<lparr>sc_pdata := pd\<rparr>))
          else Some (w, smc\<lparr>sc_pdata := pd\<rparr>, None))"

definition smcNextPage ::
  "proc_env \<Rightarrow> (nat \<Rightarrow> smCache_t \<Rightarrow> smCache_t) \<Rightarrow> world \<Rightarrow> smCache_t \<Rightarrow> int
    \<Rightarrow> (world \<times> smCache_t \<times> nat option) option" where
  "smcNextPage env others w smc timeout = nextpage_loop env others timeout 0 w smc"

subsection \<open>The pages of an exposure\<close>

definition MAX_ID_PAGES :: nat where
  "MAX_ID_PAGES = 128"

record exp_list =
  el_listID :: cdouble
  el_npages :: nat
  el_curPage :: nat
  el_plist :: "nat option list"

definition exp_list_init :: exp_list where
  "exp_list_init = \<lparr>el_listID = 0, el_npages = 0, el_curPage = 0, el_plist = replicate MAX_ID_PAGES None\<rparr>"

definition exp_match :: "cdouble \<Rightarrow> smcPage_t \<Rightarrow> bool" where
  "exp_match expID p \<longleftrightarrow> pg_memKey p \<noteq> 0 \<and> pg_ac_locked p \<noteq> 1 \<and> smcEqualExpID (pg_expID p) expID"

function exp_collect :: "smCache_t \<Rightarrow> cdouble \<Rightarrow> nat \<Rightarrow> exp_list \<Rightarrow> exp_list option" where
  "exp_collect smc expID i el =
     (if i < sc_top smc then
        (if exp_match expID (sc_pdata smc ! i) then
           (if el_npages el < MAX_ID_PAGES then
              exp_collect smc expID (Suc i)
                (el\<lparr>el_plist := (el_plist el)[el_npages el := Some i], el_npages := Suc (el_npages el)\<rparr>)
            else None)
         else exp_collect smc expID (Suc i) el)
      else Some el)"
  by pat_completeness auto
termination
  by (relation "measure (\<lambda>(smc, expID, i, el). sc_top smc - i)") auto

declare exp_collect.simps [simp del]

definition smcNextByExpID ::
  "proc_env \<Rightarrow> world \<Rightarrow> smCache_t \<Rightarrow> exp_list \<Rightarrow> cdouble \<Rightarrow> (world \<times> smCache_t \<times> exp_list \<times> nat option) option" where
  "smcNextByExpID env w smc el expID =
     (if expID < 0 then
        (case smcNextPage env (\<lambda>_ s. s) w smc 0 of
           None \<Rightarrow> None | Some (w', smc', r) \<Rightarrow> Some (w', smc', el, r))
      else if expID \<noteq> el_listID el then
        (case exp_collect smc expID 0 (exp_list_init\<lparr>el_listID := expID\<rparr>) of
           None \<Rightarrow> None
         | Some el' \<Rightarrow> Some (w, smc, el', el_plist el' ! el_curPage el'))
      else if MAX_ID_PAGES \<le> Suc (el_curPage el) then None
      else (case el_plist el ! Suc (el_curPage el) of
           Some j \<Rightarrow> Some (w, smc, el\<lparr>el_curPage := Suc (el_curPage el)\<rparr>, Some j)
         | None \<Rightarrow> Some (w, smc, el\<lparr>el_listID := 0\<rparr>, None)))"


subsection \<open>What the scan finds\<close>

text \<open>A page the calling process has not yet seen in its present version.\<close>

definition page_fresh :: "proc_env \<Rightarrow> smcPage_t \<Rightarrow> bool" where
  "page_fresh env p \<longleftrightarrow> pg_memKey p \<noteq> 0 \<and> pg_ac_locked p \<noteq> 1
     \<and> (seg_utime env p = 0 \<or> seg_utime env p < seg_ltime env p)"

text \<open>The candidate after the first \<open>i\<close> slots: none if none of them is fresh, else a fresh one,
  the oldest when all the fresh ones are compared by the same clock.\<close>

definition oldest_ok :: "proc_env \<Rightarrow> smcPage_t list \<Rightarrow> nat \<Rightarrow> nat option \<Rightarrow> bool" where
  "oldest_ok env pd i oldest \<longleftrightarrow>
     (case oldest of
        None \<Rightarrow> \<forall>k<i. \<not> page_fresh env (pd ! k)
      | Some j \<Rightarrow> j < i \<and> page_fresh env (pd ! j)
          \<and> ((\<forall>k<i. page_fresh env (pd ! k) \<longrightarrow> seg_utime env (pd ! k) = 0) \<longrightarrow>
              (\<forall>k<i. page_fresh env (pd ! k) \<longrightarrow> seg_ltime env (pd ! j) \<le> seg_ltime env (pd ! k)))
          \<and> ((\<forall>k<i. page_fresh env (pd ! k) \<longrightarrow> seg_utime env (pd ! k) \<noteq> 0) \<longrightarrow>
              (\<forall>k<i. page_fresh env (pd ! k) \<longrightarrow> seg_utime env (pd ! j) \<le> seg_utime env (pd ! k))))"

lemma next_pick_not_fresh: "\<not> page_fresh env (pd ! i) \<Longrightarrow> next_pick env pd i oldest = oldest"
  by (auto simp: next_pick_def page_fresh_def Let_def)

lemma next_pick_first: "page_fresh env (pd ! i) \<Longrightarrow> next_pick env pd i None = Some i"
  by (auto simp: next_pick_def page_fresh_def Let_def)

lemma next_pick_fresh:
  "page_fresh env (pd ! i) \<Longrightarrow> next_pick env pd i (Some j) =
    (if (if seg_utime env (pd ! i) = 0 then seg_ltime env (pd ! i) < seg_ltime env (pd ! j)
         else seg_utime env (pd ! i) < seg_utime env (pd ! j)) then Some i else Some j)"
  by (auto simp: next_pick_def page_fresh_def Let_def)

lemma oldest_ok_step:
  assumes "oldest_ok env pd i oldest"
  shows "oldest_ok env pd (Suc i) (next_pick env pd i oldest)"
proof (cases "page_fresh env (pd ! i)")
  case False
  then show ?thesis
    using assms by (auto simp: next_pick_not_fresh oldest_ok_def less_Suc_eq split: option.splits)
next
  case True
  show ?thesis
  proof (cases oldest)
    case None
    then show ?thesis
      using assms True by (auto simp: next_pick_first oldest_ok_def less_Suc_eq)
  next
    case (Some j)
    then show ?thesis
      using assms True unfolding oldest_ok_def by (auto simp: next_pick_fresh less_Suc_eq)
  qed
qed

lemma oldest_ok_cong:
  assumes "\<And>k. k < i \<Longrightarrow> pd ! k = pd' ! k"
  shows "oldest_ok env pd i oldest = oldest_ok env pd' i oldest"
  using assms by (auto simp: oldest_ok_def split: option.splits)

lemma next_scan_result:
  assumes "next_scan env i n pd oldest = (pd', r)" and "i \<le> n" and "n \<le> length pd" and "oldest_ok env pd i oldest"
  shows "oldest_ok env pd' n r \<and> length pd' = length pd
    \<and> (\<forall>j < length pd. pd' ! j = (if i \<le> j \<and> j < n then next_touch env j (pd ! j) else pd ! j))"
  using assms
proof (induction "n - i" arbitrary: i pd oldest)
  case 0
  then show ?case by (auto simp: next_scan.simps)
next
  case (Suc m)
  let ?pd = "pd[i := next_touch env i (pd ! i)]"
  have "oldest_ok env ?pd i oldest" using Suc.prems(4) oldest_ok_cong [of i ?pd pd] by simp
  then have ok: "oldest_ok env ?pd (Suc i) (next_pick env ?pd i oldest)" by (rule oldest_ok_step)
  have "i < n" using Suc.hyps(2) by simp
  have r: "next_scan env (Suc i) n ?pd (next_pick env ?pd i oldest) = (pd', r)"
    using Suc.prems(1) \<open>i < n\<close> by (subst (asm) next_scan.simps) (simp add: Let_def)
  have "oldest_ok env pd' n r \<and> length pd' = length ?pd
    \<and> (\<forall>j < length ?pd. pd' ! j = (if Suc i \<le> j \<and> j < n then next_touch env j (?pd ! j) else ?pd ! j))"
    using Suc.hyps Suc.prems by (intro Suc.hyps(1) [OF _ r _ _ ok]) auto
  then show ?case using Suc.hyps(2) Suc.prems by (auto simp: nth_list_update)
qed

lemma next_touch_fields [simp]:
  "pg_memKey (next_touch env i p) = pg_memKey p" "pg_ac_locked (next_touch env i p) = pg_ac_locked p"
  "pg_ctime (next_touch env i p) = pg_ctime p" "pg_expID (next_touch env i p) = pg_expID p"
  "pg_free (next_touch env i p) = pg_free p" "pg_size (next_touch env i p) = pg_size p"
  "length (pg_pstate (next_touch env i p)) = length (pg_pstate p)"
  by (simp_all add: next_touch_def)

definition page_view :: "proc_env \<Rightarrow> smCache_t \<Rightarrow> nat \<Rightarrow> smcPage_t" where
  "page_view env smc j = next_touch env j (sc_pdata smc ! j)"

definition fresh_set :: "proc_env \<Rightarrow> smCache_t \<Rightarrow> nat set" where
  "fresh_set env smc = {j. j < sc_top smc \<and> page_fresh env (page_view env smc j)}"

lemma next_scan_view:
  assumes "next_scan env 0 (sc_top smc) (sc_pdata smc) None = (pd, r)" and "sc_top smc \<le> length (sc_pdata smc)"
  shows "oldest_ok env pd (sc_top smc) r" and "length pd = length (sc_pdata smc)"
    and "\<forall>j < sc_top smc. pd ! j = page_view env smc j"
    and "\<forall>j. sc_top smc \<le> j \<longrightarrow> j < length pd \<longrightarrow> pd ! j = sc_pdata smc ! j"
  using next_scan_result [OF assms(1) _ assms(2)] assms(2) by (simp_all add: oldest_ok_def page_view_def)

text \<open>One call that does not wait.\<close>

lemma smcNextPage_once:
  assumes top: "sc_top smc \<le> length (sc_pdata smc)"
  shows "\<exists>w' smc' r. smcNextPage env others w smc 0 = Some (w', smc', r) \<and> sc_top smc' = sc_top smc
    \<and> length (sc_pdata smc') = length (sc_pdata smc)
    \<and> (r = None \<longrightarrow> fresh_set env smc = {} \<and> w' = w \<and> (\<forall>k < sc_top smc. sc_pdata smc' ! k = page_view env smc k))
    \<and> (\<forall>j. r = Some j \<longrightarrow> j \<in> fresh_set env smc \<and> w' = w\<lparr>w_ticks := Suc (w_ticks w)\<rparr>
        \<and> ((\<forall>k \<in> fresh_set env smc. seg_utime env (page_view env smc k) = 0) \<longrightarrow>
            (\<forall>k \<in> fresh_set env smc. seg_ltime env (page_view env smc j) \<le> seg_ltime env (page_view env smc k)))
        \<and> (\<forall>k < sc_top smc. sc_pdata smc' ! k = (if k = j then (page_view env smc j)\<lparr>pg_pstate :=
              smStateSetUTime (pe_pid env) (pg_pstate (page_view env smc j)) (pe_clock env (w_ticks w))\<rparr>
            else page_view env smc k)))"
proof -
  obtain pd r where sc: "next_scan env 0 (sc_top smc) (sc_pdata smc) None = (pd, r)" by fastforce
  note v = next_scan_view [OF sc top]
  have fr: "k \<in> fresh_set env smc \<longleftrightarrow> k < sc_top smc \<and> page_fresh env (pd ! k)" for k
    using v(3) by (auto simp: fresh_set_def)
  show ?thesis
  proof (cases r)
    case None
    then have "smcNextPage env others w smc 0 = Some (w, smc\<lparr>sc_pdata := pd\<rparr>, None)"
      using sc by (simp add: smcNextPage_def nextpage_loop.simps)
    moreover have "fresh_set env smc = {}" using v(1) None fr by (auto simp: oldest_ok_def)
    ultimately show ?thesis using v by auto
  next
    case (Some j)
    let ?pd = "pd[j := (pd ! j)\<lparr>pg_pstate := smStateSetUTime (pe_pid env) (pg_pstate (pd ! j)) (pe_clock env (w_ticks w))\<rparr>]"
    have e: "smcNextPage env others w smc 0 = Some (w\<lparr>w_ticks := Suc (w_ticks w)\<rparr>, smc\<lparr>sc_pdata := ?pd\<rparr>, Some j)"
      using sc Some by (simp add: smcNextPage_def nextpage_loop.simps smUtilTime_def)
    have j: "j < sc_top smc" "page_fresh env (pd ! j)"
      and old: "(\<forall>k < sc_top smc. page_fresh env (pd ! k) \<longrightarrow> seg_utime env (pd ! k) = 0) \<longrightarrow>
          (\<forall>k < sc_top smc. page_fresh env (pd ! k) \<longrightarrow> seg_ltime env (pd ! j) \<le> seg_ltime env (pd ! k))"
      using v(1) Some by (auto simp: oldest_ok_def)
    have old': "(\<forall>k \<in> fresh_set env smc. seg_utime env (page_view env smc k) = 0) \<longrightarrow>
        (\<forall>k \<in> fresh_set env smc. seg_ltime env (page_view env smc j) \<le> seg_ltime env (page_view env smc k))"
      using old v(3) j(1) unfolding Ball_def fr by auto
    have upd: "\<forall>k < sc_top smc. ?pd ! k = (if k = j then (page_view env smc j)\<lparr>pg_pstate :=
          smStateSetUTime (pe_pid env) (pg_pstate (page_view env smc j)) (pe_clock env (w_ticks w))\<rparr>
        else page_view env smc k)"
      using v(2,3) j(1) top by (auto simp: nth_list_update)
    have jf: "j \<in> fresh_set env smc" using j fr by simp
    show ?thesis
      by (rule exI [of _ "w\<lparr>w_ticks := Suc (w_ticks w)\<rparr>"], rule exI [of _ "smc\<lparr>sc_pdata := ?pd\<rparr>"],
          rule exI [of _ "Some j"]) (use e old' upd jf v(2) in simp)
  qed
qed


text \<open>The reader has an entry in every page's table, and its clock is not zero and not behind
  the times stamped on the pages.\<close>

definition reader_ok :: "proc_env \<Rightarrow> world \<Rightarrow> smCache_t \<Rightarrow> bool" where
  "reader_ok env w smc \<longleftrightarrow> sc_top smc \<le> length (sc_pdata smc) \<and> pe_pid env \<noteq> 0
     \<and> (\<forall>k < sc_top smc. smStateDefined (pe_pid env) (pg_pstate (page_view env smc k))
          \<and> (\<forall>n \<ge> w_ticks w. pe_clock env n \<noteq> 0 \<and> seg_ltime env (page_view env smc k) \<le> pe_clock env n))"

lemma smStateDefined_SetUTime:
  assumes "pid \<noteq> 0"
  shows "smStateDefined pid (smStateSetUTime q sa t) = smStateDefined pid sa"
proof -
  have "map st_pid (smStateSetUTime q sa t) = map st_pid sa"
    by (intro nth_equalityI) (auto simp: smStateSetUTime_def st_modify_def nth_list_update split: option.splits)
  then have "listed (smStateSetUTime q sa t) = listed sa" by (simp add: listed_def)
  then show ?thesis using assms by (simp add: smStateDefined_def pid_before_hole_listed)
qed

lemma next_touch_defined: "smStateDefined (pe_pid env) (pg_pstate p) \<Longrightarrow> next_touch env i p = p"
  by (simp add: next_touch_def)

lemma stamped_times:
  assumes "smStateDefined (pe_pid env) (pg_pstate p)"
  shows "seg_utime env (p\<lparr>pg_pstate := smStateSetUTime (pe_pid env) (pg_pstate p) t\<rparr>) = t"
    and "seg_ltime env (p\<lparr>pg_pstate := smStateSetUTime (pe_pid env) (pg_pstate p) t\<rparr>) = seg_ltime env p"
proof -
  obtain e where "st_entry (pe_pid env) (pg_pstate p) = Some e"
    using smStateDefined_entry [OF assms(1)] by blast
  then show "seg_utime env (p\<lparr>pg_pstate := smStateSetUTime (pe_pid env) (pg_pstate p) t\<rparr>) = t"
    "seg_ltime env (p\<lparr>pg_pstate := smStateSetUTime (pe_pid env) (pg_pstate p) t\<rparr>) = seg_ltime env p"
    by (simp_all add: seg_utime_def seg_ltime_def st_getter_defs)
qed

lemma smcNextPage_consumes:
  assumes ok: "reader_ok env w smc" and r: "smcNextPage env others w smc 0 = Some (w', smc', Some j)"
  shows "reader_ok env w' smc' \<and> j \<in> fresh_set env smc \<and> fresh_set env smc' = fresh_set env smc - {j}
    \<and> w_ticks w' = Suc (w_ticks w)"
proof -
  have top: "sc_top smc \<le> length (sc_pdata smc)" and pid: "pe_pid env \<noteq> 0"
    and def_: "k < sc_top smc \<Longrightarrow> smStateDefined (pe_pid env) (pg_pstate (page_view env smc k))"
    and clk: "k < sc_top smc \<Longrightarrow> w_ticks w \<le> n \<Longrightarrow>
      pe_clock env n \<noteq> 0 \<and> seg_ltime env (page_view env smc k) \<le> pe_clock env n" for k n
    using ok by (auto simp: reader_ok_def)
  let ?t = "pe_clock env (w_ticks w)"
  let ?p = "(page_view env smc j)\<lparr>pg_pstate := smStateSetUTime (pe_pid env) (pg_pstate (page_view env smc j)) ?t\<rparr>"
  have s: "sc_top smc' = sc_top smc" "length (sc_pdata smc') = length (sc_pdata smc)" "j \<in> fresh_set env smc"
      "w' = w\<lparr>w_ticks := Suc (w_ticks w)\<rparr>"
    and pd: "k < sc_top smc \<Longrightarrow> sc_pdata smc' ! k = (if k = j then ?p else page_view env smc k)" for k
    using smcNextPage_once [OF top, of env others w] r by auto
  have j: "j < sc_top smc" using s(3) by (simp add: fresh_set_def)
  have view: "page_view env smc' k = (if k = j then ?p else page_view env smc k)" if "k < sc_top smc" for k
    unfolding page_view_def [of env smc'] pd [OF that]
    using def_ [OF that] def_ [OF j] smStateDefined_SetUTime [OF pid] by (intro next_touch_defined) simp
  note st = stamped_times [OF def_ [OF j], of ?t]
  have "\<not> page_fresh env ?p" using st clk [OF j, of "w_ticks w"] by (simp add: page_fresh_def)
  then have "fresh_set env smc' = fresh_set env smc - {j}"
    using view s(1) by (auto simp: fresh_set_def split: if_splits)
  moreover have "reader_ok env w' smc'"
    unfolding reader_ok_def using s top pid def_ clk st smStateDefined_SetUTime [OF pid] by (auto simp: view)
  ultimately show ?thesis using s by simp
qed

lemma smcNextPage_empty_iff:
  assumes "sc_top smc \<le> length (sc_pdata smc)"
  obtains w' smc' r where "smcNextPage env others w smc 0 = Some (w', smc', r)"
    and "r = None \<longleftrightarrow> fresh_set env smc = {}"
proof -
  obtain w' smc' r where s: "smcNextPage env others w smc 0 = Some (w', smc', r)"
      "r = None \<longrightarrow> fresh_set env smc = {}" and j: "\<forall>j. r = Some j \<longrightarrow> j \<in> fresh_set env smc"
    using smcNextPage_once [OF assms, of env others w] by auto
  have "r = None \<longleftrightarrow> fresh_set env smc = {}" using s(2) j by (cases r) auto
  then show ?thesis using that s by blast
qed

text \<open>The results of successive calls.\<close>

fun next_calls :: "proc_env \<Rightarrow> nat \<Rightarrow> world \<Rightarrow> smCache_t \<Rightarrow> nat option list" where
  "next_calls env 0 w smc = []"
| "next_calls env (Suc n) w smc =
     (case smcNextPage env (\<lambda>_ s. s) w smc 0 of
        None \<Rightarrow> []
      | Some (w', smc', r) \<Rightarrow> r # next_calls env n w' smc')"

lemma next_calls_drain:
  assumes "reader_ok env w smc"
  shows "\<exists>js. distinct js \<and> set js = fresh_set env smc
    \<and> next_calls env (Suc (card (fresh_set env smc))) w smc = map Some js @ [None]"
  using assms
proof (induction "card (fresh_set env smc)" arbitrary: w smc)
  case 0
  have fin: "finite (fresh_set env smc)" by (simp add: fresh_set_def)
  then have e: "fresh_set env smc = {}" using 0 by simp
  have "sc_top smc \<le> length (sc_pdata smc)" using 0(2) by (simp add: reader_ok_def)
  then obtain w' smc' where "smcNextPage env (\<lambda>_ s. s) w smc 0 = Some (w', smc', None)"
    using e smcNextPage_empty_iff [of smc env "\<lambda>_ s. s" w] by metis
  then show ?case using e by simp
next
  case (Suc n)
  have fin: "finite (fresh_set env smc)" by (simp add: fresh_set_def)
  have "fresh_set env smc \<noteq> {}" using Suc.hyps(2) by auto
  moreover have "sc_top smc \<le> length (sc_pdata smc)" using Suc.prems by (simp add: reader_ok_def)
  ultimately obtain w' smc' j where r: "smcNextPage env (\<lambda>_ s. s) w smc 0 = Some (w', smc', Some j)"
    using smcNextPage_empty_iff [of smc env "\<lambda>_ s. s" w] by (metis option.exhaust)
  note c = smcNextPage_consumes [OF Suc.prems r]
  have n: "n = card (fresh_set env smc')" using c fin Suc.hyps(2) by simp
  then obtain js where js: "distinct js" "set js = fresh_set env smc'"
    "next_calls env (Suc n) w' smc' = map Some js @ [None]"
    using Suc.hyps(1) [OF n, of w'] c by auto
  have "distinct (j # js)" "set (j # js) = fresh_set env smc" using js c by auto
  moreover have "next_calls env (Suc (card (fresh_set env smc))) w smc = map Some (j # js) @ [None]"
    using r js(3) Suc.hyps(2) [symmetric] by simp
  ultimately show ?case by blast
qed


lemma pid_before_hole_added:
  "first_hole sa < length sa \<Longrightarrow> st_pid s = pid \<Longrightarrow> pid \<noteq> 0 \<Longrightarrow> pid_before_hole pid (sa[first_hole sa := s])"
  by (induction sa) auto

lemma lookup_clean_None:
  assumes "smStateLookupByPid sa pid = None" and "pid \<noteq> 0"
  shows "smStateLookupByPid (smStateClean alive sa) pid = None"
proof -
  have "st_pid (sa ! i) \<noteq> pid" if "i < length sa" for i
    using assms(1) that by (simp add: smStateLookupByPid_def first_index_None)
  then have "st_pid (smStateClean alive sa ! i) \<noteq> pid" if "i < length sa" for i
    using that assms(2) nth_smStateClean [OF that, of alive] by force
  then show ?thesis unfolding smStateLookupByPid_def first_index_None by (metis in_set_conv_nth length_smStateClean)
qed

lemma new_reader_times:
  assumes len: "length (pg_pstate p) = MAX_PROCS" and pid: "pe_pid env \<noteq> 0"
    and new: "smStateLookupByPid (pg_pstate p) (pe_pid env) = None"
    and room: "length (listed (smStateClean (pe_alive env) (pg_pstate p))) < MAX_PROCS"
  shows "seg_utime env (next_touch env i p) = 0 \<and> seg_ltime env (next_touch env i p) = pg_ctime p
    \<and> smStateDefined (pe_pid env) (pg_pstate (next_touch env i p))"
proof -
  let ?sc = "smStateClean (pe_alive env) (pg_pstate p)" and ?pid = "pe_pid env"
  have nc: "smStateLookupByPid ?sc ?pid = None" by (rule lookup_clean_None [OF new pid])
  have nb: "\<not> pid_before_hole ?pid ?sc" using nc pid_before_hole_lookup by fastforce
  have slot: "first_hole ?sc < MAX_PROCS" using room by (simp add: first_hole_listed)
  note add = smStateAdd_slot [OF len nb slot]
  have "\<not> smStateDefined ?pid (pg_pstate p)"
    using smStateDefined_entry [of ?pid "pg_pstate p"] new by (auto simp: st_entry_def)
  then have t: "next_touch env i p = p\<lparr>pg_pstate := snd (smStateAdd (pe_alive env) ?pid (pg_pstate p) (pg_ctime p)
      (next_addr env i) 0)\<rparr>" by (simp add: next_touch_def)
  obtain e where "st_entry ?pid (pg_pstate (next_touch env i p)) = Some e" "st_ltime e = pg_ctime p" "st_utime e = 0"
    using smStateAdd_entry_own [OF len pid nc add(1), of "pg_ctime p" "next_addr env i" 0] t by auto
  moreover have "smStateDefined ?pid (pg_pstate (next_touch env i p))"
    unfolding t smStateDefined_def using slot len pid by (simp add: add(2) pid_before_hole_added)
  ultimately show ?thesis by (simp add: seg_utime_def seg_ltime_def st_getter_defs)
qed

subsection \<open>Lists of pages by exposure\<close>

definition exp_pages :: "smCache_t \<Rightarrow> cdouble \<Rightarrow> nat list" where
  "exp_pages smc expID = filter (\<lambda>i. exp_match expID (sc_pdata smc ! i)) [0..<sc_top smc]"

lemma exp_collect_spec:
  assumes "i \<le> sc_top smc"
    and "el_plist el = map Some ms @ replicate (MAX_ID_PAGES - length ms) None" "el_npages el = length ms"
      "length ms \<le> MAX_ID_PAGES"
    and "ns = ms @ filter (\<lambda>i. exp_match expID (sc_pdata smc ! i)) [i..<sc_top smc]"
  shows "exp_collect smc expID i el =
    (if length ns \<le> MAX_ID_PAGES then Some (el\<lparr>el_plist := map Some ns @ replicate (MAX_ID_PAGES - length ns) None,
       el_npages := length ns\<rparr>) else None)"
  using assms
proof (induction "sc_top smc - i" arbitrary: i el ms ns)
  case 0
  then show ?case by (simp add: exp_collect.simps)
next
  case (Suc m)
  let ?f = "filter (\<lambda>i. exp_match expID (sc_pdata smc ! i))"
  have i: "i < sc_top smc" using Suc.hyps(2) by simp
  have up: "[i..<sc_top smc] = i # [Suc i..<sc_top smc]" using i by (rule upt_conv_Cons)
  show ?case
  proof (cases "exp_match expID (sc_pdata smc ! i)")
    case False
    then show ?thesis
      using i up Suc.hyps(1) [of "Suc i" el ms] Suc.hyps(2) Suc.prems by (subst exp_collect.simps) simp
  next
    case True
    show ?thesis
    proof (cases "length ms < MAX_ID_PAGES")
      case room: True
      then obtain k where k: "MAX_ID_PAGES - length ms = Suc k" by (metis Suc_diff_Suc)
      then have k': "MAX_ID_PAGES - length (ms @ [i]) = k" by simp
      let ?el = "el\<lparr>el_plist := (el_plist el)[el_npages el := Some i], el_npages := Suc (el_npages el)\<rparr>"
      have "el_plist ?el = map Some (ms @ [i]) @ replicate (MAX_ID_PAGES - length (ms @ [i])) None"
        using Suc.prems k by (simp add: list_update_append k')
      then show ?thesis
        using i up True room Suc.hyps(1) [of "Suc i" ?el "ms @ [i]"] Suc.hyps(2) Suc.prems
        by (subst exp_collect.simps) simp
    next
      case False
      then show ?thesis
        using i up True Suc.prems by (subst exp_collect.simps) simp
    qed
  qed
qed

lemma exp_collect_init:
  "exp_collect smc expID 0 (exp_list_init\<lparr>el_listID := expID\<rparr>) =
    (let ms = exp_pages smc expID in
     if length ms \<le> MAX_ID_PAGES then Some \<lparr>el_listID = expID, el_npages = length ms, el_curPage = 0,
       el_plist = map Some ms @ replicate (MAX_ID_PAGES - length ms) None\<rparr> else None)"
  using exp_collect_spec [of 0 smc "exp_list_init\<lparr>el_listID := expID\<rparr>" "[]" _ expID, OF _ _ _ _ refl]
  by (simp add: exp_list_init_def exp_pages_def Let_def)

text \<open>The results of successive calls for one exposure.\<close>

fun exp_calls :: "proc_env \<Rightarrow> cdouble \<Rightarrow> nat \<Rightarrow> world \<Rightarrow> smCache_t \<Rightarrow> exp_list \<Rightarrow> nat option list" where
  "exp_calls env expID 0 w smc el = []"
| "exp_calls env expID (Suc n) w smc el =
     (case smcNextByExpID env w smc el expID of
        None \<Rightarrow> []
      | Some (w', smc', el', r) \<Rightarrow> r # exp_calls env expID n w' smc' el')"

lemma exp_calls_rest:
  assumes "el_plist el = map Some ms @ replicate (MAX_ID_PAGES - length ms) None" "el_listID el = expID"
    and "0 \<le> expID" and "length ms < MAX_ID_PAGES" and "el_curPage el < length ms"
  shows "exp_calls env expID (length ms - el_curPage el) w smc el
    = map Some (drop (Suc (el_curPage el)) ms) @ [None]"
  using assms
proof (induction "length ms - el_curPage el" arbitrary: el)
  case 0
  then show ?case by simp
next
  case (Suc m)
  let ?c = "el_curPage el"
  have c: "Suc ?c < MAX_ID_PAGES" using Suc.prems by simp
  show ?case
  proof (cases "Suc ?c = length ms")
    case True
    then have "el_plist el ! Suc ?c = None" using Suc.prems by (simp add: nth_append)
    moreover have "length ms - ?c = Suc 0" using True by simp
    ultimately show ?thesis using True Suc.prems c by (simp add: smcNextByExpID_def)
  next
    case False
    then have lt: "Suc ?c < length ms" using Suc.prems(5) by simp
    then have nx: "el_plist el ! Suc ?c = Some (ms ! Suc ?c)" using Suc.prems by (simp add: nth_append)
    have d: "drop (Suc ?c) ms = ms ! Suc ?c # drop (Suc (Suc ?c)) ms" using lt by (simp add: Cons_nth_drop_Suc)
    have l: "length ms - ?c = Suc (length ms - Suc ?c)" using lt by simp
    show ?thesis
      unfolding l d
      using nx c Suc.prems Suc.hyps(1) [of "el\<lparr>el_curPage := Suc ?c\<rparr>"] Suc.hyps(2) lt
      by (simp add: smcNextByExpID_def)
  qed
qed

lemma exp_calls_all:
  assumes new: "el_listID el \<noteq> expID" and pos: "0 \<le> expID"
    and len: "0 < length (exp_pages smc expID)" "length (exp_pages smc expID) < MAX_ID_PAGES"
  shows "exp_calls env expID (Suc (length (exp_pages smc expID))) w smc el = map Some (exp_pages smc expID) @ [None]"
proof -
  let ?ms = "exp_pages smc expID"
  let ?el = "\<lparr>el_listID = expID, el_npages = length ?ms, el_curPage = 0,
      el_plist = map Some ?ms @ replicate (MAX_ID_PAGES - length ?ms) None\<rparr>"
  have c: "exp_collect smc expID 0 (exp_list_init\<lparr>el_listID := expID\<rparr>) = Some ?el"
    using len exp_collect_init [of smc expID] by (simp add: Let_def)
  have h: "(map Some ?ms @ replicate (MAX_ID_PAGES - length ?ms) None) ! 0 = Some (hd ?ms)"
    using len by (simp add: nth_append hd_conv_nth)
  have "smcNextByExpID env w smc el expID = Some (w, smc, ?el, Some (hd ?ms))"
    using new pos by (simp add: smcNextByExpID_def c h)
  moreover have "exp_calls env expID (length ?ms) w smc ?el = map Some (tl ?ms) @ [None]"
    using exp_calls_rest [of ?el ?ms expID env w smc] len pos by (simp add: drop_Suc)
  moreover have "map Some ?ms = Some (hd ?ms) # map Some (tl ?ms)" using len by (cases ?ms) auto
  ultimately show ?thesis by simp
qed

subsection \<open>Looking a page up by key\<close>

lemma find_page_loop_found:
  assumes "int j < sc_npages smc" and "pg_memKey (sc_pdata smc ! j) = memKey"
    and "i \<le> j" and "\<forall>k. i \<le> k \<longrightarrow> k < j \<longrightarrow> pg_memKey (sc_pdata smc ! k) \<noteq> memKey"
  shows "find_page_loop smc memKey i p = Some j"
  using assms
proof (induction "j - i" arbitrary: i p)
  case 0
  then show ?case by (simp add: find_page_loop.simps)
next
  case (Suc n)
  then have "i < j" by simp
  then show ?case
    using Suc.hyps(1) [of "Suc i"] Suc.hyps(2) Suc.prems by (subst find_page_loop.simps) auto
qed

lemma find_page_loop_missing:
  assumes "\<forall>k. int k < sc_npages smc \<longrightarrow> pg_memKey (sc_pdata smc ! k) \<noteq> memKey"
  shows "find_page_loop smc memKey i p = (if int i < sc_npages smc then Some (nat (sc_npages smc) - 1) else p)"
  using assms
proof (induction "nat (sc_npages smc - int i)" arbitrary: i p)
  case 0
  then show ?case by (simp add: find_page_loop.simps)
next
  case (Suc n)
  then have i: "int i < sc_npages smc" by simp
  have "find_page_loop smc memKey (Suc i) (Some i)
      = (if int (Suc i) < sc_npages smc then Some (nat (sc_npages smc) - 1) else Some i)"
    using Suc by (intro Suc.hyps(1)) auto
  moreover have "i = nat (sc_npages smc) - 1" if "\<not> int (Suc i) < sc_npages smc" using that i by linarith
  ultimately show ?case using i Suc.prems by (subst find_page_loop.simps) auto
qed

subsection \<open>Properties\<close>

text \<open>C20.  A new reader gets the pages in the order of their creation.  For a process that is in
  none of the tables, each with room for it, \<open>smcNextPage\<close> without waiting returns null
  exactly when no slot below the top holds a page that is not locked, and otherwise an
  unlocked page in use with the least creation time.\<close>

theorem smcNextPage_creation_order:
  assumes top: "sc_top smc \<le> length (sc_pdata smc)" and pid: "pe_pid env \<noteq> 0"
    and tables: "\<forall>k < sc_top smc. length (pg_pstate (sc_pdata smc ! k)) = MAX_PROCS
      \<and> smStateLookupByPid (pg_pstate (sc_pdata smc ! k)) (pe_pid env) = None
      \<and> length (listed (smStateClean (pe_alive env) (pg_pstate (sc_pdata smc ! k)))) < MAX_PROCS"
  defines "ready \<equiv> \<lambda>k. k < sc_top smc \<and> page_used (sc_pdata smc ! k) \<and> pg_ac_locked (sc_pdata smc ! k) \<noteq> 1"
  shows "\<exists>w' smc' r. smcNextPage env others w smc 0 = Some (w', smc', r)
    \<and> (r = None \<longleftrightarrow> (\<forall>k. \<not> ready k))
    \<and> (\<forall>j. r = Some j \<longrightarrow> ready j \<and> (\<forall>k. ready k \<longrightarrow> pg_ctime (sc_pdata smc ! j) \<le> pg_ctime (sc_pdata smc ! k)))"
proof -
  have times: "seg_utime env (page_view env smc k) = 0 \<and> seg_ltime env (page_view env smc k) = pg_ctime (sc_pdata smc ! k)"
    if "k < sc_top smc" for k
    unfolding page_view_def using new_reader_times [of "sc_pdata smc ! k" env k] tables pid that by simp
  have fs: "k \<in> fresh_set env smc \<longleftrightarrow> ready k" for k
    using times unfolding fresh_set_def ready_def page_fresh_def page_used_def by (auto simp: page_view_def)
  obtain w' smc' r where r: "smcNextPage env others w smc 0 = Some (w', smc', r)"
    "r = None \<longrightarrow> fresh_set env smc = {}"
    "\<forall>j. r = Some j \<longrightarrow> j \<in> fresh_set env smc
      \<and> ((\<forall>k \<in> fresh_set env smc. seg_utime env (page_view env smc k) = 0) \<longrightarrow>
         (\<forall>k \<in> fresh_set env smc. seg_ltime env (page_view env smc j) \<le> seg_ltime env (page_view env smc k)))"
    using smcNextPage_once [OF top, of env others w] by auto
  have "ready j \<and> (\<forall>k. ready k \<longrightarrow> pg_ctime (sc_pdata smc ! j) \<le> pg_ctime (sc_pdata smc ! k))" if "r = Some j" for j
    using r(3) that times fs unfolding Ball_def fs by (metis ready_def)
  moreover have "r = None \<longleftrightarrow> (\<forall>k. \<not> ready k)" using r(2,3) fs by (cases r) auto
  ultimately show ?thesis using r(1) by blast
qed

text \<open>C7.  Every page is seen once.  For a reader with an entry in every table and a clock that is
  not behind the pages, successive calls to \<open>smcNextPage\<close> return each page that is fresh for
  it exactly once, and then null.\<close>

theorem smcNextPage_drains:
  assumes "reader_ok env w smc"
  shows "\<exists>js. distinct js \<and> set js = fresh_set env smc
    \<and> next_calls env (Suc (card (fresh_set env smc))) w smc = map Some js @ [None]"
  using next_calls_drain [OF assms] .

text \<open>The timeout never expires.  With a positive timeout, if no page becomes fresh while
  the process sleeps, \<open>smcNextPage\<close> does not return.\<close>

theorem smcNextPage_never_times_out:
  assumes timeout: "0 < timeout" and top: "sc_top smc \<le> length (sc_pdata smc)" and none: "fresh_set env smc = {}"
    and others: "\<forall>k s. sc_top s \<le> length (sc_pdata s) \<longrightarrow> (\<forall>j < sc_top s. \<not> page_fresh env (sc_pdata s ! j)) \<longrightarrow>
      sc_top (others k s) \<le> length (sc_pdata (others k s)) \<and> fresh_set env (others k s) = {}"
  shows "smcNextPage env others w smc timeout = None"
proof (rule ccontr)
  assume "smcNextPage env others w smc timeout \<noteq> None"
  then obtain r where r: "nextpage_loop env others timeout 0 w smc = Some r" by (auto simp: smcNextPage_def)
  let ?P = "\<lambda>e oth tm k w s r. e = env \<longrightarrow> oth = others \<longrightarrow> tm = timeout \<longrightarrow> sc_top s \<le> length (sc_pdata s)
      \<longrightarrow> fresh_set env s = {} \<longrightarrow> False"
  have "?P env others timeout 0 w smc r"
  proof (rule nextpage_loop.raw_induct [where P = ?P, OF _ r], intro impI)
    fix loop e oth tm k w s r
    assume IH: "\<And>e oth tm k w s r. loop e oth tm k w s = Some r \<Longrightarrow> ?P e oth tm k w s r"
      and body: "(case next_scan e 0 (sc_top s) (sc_pdata s) None of
        (pd, Some j) \<Rightarrow>
          (case smUtilTime e w of (t, w') \<Rightarrow>
             Some (w', s\<lparr>sc_pdata := pd[j := (pd ! j)\<lparr>pg_pstate :=
                smStateSetUTime (pe_pid e) (pg_pstate (pd ! j)) t\<rparr>]\<rparr>, Some j))
      | (pd, None) \<Rightarrow>
          if 0 < tm then loop e oth tm (Suc k) w (oth k (s\<lparr>sc_pdata := pd\<rparr>))
          else Some (w, s\<lparr>sc_pdata := pd\<rparr>, None)) = Some r"
      and eq: "e = env" "oth = others" "tm = timeout" and s: "sc_top s \<le> length (sc_pdata s)" "fresh_set env s = {}"
    obtain pd q where sc: "next_scan env 0 (sc_top s) (sc_pdata s) None = (pd, q)" by fastforce
    note v = next_scan_view [OF sc s(1)]
    have nf: "\<forall>j < sc_top s. \<not> page_fresh env (pd ! j)" using v(3) s(2) by (auto simp: fresh_set_def)
    then have "q = None" using v(1) by (auto simp: oldest_ok_def split: option.splits)
    then have "loop env others timeout (Suc k) w (others k (s\<lparr>sc_pdata := pd\<rparr>)) = Some r"
      using body sc eq timeout by simp
    moreover have "sc_top (others k (s\<lparr>sc_pdata := pd\<rparr>)) \<le> length (sc_pdata (others k (s\<lparr>sc_pdata := pd\<rparr>)))
        \<and> fresh_set env (others k (s\<lparr>sc_pdata := pd\<rparr>)) = {}"
      using others [rule_format, of "s\<lparr>sc_pdata := pd\<rparr>" k] s(1) v(2) nf by simp
    ultimately show False using IH by blast
  qed
  then show False using top none by blast
qed

text \<open>All the pages of an exposure.  For an identifier that is not negative and not the one of
  the list in progress, successive calls to \<open>smcNextByExpID\<close> return the unlocked pages in use
  whose identifier agrees with it, in slot order, and then null, if there are between 1 and 127
  of them.  With more than 128 the first call writes past the list.\<close>

theorem smcNextByExpID_iterates:
  assumes "el_listID el \<noteq> expID" and "0 \<le> expID"
  shows "(0 < length (exp_pages smc expID) \<longrightarrow> length (exp_pages smc expID) < MAX_ID_PAGES \<longrightarrow>
      exp_calls env expID (Suc (length (exp_pages smc expID))) w smc el = map Some (exp_pages smc expID) @ [None])
    \<and> (MAX_ID_PAGES < length (exp_pages smc expID) \<longrightarrow> smcNextByExpID env w smc el expID = None)"
proof -
  have "smcNextByExpID env w smc el expID = None" if "MAX_ID_PAGES < length (exp_pages smc expID)"
    using that exp_collect_init [of smc expID] assms by (simp add: smcNextByExpID_def Let_def)
  then show ?thesis using exp_calls_all [OF assms] by blast
qed

text \<open>Lookup by key.  \<open>smcFindPage\<close> returns the first of the first \<open>npages\<close> slots with the
  key.  When none has it the result is the last of them and not null, which it is only for
  an empty cache.\<close>

theorem smcFindPage_result:
  "(\<forall>j. int j < sc_npages smc \<longrightarrow> pg_memKey (sc_pdata smc ! j) = memKey \<longrightarrow>
      (\<forall>k < j. pg_memKey (sc_pdata smc ! k) \<noteq> memKey) \<longrightarrow> smcFindPage smc memKey = Some j)
   \<and> ((\<forall>k. int k < sc_npages smc \<longrightarrow> pg_memKey (sc_pdata smc ! k) \<noteq> memKey) \<longrightarrow>
      smcFindPage smc memKey = (if 0 < sc_npages smc then Some (nat (sc_npages smc) - 1) else None))"
  using find_page_loop_found [of _ smc memKey 0 None] find_page_loop_missing [of smc memKey 0 None]
  by (simp add: smcFindPage_def)


lemma holed_nth:
  "sc_top holed_cache = 3" "sc_npages holed_cache = 2" "3 \<le> length (sc_pdata holed_cache)"
  "sc_pdata holed_cache ! 0 = sample_page" "sc_pdata holed_cache ! Suc 0 = zero_page" "sc_pdata holed_cache ! 2 = sample_page"
  unfolding holed_pdata by (simp_all add: holed_cache_def numeral_2_eq_2)

lemma less_3_cases: "k < (3 :: nat) \<Longrightarrow> k = 0 \<or> k = Suc 0 \<or> k = 2"
  by auto

lemma holed_page: "k < 3 \<Longrightarrow> sc_pdata holed_cache ! k = (if k = Suc 0 then zero_page else sample_page)"
  using less_3_cases holed_nth by fastforce

lemma sample_page_simps [simp]:
  "pg_pstate sample_page = zero_pstate" "pg_ctime sample_page = 0" "pg_ac_locked sample_page = 0"
  "pg_memKey sample_page = 77" "pg_expID sample_page = 0" "pg_ctime zero_page = 0"
  by (simp_all add: sample_page_def zero_page_def)

lemma sample_proc_simps [simp]: "pe_pid sample_proc = 100" "pe_clock sample_proc n = rat_of_nat n"
  by (simp_all add: sample_proc_def)

lemma lookup_zero_pstate: "pid \<noteq> 0 \<Longrightarrow> smStateLookupByPid zero_pstate pid = None"
  by (simp add: smStateLookupByPid_def first_index_None zero_pstate_def)

lemma holed_tables:
  assumes "k < sc_top holed_cache"
  shows "length (pg_pstate (sc_pdata holed_cache ! k)) = MAX_PROCS
    \<and> smStateLookupByPid (pg_pstate (sc_pdata holed_cache ! k)) (pe_pid sample_proc) = None
    \<and> length (listed (smStateClean (pe_alive sample_proc) (pg_pstate (sc_pdata holed_cache ! k)))) < MAX_PROCS"
  using assms holed_page [of k] by (simp add: holed_nth lookup_zero_pstate MAX_PROCS_def)

theorem smcNextPage_creation_order_witness:
  "\<exists>w' smc' j. smcNextPage sample_proc (\<lambda>_ s. s) sample_world holed_cache 0 = Some (w', smc', Some j) \<and> j \<in> {0, 2}"
proof -
  have "\<exists>w' smc' r. smcNextPage sample_proc (\<lambda>_ s. s) sample_world holed_cache 0 = Some (w', smc', r)
    \<and> (r = None \<longleftrightarrow> (\<forall>k. \<not> (k < sc_top holed_cache \<and> page_used (sc_pdata holed_cache ! k)
          \<and> pg_ac_locked (sc_pdata holed_cache ! k) \<noteq> 1)))
    \<and> (\<forall>j. r = Some j \<longrightarrow> (j < sc_top holed_cache \<and> page_used (sc_pdata holed_cache ! j)
          \<and> pg_ac_locked (sc_pdata holed_cache ! j) \<noteq> 1)
        \<and> (\<forall>k. k < sc_top holed_cache \<and> page_used (sc_pdata holed_cache ! k)
          \<and> pg_ac_locked (sc_pdata holed_cache ! k) \<noteq> 1
          \<longrightarrow> pg_ctime (sc_pdata holed_cache ! j) \<le> pg_ctime (sc_pdata holed_cache ! k)))"
    by (rule smcNextPage_creation_order) (use holed_tables holed_nth in auto)
  then obtain w' smc' r where r: "smcNextPage sample_proc (\<lambda>_ s. s) sample_world holed_cache 0 = Some (w', smc', r)"
    and n: "r \<noteq> None" and j: "\<forall>j. r = Some j \<longrightarrow> j < 3 \<and> page_used (sc_pdata holed_cache ! j)"
    using holed_nth sample_page_facts(1) by (metis sample_page_simps(3) zero_less_numeral zero_neq_one)
  obtain j where "r = Some j" using n by blast
  moreover have "j \<in> {0, 2}" using j \<open>r = Some j\<close> holed_page [of j] sample_page_facts(3) less_3_cases [of j] by fastforce
  ultimately show ?thesis using r by blast
qed

lemma holed_times:
  assumes "k < 3"
  shows "seg_utime sample_proc (page_view sample_proc holed_cache k) = 0"
    "seg_ltime sample_proc (page_view sample_proc holed_cache k) = 0"
    "smStateDefined (pe_pid sample_proc) (pg_pstate (page_view sample_proc holed_cache k))"
  using new_reader_times [of "sc_pdata holed_cache ! k" sample_proc k] holed_tables [of k] holed_page [OF assms] assms
  unfolding page_view_def by (simp_all add: holed_nth split: if_splits)

lemma holed_fresh: "fresh_set sample_proc holed_cache = {0, 2}"
proof -
  have "page_fresh sample_proc (page_view sample_proc holed_cache k) \<longleftrightarrow> k \<noteq> Suc 0" if "k < 3" for k
    using holed_times [OF that] holed_page [OF that] by (simp add: page_fresh_def page_view_def)
  then show ?thesis unfolding fresh_set_def holed_nth using less_3_cases by fastforce
qed

theorem smcNextPage_drains_witness:
  "\<exists>js. distinct js \<and> set js = {0, 2} \<and> next_calls sample_proc 3 sample_world holed_cache = map Some js @ [None]"
proof -
  have "w_ticks sample_world = 1" by (simp add: sample_world_def)
  then have "reader_ok sample_proc sample_world holed_cache"
    using holed_times holed_nth by (auto simp: reader_ok_def)
  from smcNextPage_drains [OF this] show ?thesis
    unfolding holed_fresh by (simp add: numeral_3_eq_3 del: next_calls.simps)
qed

theorem smcNextPage_never_times_out_witness:
  "smcNextPage sample_proc (\<lambda>_ _. sample_cache) sample_world sample_cache 250 = None"
  by (rule smcNextPage_never_times_out) (simp_all add: fresh_set_def)

theorem smcNextByExpID_iterates_witness:
  "exp_calls sample_proc 0 3 sample_world holed_cache (exp_list_init\<lparr>el_listID := 5\<rparr>) = [Some 0, Some 2, None]"
proof -
  have "[0..<3] = [0, Suc 0, 2]" by (simp add: upt_rec)
  then have e: "exp_pages holed_cache 0 = [0, 2]"
    by (simp add: exp_pages_def holed_nth exp_match_def smcEqualExpID_def EXPID_TOL_def)
  show ?thesis
    using smcNextByExpID_iterates [of "exp_list_init\<lparr>el_listID := 5\<rparr>" 0 holed_cache sample_proc sample_world]
    by (simp add: e MAX_ID_PAGES_def numeral_3_eq_3 del: exp_calls.simps)
qed

theorem smcFindPage_result_witness:
  "smcFindPage holed_cache 77 = Some 0 \<and> smcFindPage holed_cache 99 = Some 1"
proof -
  have "pg_memKey (sc_pdata holed_cache ! k) \<noteq> 99" if "int k < 2" for k
    using holed_page [of k] that by (simp split: if_splits)
  then show ?thesis
    using smcFindPage_result [of holed_cache 77] smcFindPage_result [of holed_cache 99] by (simp add: holed_nth)
qed

end
