(* ===== verification/SmMutex.thy ===== *)
theory SmMutex
  imports SmPage
begin

section \<open>The mutual exclusion lock (lib/smc/smCache.c)\<close>

text \<open>
  \<open>smcMutexInit\<close>, \<open>smcMutexOn\<close> and \<open>smcMutexOff\<close>: one System V semaphore shared by the
  processes of a user, and the static flag \<open>smc_sem_initialized\<close> of each process.  A failing
  \<open>semget\<close> or \<open>semctl\<close> ends the process, \<open>None\<close>.  \<open>semop\<close> with \<open>-1\<close> waits until the
  semaphore is positive: \<open>smcMutexOn\<close> is \<open>None\<close> where it would wait, and the interleavings
  of several processes are the step relation below.  The result of \<open>semop\<close> is not tested by the code; a call
  that fails, as it may when a signal interrupts it or the semaphore has been removed, is not modelled.
\<close>

definition smcMutexInit :: "proc_env \<Rightarrow> world \<Rightarrow> world option" where
  "smcMutexInit env w =
     (if w_sem_init w (pe_pid env) then Some w
      else if \<not> pe_sem_ok env then None
      else Some (w\<lparr>w_sem := Some 1, w_sem_init := (w_sem_init w)(pe_pid env := True)\<rparr>))"

definition smcMutexOn :: "proc_env \<Rightarrow> world \<Rightarrow> world option" where
  "smcMutexOn env w =
     (case smcMutexInit env w of
        None \<Rightarrow> None
      | Some w1 \<Rightarrow> (case w_sem w1 of
            None \<Rightarrow> Some w1
          | Some v \<Rightarrow> if 0 < v then Some (w1\<lparr>w_sem := Some (v - 1)\<rparr>) else None))"

definition smcMutexOff :: "proc_env \<Rightarrow> world \<Rightarrow> world option" where
  "smcMutexOff env w =
     (case smcMutexInit env w of
        None \<Rightarrow> None
      | Some w1 \<Rightarrow> Some (w1\<lparr>w_sem := map_option (\<lambda>v. v + 1) (w_sem w1)\<rparr>))"

lemmas mutex_defs = smcMutexInit_def smcMutexOn_def smcMutexOff_def

text \<open>
  Processes that use the lock as its comment prescribes: each opens the cache (which
  initialises the semaphore), then takes and releases the lock in turns.  The state is the
  world and the set of processes between \<open>smcMutexOn\<close> and \<open>smcMutexOff\<close>.
\<close>

inductive mutex_step :: "(pid_t \<Rightarrow> proc_env) \<Rightarrow> world \<times> pid_t set \<Rightarrow> world \<times> pid_t set \<Rightarrow> bool"
  for env where
  m_init: "smcMutexInit (env p) w = Some w' \<Longrightarrow> mutex_step env (w, H) (w', H)"
| m_on: "p \<notin> H \<Longrightarrow> smcMutexOn (env p) w = Some w' \<Longrightarrow> mutex_step env (w, H) (w', insert p H)"
| m_off: "p \<in> H \<Longrightarrow> smcMutexOff (env p) w = Some w' \<Longrightarrow> mutex_step env (w, H) (w', H - {p})"

inductive_cases mutex_stepE: "mutex_step env s s'"

text \<open>A step in which a process initialises the semaphore for the first time.\<close>

definition late_init :: "world \<times> pid_t set \<Rightarrow> world \<times> pid_t set \<Rightarrow> bool" where
  "late_init s s' \<longleftrightarrow> w_sem_init (fst s) \<noteq> w_sem_init (fst s') \<and> snd s \<noteq> {}"

text \<open>Steps that never initialise the semaphore while somebody holds the lock.\<close>

inductive mutex_run :: "(pid_t \<Rightarrow> proc_env) \<Rightarrow> world \<times> pid_t set \<Rightarrow> world \<times> pid_t set \<Rightarrow> bool"
  for env where
  mr_refl: "mutex_run env s s"
| mr_step: "mutex_run env s s' \<Longrightarrow> mutex_step env s' s'' \<Longrightarrow> \<not> late_init s' s'' \<Longrightarrow> mutex_run env s s''"

definition mutex_inv :: "world \<times> pid_t set \<Rightarrow> bool" where
  "mutex_inv s \<longleftrightarrow> finite (snd s)
     \<and> (case w_sem (fst s) of None \<Rightarrow> snd s = {} | Some v \<Rightarrow> 0 \<le> v \<and> v + int (card (snd s)) = 1)
     \<and> (\<forall>p. w_sem_init (fst s) p \<longrightarrow> w_sem (fst s) \<noteq> None)
     \<and> (\<forall>p \<in> snd s. w_sem_init (fst s) p)"

lemma smcMutexInit_cases:
  assumes "smcMutexInit e w = Some w'"
  shows "(w' = w \<and> w_sem_init w (pe_pid e))
    \<or> (\<not> w_sem_init w (pe_pid e) \<and> w' = w\<lparr>w_sem := Some 1, w_sem_init := (w_sem_init w)(pe_pid e := True)\<rparr>)"
  using assms by (auto simp: smcMutexInit_def split: if_splits)

lemma mutex_inv_init:
  assumes inv: "mutex_inv (w, H)" and i: "smcMutexInit e w = Some w'" and late: "H = {} \<or> w_sem_init w (pe_pid e)"
  shows "mutex_inv (w', H) \<and> w_sem w' \<noteq> None \<and> w_sem_init w' (pe_pid e)"
  using smcMutexInit_cases [OF i] late inv by (auto simp: mutex_inv_def)

lemma sem_init_changes:
  "\<not> w_sem_init w p \<Longrightarrow> w_sem_init w' p \<Longrightarrow> w_sem_init w \<noteq> w_sem_init w'"
  by auto

lemma mutex_inv_step:
  assumes envs: "\<And>p. pe_pid (env p) = p" and inv: "mutex_inv s"
    and step: "mutex_step env s s'" and late: "\<not> late_init s s'"
  shows "mutex_inv s'"
  using step
proof (cases rule: mutex_step.cases)
  case (m_init p w w' H)
  have "w_sem_init w' p" using m_init(3) envs by (auto simp: smcMutexInit_def split: if_splits)
  then have "H = {} \<or> w_sem_init w p"
    using late m_init sem_init_changes [of w p w'] by (auto simp: late_init_def)
  then show ?thesis using mutex_inv_init [of w H "env p" w'] inv m_init envs by simp
next
  case (m_on p H w w')
  obtain w1 where w1: "smcMutexInit (env p) w = Some w1" "w_sem w1 = None \<and> w' = w1
      \<or> (\<exists>v. w_sem w1 = Some v \<and> 0 < v \<and> w' = w1\<lparr>w_sem := Some (v - 1)\<rparr>)"
    using m_on(4) by (auto simp: smcMutexOn_def split: option.splits if_splits)
  have ini: "w_sem_init w1 p" "w_sem w1 \<noteq> None" using w1(1) envs inv m_on
    by (auto simp: smcMutexInit_def mutex_inv_def split: if_splits)
  have "H = {} \<or> w_sem_init w p"
    using late m_on sem_init_changes [of w p w'] ini w1(2) by (auto simp: late_init_def)
  then have inv1: "mutex_inv (w1, H)" using mutex_inv_init [of w H "env p" w1] inv m_on w1 envs by simp
  obtain v where v: "w_sem w1 = Some v" "0 < v" "w' = w1\<lparr>w_sem := Some (v - 1)\<rparr>" using w1(2) ini by auto
  then have "finite H" "v + int (card H) = 1" using inv1 by (simp_all add: mutex_inv_def)
  then have "v = 1" "card H = 0" using v(2) by linarith+
  then have "H = {}" using \<open>finite H\<close> by simp
  then show ?thesis using v \<open>v = 1\<close> ini inv1 m_on by (auto simp: mutex_inv_def)
next
  case (m_off p H w w')
  have "w_sem_init w p" "w_sem w \<noteq> None" using inv m_off by (auto simp: mutex_inv_def)
  then have w': "w' = w\<lparr>w_sem := map_option (\<lambda>v. v + 1) (w_sem w)\<rparr>"
    using m_off envs by (simp add: smcMutexOff_def smcMutexInit_def)
  have fin: "finite H" using inv m_off by (simp add: mutex_inv_def)
  have "card H = Suc (card (H - {p}))" using fin m_off card.remove [of H p] by simp
  then show ?thesis using inv m_off w' by (auto simp: mutex_inv_def)
qed

lemma mutex_run_inv:
  assumes "mutex_run env s s'" and "\<And>p. pe_pid (env p) = p" and "mutex_inv s"
  shows "mutex_inv s'"
  using assms by (induction rule: mutex_run.induct) (auto intro: mutex_inv_step)

lemma mutex_inv_one:
  assumes "mutex_inv (w, H)" and "p \<in> H" "q \<in> H"
  shows "p = q"
proof -
  have "finite H" "card H \<le> Suc 0"
    using assms by (auto simp: mutex_inv_def split: option.splits)
  then show ?thesis using assms(2,3) card_le_Suc0_iff_eq by blast
qed

subsection \<open>Properties\<close>

text \<open>C8.  Mutual exclusion.  Starting with no semaphore, however the processes interleave
  opening the cache, taking and releasing the lock, at most one of them is ever inside, as
  long as no process makes its first call to the library while another one is inside.\<close>

theorem mutex_exclusion:
  assumes "\<forall>p. pe_pid (env p) = p" and "w_sem w0 = None" and "\<forall>p. \<not> w_sem_init w0 p"
    and "mutex_run env (w0, {}) (w, H)"
  shows "\<forall>p q. p \<in> H \<longrightarrow> q \<in> H \<longrightarrow> p = q"
proof -
  have "mutex_inv (w0, {})" using assms by (simp add: mutex_inv_def)
  then have "mutex_inv (w, H)" using mutex_run_inv assms by metis
  then show ?thesis using mutex_inv_one by blast
qed

text \<open>Without that condition exclusion is lost: \<open>smcMutexInit\<close> sets the value of the shared
  semaphore to 1 each time a process calls it first.  A process that opens the cache while
  another holds the lock opens the lock again, and both are inside.\<close>

theorem mutex_broken_by_init:
  assumes "\<forall>p. pe_pid (env p) = p \<and> pe_sem_ok (env p)" and "p \<noteq> q"
    and "\<not> w_sem_init w0 p" "\<not> w_sem_init w0 q"
  shows "\<exists>w1 w2 w3. mutex_step env (w0, {}) (w1, {p}) \<and> mutex_step env (w1, {p}) (w2, {p})
    \<and> mutex_step env (w2, {p}) (w3, {p, q}) \<and> w_sem w1 = Some 0 \<and> w_sem w2 = Some 1"
proof -
  let ?w1 = "w0\<lparr>w_sem := Some 0, w_sem_init := (w_sem_init w0)(p := True)\<rparr>"
  let ?w2 = "?w1\<lparr>w_sem := Some 1, w_sem_init := (w_sem_init ?w1)(q := True)\<rparr>"
  have "smcMutexOn (env p) w0 = Some ?w1" using assms by (simp add: mutex_defs)
  then have "mutex_step env (w0, {}) (?w1, {p})" using m_on [of p "{}" env w0] by simp
  moreover have "smcMutexInit (env q) ?w1 = Some ?w2" using assms by (simp add: mutex_defs)
  then have "mutex_step env (?w1, {p}) (?w2, {p})" by (rule m_init)
  moreover have "smcMutexOn (env q) ?w2 = Some (?w2\<lparr>w_sem := Some 0\<rparr>)" using assms by (simp add: mutex_defs)
  then have "mutex_step env (?w2, {p}) (?w2\<lparr>w_sem := Some 0\<rparr>, {p, q})"
    using m_on [of q "{p}" env ?w2] assms(2) by (simp add: insert_commute)
  ultimately show ?thesis by (intro exI conjI) (assumption | simp)+
qed

definition sample_procs :: "pid_t \<Rightarrow> proc_env" where
  "sample_procs p = sample_proc\<lparr>pe_pid := p\<rparr>"

theorem mutex_exclusion_witness:
  "\<exists>w. mutex_run sample_procs (sample_world, {}) (w, {100}) \<and> (\<forall>p q. p \<in> {100} \<longrightarrow> q \<in> {100} \<longrightarrow> p = q)"
proof -
  let ?w = "sample_world\<lparr>w_sem := Some 0, w_sem_init := (w_sem_init sample_world)(100 := True)\<rparr>"
  have "smcMutexOn (sample_procs 100) sample_world = Some ?w"
    by (simp add: mutex_defs sample_procs_def sample_proc_def sample_world_def)
  then have "mutex_step sample_procs (sample_world, {}) (?w, {100})" using m_on [of 100 "{}"] by simp
  then have r: "mutex_run sample_procs (sample_world, {}) (?w, {100})"
    by (rule mr_step [OF mr_refl]) (simp add: late_init_def)
  have "\<forall>p q. p \<in> {100 :: pid_t} \<longrightarrow> q \<in> {100} \<longrightarrow> p = q"
    by (rule mutex_exclusion [OF _ _ _ r]) (simp_all add: sample_procs_def sample_world_def)
  then show ?thesis using r by blast
qed

theorem mutex_broken_by_init_witness:
  "\<exists>w1 w2 w3. mutex_step sample_procs (sample_world, {}) (w1, {100})
    \<and> mutex_step sample_procs (w1, {100}) (w2, {100}) \<and> mutex_step sample_procs (w2, {100}) (w3, {100, 200})"
  using mutex_broken_by_init [of sample_procs 100 200 sample_world]
  by (simp add: sample_procs_def sample_proc_def sample_world_def) blast

end
