(* ===== verification/SmOpen.thy ===== *)
theory SmOpen
  imports SmReader SmMutex
begin

section \<open>Opening, initialising and closing the cache (lib/smc/smCache.c)\<close>

text \<open>
  \<open>smcOpen\<close>, \<open>smcInitialize\<close> and \<open>smcClose\<close>.  The caches in shared memory are a map from
  segment ids to cache structures; \<open>smcOpen\<close> returns the id of the one it opened.  The
  structure of a new cache is filled in a static copy first and copied to the segment; the
  loop that marks the pages free comes after the copy and writes the static copy only, so the
  shared pages are all zero.
\<close>

type_synonym caches = "int \<Rightarrow> smCache_t option"

subsection \<open>Initialising\<close>

text \<open>The body of the loop: release the page, then clear its slot once more.\<close>

definition init_page :: "proc_env \<Rightarrow> world \<Rightarrow> smCache_t \<Rightarrow> nat \<Rightarrow> (world \<times> smCache_t) option" where
  "init_page env w smc i =
     (if pg_memKey (sc_pdata smc ! i) = 0 then Some (w, smc)
      else case smcDetach env w smc i True of
        None \<Rightarrow> None
      | Some (w', smc') \<Rightarrow>
          (let p = sc_pdata smc' ! i;
               p' = p\<lparr>pg_pstate := snd (smStateRemove (pe_alive env) (pe_pid env) (pg_pstate p) 0)\<rparr>
           in Some (w', smc'\<lparr>sc_pdata := (sc_pdata smc')[i := smcFreePage p']\<rparr>)))"

lemma init_page_keeps:
  assumes "init_page env w smc i = Some (w', smc')"
  shows "length (sc_pdata smc') = length (sc_pdata smc) \<and> sc_np_max smc' = sc_np_max smc"
  using assms smcDetach_result [of env w smc i True]
  by (auto simp: init_page_def Let_def split: if_splits option.splits)

function init_loop :: "proc_env \<Rightarrow> nat \<Rightarrow> world \<Rightarrow> smCache_t \<Rightarrow> (world \<times> smCache_t) option" where
  "init_loop env i w smc =
     (if int i < sc_np_max smc then
        (if i < length (sc_pdata smc) then
           (case init_page env w smc i of
              None \<Rightarrow> None | Some (w', smc') \<Rightarrow> init_loop env (Suc i) w' smc')
         else None)
      else Some (w, smc))"
  by pat_completeness auto
termination
  by (relation "measure (\<lambda>(env, i, w, smc). length (sc_pdata smc) - i)") (auto dest: init_page_keeps)

declare init_loop.simps [simp del]

definition smcInitialize ::
  "proc_env \<Rightarrow> world \<Rightarrow> smCache_t option \<Rightarrow> (int \<times> world \<times> smCache_t option) option" where
  "smcInitialize env w smc =
     (case smc of
        None \<Rightarrow> Some (ERR, w, None)
      | Some s \<Rightarrow>
          (case init_loop env 0 w (s\<lparr>sc_pstate := smStateClean (pe_alive env) (sc_pstate s)\<rparr>) of
             None \<Rightarrow> None
           | Some (w', s') \<Rightarrow>
               Some (OK, w', Some ((smcPrune s')\<lparr>sc_seqno := 0, sc_dirpath := DEF_DIRPATH, sc_froot := DEF_FROOT\<rparr>))))"


subsection \<open>Closing\<close>

definition put_page :: "nat \<Rightarrow> world \<times> smcPage_t \<Rightarrow> smCache_t \<Rightarrow> world \<times> smCache_t" where
  "put_page i wp smc = (fst wp, smc\<lparr>sc_pdata := (sc_pdata smc)[i := snd wp]\<rparr>)"

definition close_page :: "proc_env \<Rightarrow> world \<Rightarrow> smCache_t \<Rightarrow> bool \<Rightarrow> nat \<Rightarrow> (world \<times> smCache_t) option" where
  "close_page env w smc free_flag i =
     (let p = sc_pdata smc ! i in
      if free_flag \<and> pg_nattached p < 1 \<and> pg_nreaders p < 1 then
        (if pg_memKey p \<noteq> 0 then
           (case put_page i (smcAttach env w p) smc of (w1, smc1) \<Rightarrow> smcDetach env w1 smc1 i free_flag)
         else Some (w, smc))
      else if free_flag \<or> pg_free p \<noteq> 0 then
        (if pg_memKey p \<noteq> 0 then
           (case (if seg_attached env p = 0 then put_page i (smcAttach env w p) smc else (w, smc)) of
              (w1, smc1) \<Rightarrow> smcDetach env w1 smc1 i free_flag)
         else Some (w, smc))
      else Some (w, smc))"

lemma close_page_cases:
  assumes "close_page env w smc free_flag i = Some (w', smc')"
  shows "((pg_memKey (sc_pdata smc ! i) = 0 \<or> \<not> free_flag) \<and> smc' = smc) \<or> (pg_memKey (sc_pdata smc ! i) \<noteq> 0 \<and>
    (\<exists>w1 smc1. (smc1 = smc \<or> smc1 = snd (put_page i (smcAttach env w (sc_pdata smc ! i)) smc))
      \<and> smcDetach env w1 smc1 i free_flag = Some (w', smc')))"
  using assms by (auto simp: close_page_def Let_def put_page_def split: if_splits prod.splits)

lemma close_page_top:
  assumes "close_page env w smc free_flag i = Some (w', smc')"
  shows "sc_top smc' \<le> sc_top smc"
proof -
  have "sc_top smc' \<le> sc_top smc1" if "smcDetach env w1 smc1 i free_flag = Some (w', smc')" for w1 smc1
    using smcDetach_result [OF that] by (auto split: if_splits)
  then show ?thesis using close_page_cases [OF assms] by (fastforce simp: put_page_def)
qed

function close_loop :: "proc_env \<Rightarrow> nat \<Rightarrow> bool \<Rightarrow> world \<Rightarrow> smCache_t \<Rightarrow> (world \<times> smCache_t) option" where
  "close_loop env i free_flag w smc =
     (if i < sc_top smc then
        (case close_page env w smc free_flag i of
           None \<Rightarrow> None | Some (w', smc') \<Rightarrow> close_loop env (Suc i) free_flag w' smc')
      else Some (w, smc))"
  by pat_completeness auto
termination
  by (relation "measure (\<lambda>(env, i, free_flag, w, smc). sc_top smc - i)") (auto dest!: close_page_top)

declare close_loop.simps [simp del]

definition smc_addr :: "proc_env \<Rightarrow> smCache_t \<Rightarrow> addr_t" where
  "smc_addr env smc = smStateGetAddr (pe_pid env) (sc_pstate smc)"

text \<open>The structure as the call leaves it, and whether the returned pointer is not null.\<close>

definition smcClose ::
  "proc_env \<Rightarrow> world \<Rightarrow> smCache_t option \<Rightarrow> bool \<Rightarrow> (world \<times> smCache_t option \<times> bool) option" where
  "smcClose env w smc free_flag =
     (case smc of
        None \<Rightarrow> Some (w, None, False)
      | Some s \<Rightarrow>
          (case close_loop env 0 free_flag w s of
             None \<Rightarrow> None
           | Some (w1, s1) \<Rightarrow>
               let s2 = s1\<lparr>sc_nattached := sc_nattached s1 - 1\<rparr>;
                   s3 = (if sc_nattached s2 = 0 \<and> sc_vm_locked s2 \<and> pe_root env \<and> pe_mlock env
                         then s2\<lparr>sc_vm_locked := False\<rparr> else s2)
               in case smUtilDetach (pe_os env) (sc_memKey s3) (cfg_cache_path (sc_sysConfig s3)) (smc_addr env s3) free_flag of
                    None \<Rightarrow> None
                  | Some evs \<Rightarrow> Some (run_events (pe_pid env) evs w1, Some s3, \<not> free_flag)))"

subsection \<open>Opening\<close>

definition empty_cache :: smCache_t where
  "empty_cache = \<lparr>sc_memKey = 0, sc_shmid = 0, sc_cache_addr = 0, sc_cache_size = 0, sc_nattached = 0,
     sc_vm_locked = False, sc_fd = 0, sc_new = 0, sc_ctime = 0, sc_dirpath = [], sc_froot = [],
     sc_seqno = 0, sc_np_max = 0, sc_np_hiwater = 0, sc_mem_allocated = 0, sc_mem_avail = 0,
     sc_sysConfig = zero_config, sc_pstate = zero_pstate, sc_npages = 0, sc_top = 0,
     sc_pdata = replicate (nat MAX_SEGS) zero_page, sc_debug = 0\<rparr>"

text \<open>The branch for an existing cache: the segment id and the cache updated for this process.
  The inner \<open>None\<close> is the null pointer.\<close>

definition open_existing ::
  "proc_env \<Rightarrow> world \<Rightarrow> caches \<Rightarrow> sysConfig_t \<Rightarrow> (world \<times> (int \<times> smCache_t) option) option" where
  "open_existing env w caches cfg =
     (case smUtilAttach (pe_os env) (cfg_cache_memKey cfg) (cfg_cache_path cfg) (word_of_int (cfg_cache_size cfg)) 0 of
        (addr, new', evs) \<Rightarrow>
          let w1 = run_events (pe_pid env) evs w in
          if addr = 0 then Some (w1, None)
          else (case caches new' of
              None \<Rightarrow> None
            | Some c \<Rightarrow>
                (case smUtilTime env w1 of (t, w2) \<Rightarrow>
                   Some (w2, Some (new', c\<lparr>sc_fd := new', sc_shmid := new',
                     sc_pstate := snd (smStateAdd (pe_alive env) (pe_pid env) (sc_pstate c) t addr 1)\<rparr>)))))"

text \<open>The branch for a new cache.\<close>

definition new_cache :: "cfg_env \<Rightarrow> key_t \<Rightarrow> sysConfig_t \<Rightarrow> cdouble \<Rightarrow> smCache_t" where
  "new_cache cenv memKey cfg t = empty_cache\<lparr>sc_sysConfig := cfg, sc_new := 1, sc_memKey := memKey,
     sc_debug := smc_debug_env cenv, sc_cache_size := cfg_cache_size cfg, sc_np_hiwater := 0,
     sc_np_max := cfg_max_segs cfg, sc_mem_allocated := word_of_int (cfg_cache_size cfg),
     sc_mem_avail := cfg_sys_avphys_pages cfg * cfg_sys_page_size cfg, sc_top := 0, sc_npages := 0,
     sc_ctime := t, sc_seqno := 0, sc_dirpath := DEF_DIRPATH, sc_froot := DEF_FROOT\<rparr>"

definition open_new ::
  "proc_env \<Rightarrow> cfg_env \<Rightarrow> world \<Rightarrow> key_t \<Rightarrow> sysConfig_t \<Rightarrow> (world \<times> (int \<times> smCache_t) option) option" where
  "open_new env cenv w memKey cfg =
     (case smUtilTime env w of (t, w1) \<Rightarrow>
      let c = new_cache cenv memKey cfg t in
      case smUtilAttach (pe_os env) memKey (cfg_cache_path cfg) (word_of_int (sc_cache_size c)) 1 of
        (addr, new', evs) \<Rightarrow>
          let w2 = run_events (pe_pid env) evs w1 in
          if addr = 0 then
            (case smcClose env w2 (Some c) True of None \<Rightarrow> None | Some (w3, _) \<Rightarrow> Some (w3, None))
          else
            (case smUtilTime env w2 of (t2, w3) \<Rightarrow>
               Some (w3, Some (new', c\<lparr>sc_cache_addr := addr, sc_fd := new', sc_shmid := new',
                 sc_pstate := snd (smStateAdd (pe_alive env) (pe_pid env) (sc_pstate c) t2 addr 1),
                 sc_sysConfig := cfg\<lparr>cfg_cache_addr := addr\<rparr>\<rparr>))))"

text \<open>The common end: this process is counted, its interest recorded, the structure locked in
  memory by the first process if it is root's, and the mutex initialised.\<close>

definition open_finish ::
  "proc_env \<Rightarrow> world \<Rightarrow> caches \<Rightarrow> sysConfig_t \<Rightarrow> int \<Rightarrow> int \<Rightarrow> smCache_t \<Rightarrow> (world \<times> caches \<times> int option) option" where
  "open_finish env w caches cfg reader sid c =
     (let c1 = c\<lparr>sc_nattached := sc_nattached c + 1, sc_pstate := smStateSetReader (pe_pid env) (sc_pstate c) reader\<rparr>;
          c2 = (if sc_nattached c1 = 1 \<and> \<not> sc_vm_locked c1 \<and> pe_root env \<and> pe_mlock env
                then c1\<lparr>sc_vm_locked := True\<rparr> else c1)
      in case smcMutexInit env w of
           None \<Rightarrow> None
         | Some w' \<Rightarrow> Some (w', caches(sid := Some (c2\<lparr>sc_debug := cfg_debug cfg\<rparr>)), Some sid))"

definition smcOpen ::
  "proc_env \<Rightarrow> cfg_env \<Rightarrow> world \<Rightarrow> caches \<Rightarrow> string option \<Rightarrow> (world \<times> caches \<times> int option) option" where
  "smcOpen env cenv w caches config =
     (case smParseConfig cenv config zero_config of
        None \<Rightarrow> None
      | Some (_, cfg0, reader) \<Rightarrow>
          (case smUtilInitCache (pe_os env) (getuid cenv) cfg0 of
             None \<Rightarrow> None
           | Some (memKey, new, cfg, evs) \<Rightarrow>
               let w1 = run_events (pe_pid env) evs w in
               if memKey = 0 then Some (w1, caches, None)
               else case (if \<not> new then open_existing env w1 caches cfg else open_new env cenv w1 memKey cfg) of
                   None \<Rightarrow> None
                 | Some (w2, None) \<Rightarrow> Some (w2, caches, None)
                 | Some (w2, Some (sid, c)) \<Rightarrow> open_finish env w2 caches cfg reader sid c))"


subsection \<open>Initialising frees every page\<close>

lemma freed_page_wf: "page_wf freed_page" "\<not> page_used freed_page"
  by (simp_all add: page_wf_def page_used_def)

lemma init_page_result:
  assumes inv: "smc_inv smc" and i: "i < length (sc_pdata smc)" and r: "init_page env w smc i = Some (w', smc')"
  shows "smc_inv smc' \<and> held_pages smc' = held_pages smc - {i}
    \<and> sc_pdata smc' = (sc_pdata smc)[i := (if page_used (sc_pdata smc ! i) then freed_page else sc_pdata smc ! i)]"
proof (cases "page_used (sc_pdata smc ! i)")
  case False
  then have "smc' = smc" using r by (auto simp: init_page_def page_used_def)
  then show ?thesis using inv False by (auto simp: held_pages_def)
next
  case True
  then obtain s1 where d: "smcDetach env w smc i True = Some (w', s1)"
    and s': "smc' = s1\<lparr>sc_pdata := (sc_pdata s1)[i := freed_page]\<rparr>"
    using r by (auto simp: init_page_def page_used_def Let_def smcFreePage_def split: option.splits)
  have pd: "sc_pdata s1 = (sc_pdata smc)[i := freed_page]" using smcDetach_result [OF d] by auto
  then have "smc' = s1" using s' by simp
  moreover have "i \<in> held_pages smc" using True i by (simp add: held_pages_def)
  ultimately show ?thesis using smc_inv_smcDetach_free [OF inv _ d] True pd by simp
qed

lemma init_loop_result:
  assumes "init_loop env i w smc = Some (w', smc')" and "smc_inv smc" and "held_pages smc \<inter> {..<i} = {}"
  shows "smc_inv smc' \<and> held_pages smc' = {}"
  using assms
proof (induction "length (sc_pdata smc) - i" arbitrary: i w smc rule: less_induct)
  case less
  show ?case
  proof (cases "int i < sc_np_max smc")
    case False
    then have "smc' = smc" using less.prems(1) by (simp add: init_loop.simps)
    moreover have "held_pages smc \<subseteq> {..<i}" using less.prems(2) False by (auto simp: held_pages_def smc_inv_def)
    ultimately show ?thesis using less.prems by auto
  next
    case True
    then have i: "i < length (sc_pdata smc)" using less.prems(2) by (auto simp: smc_inv_def)
    obtain w1 s1 where p: "init_page env w smc i = Some (w1, s1)" and l: "init_loop env (Suc i) w1 s1 = Some (w', smc')"
      using less.prems(1) True i unfolding init_loop.simps [of env i w smc] by (auto split: option.splits)
    note r = init_page_result [OF less.prems(2) i p]
    have "held_pages s1 = held_pages smc - {i}" using r by simp
    then have "held_pages s1 \<inter> {..<Suc i} = {}" using less.prems(3) by (auto simp: lessThan_Suc)
    moreover have "length (sc_pdata s1) - Suc i < length (sc_pdata smc) - i" using r i by simp
    ultimately show ?thesis by (intro less.hyps [OF _ l]) (use r in simp_all)
  qed
qed

lemma init_loop_returns:
  assumes "smc_inv smc" and "\<forall>p \<in> set (sc_pdata smc). length (pg_lockFile p) < 128"
  shows "\<exists>w' smc'. init_loop env i w smc = Some (w', smc')"
  using assms
proof (induction "length (sc_pdata smc) - i" arbitrary: i w smc rule: less_induct)
  case less
  show ?case
  proof (cases "int i < sc_np_max smc")
    case False
    then show ?thesis by (simp add: init_loop.simps)
  next
    case True
    then have i: "i < length (sc_pdata smc)" using less.prems(1) by (auto simp: smc_inv_def)
    have "\<exists>w1 s1. init_page env w smc i = Some (w1, s1)"
      using smcDetach_returns [of smc i env w True] less.prems(2) i by (auto simp: init_page_def Let_def)
    then obtain w1 s1 where p: "init_page env w smc i = Some (w1, s1)" by blast
    note r = init_page_result [OF less.prems(1) i p]
    have "pg_lockFile freed_page = []" by (simp add: zero_page_def)
    then have "\<forall>q \<in> set (sc_pdata s1). length (pg_lockFile q) < 128"
      using r less.prems(2) i set_update_subset_insert [of "sc_pdata smc" i freed_page] by (auto split: if_splits)
    moreover have "length (sc_pdata s1) - Suc i < length (sc_pdata smc) - i" using r i by simp
    ultimately have "\<exists>w' smc'. init_loop env (Suc i) w1 s1 = Some (w', smc')" using less.hyps r by blast
    then show ?thesis using p True i by (subst init_loop.simps) simp
  qed
qed

subsection \<open>Closing keeps the invariant\<close>

lemma smc_inv_put_page:
  assumes inv: "smc_inv smc" and i: "i < length (sc_pdata smc)"
  shows "smc_inv (snd (put_page i (smcAttach env w (sc_pdata smc ! i)) smc))
    \<and> held_pages (snd (put_page i (smcAttach env w (sc_pdata smc ! i)) smc)) = held_pages smc"
proof -
  let ?p = "snd (smcAttach env w (sc_pdata smc ! i))"
  let ?s = "snd (put_page i (smcAttach env w (sc_pdata smc ! i)) smc)"
  have u: "page_used ?p = page_used (sc_pdata smc ! i)" by (simp add: page_used_def)
  have "page_wf (sc_pdata smc ! i)" using inv i by (simp add: smc_inv_def list_all_length)
  then have "page_wf ?p" by (simp add: page_wf_def)
  moreover have "page_used ?p \<Longrightarrow> i < sc_top smc" using held_below_top [OF inv, of i] u i by (simp add: held_pages_def)
  ultimately have "smc_inv ?s"
    using u by (intro smc_inv_update_slot [OF inv i, of ?p]) (auto simp: put_page_def)
  moreover have "held_pages ?s = held_pages smc"
    using u i by (auto simp: put_page_def held_pages_def nth_list_update)
  ultimately show ?thesis by simp
qed

lemma smc_inv_close_page:
  assumes inv: "smc_inv smc" and i: "i < sc_top smc" and r: "close_page env w smc free_flag i = Some (w', smc')"
  shows "smc_inv smc' \<and> (\<not> free_flag \<longrightarrow> held_pages smc' = held_pages smc)
    \<and> (free_flag \<longrightarrow> held_pages smc' = held_pages smc - {i})"
proof -
  have len: "i < length (sc_pdata smc)" using i inv by (simp add: smc_inv_def)
  show ?thesis
  proof (cases "page_used (sc_pdata smc ! i)")
    case False
    then have "smc' = smc" using r by (auto simp: close_page_def page_used_def Let_def split: if_splits)
    then show ?thesis using inv False by (auto simp: held_pages_def)
  next
    case True
    show ?thesis
    proof (cases "\<not> free_flag \<and> smc' = smc")
      case True
      then show ?thesis using inv by simp
    next
      case False
      then obtain w1 s1 where s1: "s1 = smc \<or> s1 = snd (put_page i (smcAttach env w (sc_pdata smc ! i)) smc)"
        and d: "smcDetach env w1 s1 i free_flag = Some (w', smc')"
        using close_page_cases [OF r] True by (auto simp: page_used_def)
      have inv1: "smc_inv s1 \<and> held_pages s1 = held_pages smc" using s1 inv smc_inv_put_page [OF inv len] by auto
      then have "i \<in> held_pages s1" using True len by (simp add: held_pages_def)
      moreover have "i < length (sc_pdata s1)" using \<open>i \<in> held_pages s1\<close> by (simp add: held_pages_def)
      ultimately show ?thesis
        using inv1 d smc_inv_smcDetach_free [of s1 i env w1 w' smc'] smc_inv_smcDetach_keep [of s1 i env w1 w' smc']
        by (cases free_flag) auto
    qed
  qed
qed

lemma smcDetach_keeps:
  assumes "smcDetach env w smc i free = Some (w', smc')"
  shows "sc_nattached smc' = sc_nattached smc \<and> sc_pstate smc' = sc_pstate smc \<and> sc_memKey smc' = sc_memKey smc
    \<and> sc_sysConfig smc' = sc_sysConfig smc \<and> sc_vm_locked smc' = sc_vm_locked smc"
  using assms by (auto simp: smcDetach_def Let_def split: prod.splits option.splits if_splits)

lemma close_loop_result:
  assumes "close_loop env i free_flag w smc = Some (w', smc')" and "smc_inv smc"
  shows "smc_inv smc' \<and> held_pages smc' = (if free_flag then held_pages smc \<inter> {..<i} else held_pages smc)
    \<and> sc_nattached smc' = sc_nattached smc \<and> sc_pstate smc' = sc_pstate smc"
  using assms
proof (induction "sc_top smc - i" arbitrary: i w smc rule: less_induct)
  case less
  show ?case
  proof (cases "i < sc_top smc")
    case False
    then have "smc' = smc" using less.prems(1) by (simp add: close_loop.simps)
    moreover have "held_pages smc \<subseteq> {..<i}" using held_below_top [OF less.prems(2)] False by fastforce
    ultimately show ?thesis using less.prems by auto
  next
    case True
    obtain w1 s1 where p: "close_page env w smc free_flag i = Some (w1, s1)"
      and l: "close_loop env (Suc i) free_flag w1 s1 = Some (w', smc')"
      using less.prems(1) True unfolding close_loop.simps [of env i free_flag w smc] by (auto split: option.splits)
    note r = smc_inv_close_page [OF less.prems(2) True p]
    have k: "sc_nattached s1 = sc_nattached smc \<and> sc_pstate s1 = sc_pstate smc"
      using close_page_cases [OF p] smcDetach_keeps by (fastforce simp: put_page_def)
    have "sc_top s1 - Suc i < sc_top smc - i" using close_page_top [OF p] True by simp
    then have "smc_inv smc' \<and> held_pages smc' = (if free_flag then held_pages s1 \<inter> {..<Suc i} else held_pages s1)
        \<and> sc_nattached smc' = sc_nattached s1 \<and> sc_pstate smc' = sc_pstate s1"
      by (intro less.hyps [OF _ l]) (use r in simp_all)
    moreover have "(held_pages smc - {i}) \<inter> {..<Suc i} = held_pages smc \<inter> {..<i}" by (auto simp: lessThan_Suc)
    ultimately show ?thesis using r k by (cases free_flag) simp_all
  qed
qed

lemma held_empty_npages: "smc_inv smc \<Longrightarrow> held_pages smc = {} \<Longrightarrow> sc_npages smc = 0"
  using npages_card by fastforce

lemma smc_inv_cong:
  assumes "sc_pdata s' = sc_pdata s" "sc_np_max s' = sc_np_max s" "sc_top s' = sc_top s" "sc_npages s' = sc_npages s"
  shows "smc_inv s' = smc_inv s" and "held_pages s' = held_pages s"
  using assms by (simp_all add: smc_inv_def held_pages_def)

lemma held_prune: "smc_inv smc \<Longrightarrow> held_pages smc = {} \<Longrightarrow> held_pages (smcPrune smc) = {}"
proof -
  assume inv: "smc_inv smc" and e: "held_pages smc = {}"
  have "int (card (held_pages (smcPrune smc))) = sc_npages (smcPrune smc)"
    using npages_card [OF smc_inv_smcPrune [OF inv]] by simp
  also have "\<dots> = 0" using smcPrune_pdata(3) [of smc] inv held_empty_npages [OF inv e] by (simp add: smc_inv_def)
  finally show ?thesis using npages_card [OF smc_inv_smcPrune [OF inv]] by simp
qed

lemma smStateAdd_zero_listed:
  assumes "pid \<noteq> 0"
  shows "listed (snd (smStateAdd alive pid zero_pstate t a at1)) = [pid]"
proof -
  have "listed zero_pstate = []" by (simp add: zero_pstate_def MAX_PROCS_def eval_nat_numeral)
  moreover have "smStateClean alive zero_pstate = zero_pstate"
    by (rule smStateClean_all_alive) (simp add: all_alive_def zero_pstate_def)
  ultimately show ?thesis
    using assms by (simp add: smStateAdd_def Let_def pid_before_hole_listed first_hole_listed)
      (simp add: zero_pstate_def MAX_PROCS_def eval_nat_numeral)
qed

lemma listed_setReader: "listed (smStateSetReader pid sa r) = listed sa"
proof -
  have "map st_pid (smStateSetReader pid sa r) = map st_pid sa"
    by (intro nth_equalityI) (auto simp: smStateSetReader_def st_modify_def nth_list_update split: option.splits)
  then show ?thesis by (simp add: listed_def)
qed

lemma smcMutexInit_ok: "pe_sem_ok env \<Longrightarrow> \<exists>w'. smcMutexInit env w = Some w' \<and> w_sem_init w' (pe_pid env)"
  by (cases "w_sem_init w (pe_pid env)") (simp_all add: smcMutexInit_def)

lemma open_finish_result:
  assumes "smcMutexInit env w = Some w'"
  shows "\<exists>c'. open_finish env w caches cfg reader sid c = Some (w', caches(sid := Some c'), Some sid)
    \<and> sc_nattached c' = sc_nattached c + 1 \<and> sc_pstate c' = smStateSetReader (pe_pid env) (sc_pstate c) reader
    \<and> sc_pdata c' = sc_pdata c \<and> sc_npages c' = sc_npages c \<and> sc_top c' = sc_top c \<and> sc_np_max c' = sc_np_max c
    \<and> sc_mem_allocated c' = sc_mem_allocated c \<and> sc_mem_avail c' = sc_mem_avail c \<and> sc_sysConfig c' = sc_sysConfig c"
proof -
  let ?c1 = "c\<lparr>sc_nattached := sc_nattached c + 1, sc_pstate := smStateSetReader (pe_pid env) (sc_pstate c) reader\<rparr>"
  let ?c2 = "if sc_nattached ?c1 = 1 \<and> \<not> sc_vm_locked ?c1 \<and> pe_root env \<and> pe_mlock env
      then ?c1\<lparr>sc_vm_locked := True\<rparr> else ?c1"
  have "open_finish env w caches cfg reader sid c
      = Some (w', caches(sid := Some (?c2\<lparr>sc_debug := cfg_debug cfg\<rparr>)), Some sid)"
    unfolding open_finish_def Let_def assms option.case ..
  then show ?thesis by (intro exI [of _ "?c2\<lparr>sc_debug := cfg_debug cfg\<rparr>"]) simp
qed

subsection \<open>Properties\<close>

text \<open>Initialising.  On a cache that satisfies its invariant, with lock file names that fit
  the buffers, \<open>smcInitialize\<close> succeeds and leaves a cache that satisfies the invariant, holds
  no page and has its file name attributes reset.\<close>

theorem smcInitialize_empties:
  assumes inv: "smc_inv smc" and short: "\<forall>p \<in> set (sc_pdata smc). length (pg_lockFile p) < 128"
  shows "\<exists>w' smc'. smcInitialize env w (Some smc) = Some (OK, w', Some smc') \<and> smc_inv smc' \<and> held_pages smc' = {}
    \<and> sc_npages smc' = 0 \<and> smcGetSeqNo smc' = 0 \<and> smcGetDir smc' = DEF_DIRPATH \<and> smcGetFRoot smc' = DEF_FROOT"
proof -
  let ?s = "smc\<lparr>sc_pstate := smStateClean (pe_alive env) (sc_pstate smc)\<rparr>"
  have inv': "smc_inv ?s" using inv smc_inv_cong(1) [of ?s smc] by simp
  obtain w' s' where l: "init_loop env 0 w ?s = Some (w', s')" using init_loop_returns [OF inv', of env 0 w] short by auto
  have s': "smc_inv s'" "held_pages s' = {}" using init_loop_result [OF l inv'] by auto
  let ?r = "(smcPrune s')\<lparr>sc_seqno := 0, sc_dirpath := DEF_DIRPATH, sc_froot := DEF_FROOT\<rparr>"
  have "smc_inv ?r" "held_pages ?r = {}"
    using smc_inv_smcPrune [OF s'(1)] held_prune [OF s'] smc_inv_cong [of ?r "smcPrune s'"] by simp_all
  then show ?thesis
    using l held_empty_npages [of ?r] by (simp add: smcInitialize_def smcGetSeqNo_def smcGetDir_def smcGetFRoot_def)
qed

text \<open>Closing.  \<open>smcClose\<close> takes the caller off the count of attached processes and keeps
  the invariant.  When it is asked to free the cache it releases every page and returns
  null; otherwise every page stays and the pointer is returned.\<close>

theorem smcClose_releases:
  assumes inv: "smc_inv smc" and r: "smcClose env w (Some smc) free_flag = Some (w', smc', ok)"
  shows "\<exists>s. smc' = Some s \<and> smc_inv s \<and> sc_nattached s = sc_nattached smc - 1 \<and> ok = (\<not> free_flag)
    \<and> (free_flag \<longrightarrow> held_pages s = {} \<and> sc_npages s = 0) \<and> (\<not> free_flag \<longrightarrow> held_pages s = held_pages smc)"
proof -
  obtain w1 s1 where l: "close_loop env 0 free_flag w smc = Some (w1, s1)"
    using r by (auto simp: smcClose_def split: option.splits)
  note c = close_loop_result [OF l inv]
  obtain s where s: "smc' = Some s" "ok = (\<not> free_flag)" "sc_nattached s = sc_nattached s1 - 1"
      "sc_pdata s = sc_pdata s1" "sc_np_max s = sc_np_max s1" "sc_top s = sc_top s1" "sc_npages s = sc_npages s1"
    using r l by (auto simp: smcClose_def Let_def split: option.splits if_splits)
  then show ?thesis using c smc_inv_cong [of s s1] held_empty_npages [of s] by auto
qed

text \<open>C17.  A new cache.  When the lock file is new and the kernel creates and maps the segment,
  \<open>smcOpen\<close> puts an empty cache that satisfies the invariant in it, with the caller as its only
  process, at the mapped address and with the interest the configuration asked for.\<close>

theorem smcOpen_creates:
  assumes parse: "smParseConfig cenv config zero_config = Some (st, cfg0, reader)"
    and init: "smUtilInitCache (pe_os env) (getuid cenv) cfg0 = Some (key, True, cfg, evs)" "key \<noteq> 0"
    and attach: "smUtilAttach (pe_os env) key (cfg_cache_path cfg) (word_of_int (cfg_cache_size cfg)) 1 = (a, sid, evs2)"
      "a \<noteq> 0"
    and proc: "pe_pid env \<noteq> 0" "pe_sem_ok env"
  shows "\<exists>w' c. smcOpen env cenv w caches config = Some (w', caches(sid := Some c), Some sid) \<and> smc_inv c
    \<and> held_pages c = {} \<and> sc_nattached c = 1 \<and> listed (sc_pstate c) = [pe_pid env] \<and> smc_addr env c = a
    \<and> smStateGetReader (pe_pid env) (sc_pstate c) = reader \<and> w_sem_init w' (pe_pid env)"
proof -
  have ms: "cfg_max_segs cfg = MAX_SEGS"
    using smParseConfig_ok [OF parse] init(1) by (auto simp: cfg_ok_def smUtilInitCache_def Let_def split: if_splits)
  let ?w1 = "run_events (pe_pid env) evs w"
  let ?c0 = "new_cache cenv key cfg (pe_clock env (w_ticks ?w1))"
  let ?w2 = "run_events (pe_pid env) evs2 (?w1\<lparr>w_ticks := Suc (w_ticks ?w1)\<rparr>)"
  let ?sa = "snd (smStateAdd (pe_alive env) (pe_pid env) zero_pstate (pe_clock env (w_ticks ?w2)) a 1)"
  let ?c1 = "?c0\<lparr>sc_cache_addr := a, sc_fd := sid, sc_shmid := sid, sc_pstate := ?sa,
      sc_sysConfig := cfg\<lparr>cfg_cache_addr := a\<rparr>\<rparr>"
  have n: "open_new env cenv ?w1 key cfg = Some (?w2\<lparr>w_ticks := Suc (w_ticks ?w2)\<rparr>, Some (sid, ?c1))"
    using attach by (simp add: open_new_def smUtilTime_def Let_def new_cache_def empty_cache_def)
  obtain e where e: "st_entry (pe_pid env) ?sa = Some e" "st_addr e = a"
    using smStateAdd_zero_pstate [OF proc(1)] by blast
  let ?w3 = "?w2\<lparr>w_ticks := Suc (w_ticks ?w2)\<rparr>"
  obtain w' where m: "smcMutexInit env ?w3 = Some w'" "w_sem_init w' (pe_pid env)"
    using smcMutexInit_ok [OF proc(2)] by blast
  obtain c where f: "open_finish env ?w3 caches cfg reader sid ?c1 = Some (w', caches(sid := Some c), Some sid)"
    and c: "sc_nattached c = 1" "sc_pstate c = smStateSetReader (pe_pid env) ?sa reader" "sc_pdata c = sc_pdata ?c0"
      "sc_np_max c = MAX_SEGS" "sc_top c = 0" "sc_npages c = 0"
    using open_finish_result [OF m(1), of caches cfg reader sid ?c1] ms by (auto simp: new_cache_def empty_cache_def)
  have "smcOpen env cenv w caches config = Some (w', caches(sid := Some c), Some sid)"
    using parse init n f by (simp add: smcOpen_def Let_def)
  moreover have "sc_pdata c = replicate (nat MAX_SEGS) zero_page"
    using c(3) by (simp add: new_cache_def empty_cache_def)
  then have "smc_inv c \<and> held_pages c = {}"
    using c(4-6) smc_inv_cong [of c sample_cache] by simp
  moreover have "smc_addr env c = a" "smStateGetReader (pe_pid env) (sc_pstate c) = reader"
    using e c(2) by (simp_all add: smc_addr_def st_getter_defs)
  moreover have "listed (sc_pstate c) = [pe_pid env]"
    using c(2) smStateAdd_zero_listed [OF proc(1)] listed_setReader by simp
  ultimately show ?thesis using c(1) m(2) by blast
qed

text \<open>An existing cache.  When the lock file is not new and the kernel maps a segment with a
  cache in it, \<open>smcOpen\<close> counts the caller in and leaves the pages, the page count, the top
  and the counters of the cache as they are; the configuration asked for is not used.\<close>

theorem smcOpen_attaches:
  assumes parse: "smParseConfig cenv config zero_config = Some (st, cfg0, reader)"
    and init: "smUtilInitCache (pe_os env) (getuid cenv) cfg0 = Some (key, False, cfg, evs)" "key \<noteq> 0"
    and attach: "smUtilAttach (pe_os env) (cfg_cache_memKey cfg) (cfg_cache_path cfg)
        (word_of_int (cfg_cache_size cfg)) 0 = (a, sid, evs2)" "a \<noteq> 0"
    and cache: "caches sid = Some c" and proc: "pe_sem_ok env"
  shows "\<exists>w' c'. smcOpen env cenv w caches config = Some (w', caches(sid := Some c'), Some sid)
    \<and> sc_nattached c' = sc_nattached c + 1 \<and> sc_pdata c' = sc_pdata c \<and> sc_npages c' = sc_npages c
    \<and> sc_top c' = sc_top c \<and> sc_np_max c' = sc_np_max c \<and> sc_mem_allocated c' = sc_mem_allocated c
    \<and> sc_mem_avail c' = sc_mem_avail c \<and> sc_sysConfig c' = sc_sysConfig c
    \<and> (smc_inv c \<longrightarrow> smc_inv c')"
proof -
  let ?w1 = "run_events (pe_pid env) evs w"
  let ?w2 = "run_events (pe_pid env) evs2 ?w1"
  let ?w3 = "?w2\<lparr>w_ticks := Suc (w_ticks ?w2)\<rparr>"
  let ?c1 = "c\<lparr>sc_fd := sid, sc_shmid := sid, sc_pstate := snd (smStateAdd (pe_alive env) (pe_pid env) (sc_pstate c)
      (pe_clock env (w_ticks ?w2)) a 1)\<rparr>"
  have n: "open_existing env ?w1 caches cfg = Some (?w3, Some (sid, ?c1))"
    using attach cache by (simp add: open_existing_def smUtilTime_def Let_def)
  obtain w' where m: "smcMutexInit env ?w3 = Some w'" using smcMutexInit_ok [OF proc] by blast
  obtain c' where f: "open_finish env ?w3 caches cfg reader sid ?c1 = Some (w', caches(sid := Some c'), Some sid)"
    and c': "sc_nattached c' = sc_nattached c + 1" "sc_pdata c' = sc_pdata c" "sc_npages c' = sc_npages c"
      "sc_top c' = sc_top c" "sc_np_max c' = sc_np_max c" "sc_mem_allocated c' = sc_mem_allocated c"
      "sc_mem_avail c' = sc_mem_avail c" "sc_sysConfig c' = sc_sysConfig c"
    using open_finish_result [OF m, of caches cfg reader sid ?c1] by auto
  have "smcOpen env cenv w caches config = Some (w', caches(sid := Some c'), Some sid)"
    using parse init n f by (simp add: smcOpen_def Let_def)
  then show ?thesis using c' smc_inv_cong(1) [of c' c] by blast
qed

theorem smcInitialize_empties_witness:
  "\<exists>w' smc'. smcInitialize sample_proc sample_world (Some holed_cache) = Some (OK, w', Some smc') \<and> sc_npages smc' = 0"
proof -
  have "\<forall>p \<in> set (sc_pdata holed_cache). length (pg_lockFile p) < 128"
    unfolding holed_pdata by (simp add: sample_page_def zero_page_def)
  from smcInitialize_empties [OF holed_cache_inv this, of sample_proc sample_world] show ?thesis by blast
qed

lemma sample_close: "\<exists>w' c ok. smcClose sample_proc sample_world (Some sample_cache) True = Some (w', c, ok)"
  by (simp add: smcClose_def close_loop.simps Let_def smUtilDetach_def sample_cfg_def sample_proc_def sample_os_def ERR_def)
    blast

theorem smcClose_releases_witness:
  "\<exists>w' s. smcClose sample_proc sample_world (Some sample_cache) True = Some (w', Some s, False) \<and> sc_nattached s = 0"
proof -
  obtain w' c ok where r: "smcClose sample_proc sample_world (Some sample_cache) True = Some (w', c, ok)"
    using sample_close by blast
  then show ?thesis
    using smcClose_releases [OF sample_cache_inv r] by (auto simp: sample_cache_def)
qed

definition parsed_cfg :: sysConfig_t where
  "parsed_cfg = (parse_config_init sample_env zero_config)\<lparr>cfg_cache_size := 7000004\<rparr>"

lemma sample_parse: "smParseConfig sample_env None zero_config = Some (OK, parsed_cfg, TY_ANY)"
  by (simp add: smParseConfig_def Let_def parsed_cfg_def cache_size_for_def parse_config_init_def sample_env_def
      smSetConfigDefaults_def)

lemma parsed_path: "cfg_cache_path parsed_cfg = ''/tmp/.smc500''" "cfg_cache_size parsed_cfg = 7000004"
proof -
  have "show_int 500 = ''500''" by code_simp
  then show "cfg_cache_path parsed_cfg = ''/tmp/.smc500''" "cfg_cache_size parsed_cfg = 7000004"
    by (simp_all add: parsed_cfg_def parse_config_init_def Let_def smSetConfigDefaults_def DEF_CACHE_FILE_def sample_env_def)
qed

theorem smcOpen_creates_witness:
  "\<exists>w' c. smcOpen sample_proc sample_env sample_world (\<lambda>_. None) None = Some (w', (\<lambda>_. None)(5 := Some c), Some 5)
    \<and> smc_inv c \<and> sc_nattached c = 1 \<and> listed (sc_pstate c) = [100]"
proof -
  obtain evs where i: "smUtilInitCache (pe_os sample_proc) (getuid sample_env) parsed_cfg
      = Some (77, True, parsed_cfg\<lparr>cfg_cache_memKey := 77\<rparr>, evs)"
    by (simp add: smUtilInitCache_def Let_def parsed_path SZ_FNAME_def sample_proc_def sample_os_def)
  obtain evs2 where a: "smUtilAttach (pe_os sample_proc) 77 (cfg_cache_path (parsed_cfg\<lparr>cfg_cache_memKey := 77\<rparr>))
      (word_of_int (cfg_cache_size (parsed_cfg\<lparr>cfg_cache_memKey := 77\<rparr>))) 1 = (8192, 5, evs2)"
    by (simp add: smUtilAttach_def Let_def parsed_path sample_proc_def sample_os_def ERR_def)
  have ok: "pe_sem_ok sample_proc" by (simp add: sample_proc_def)
  show ?thesis
    using smcOpen_creates [OF sample_parse i _ a, of sample_world "\<lambda>_. None"] ok by auto
qed

theorem smcOpen_attaches_witness:
  "\<exists>w' c'. smcOpen (sample_proc\<lparr>pe_os := sample_os\<lparr>append_pos := (\<lambda>_. 300)\<rparr>\<rparr>) sample_env sample_world
      ((\<lambda>_. None)(5 := Some sample_cache)) None = Some (w', (\<lambda>_. None)(5 := Some c'), Some 5)
    \<and> sc_nattached c' = 2 \<and> smc_inv c'"
proof -
  let ?env = "sample_proc\<lparr>pe_os := sample_os\<lparr>append_pos := (\<lambda>_. 300)\<rparr>\<rparr>"
  let ?cfg = "parsed_cfg\<lparr>cfg_cache_memKey := 77\<rparr>"
  obtain evs where i: "smUtilInitCache (pe_os ?env) (getuid sample_env) parsed_cfg = Some (77, False, ?cfg, evs)"
    by (simp add: smUtilInitCache_def Let_def parsed_path SZ_FNAME_def sample_os_def)
  obtain evs2 where a: "smUtilAttach (pe_os ?env) (cfg_cache_memKey ?cfg) (cfg_cache_path ?cfg)
      (word_of_int (cfg_cache_size ?cfg)) 0 = (8192, 5, evs2)"
    by (simp add: smUtilAttach_def Let_def parsed_path sample_os_def ERR_def)
  have ok: "pe_sem_ok ?env" by (simp add: sample_proc_def)
  have n: "sc_nattached sample_cache = 1" by (simp add: sample_cache_def)
  show ?thesis
    using smcOpen_attaches [OF sample_parse i _ a, of "(\<lambda>_. None)(5 := Some sample_cache)" sample_cache sample_world] ok
    by (auto simp: n)
qed

end
