(* ===== verification/DcaChannel.thy ===== *)
theory DcaChannel
  imports Prelude
begin

section \<open>Messages over a socket (lib/dcalib/dcaRecv.c, lib/dcalib/dcaSend.c)\<close>

text \<open>
  A socket delivers a stream of bytes in pieces.  What one round of the loop of \<open>dcaRecv\<close> meets is a
  \<open>rd_event\<close>: \<open>select\<close> fails, or reports another descriptor, or \<open>read\<close> fails, with \<open>EAGAIN\<close> or another
  error, or returns at most \<open>n\<close> of the bytes that are there; \<open>read\<close> returns 0 at the end of the stream.
  A round of \<open>chan_write\<close> is a \<open>wr_event\<close>.  When the events are used up the call waits, which is \<open>None\<close>,
  as is a read past the end of the caller's buffer of \<open>room\<close> bytes.
\<close>

definition DCA_ERR :: int where "DCA_ERR = -2"
definition EOF :: int where "EOF = -1"

datatype rd_event = SelectError | OtherReady | ReadAgain | ReadError | ReadBytes nat

fun recv_loop :: "rd_event list \<Rightarrow> nat \<Rightarrow> string \<Rightarrow> nat \<Rightarrow> string \<Rightarrow> (int \<times> string \<times> string \<times> rd_event list) option" where
  "recv_loop [] room inp curlen got = None"
| "recv_loop (ReadError # es) room inp curlen got = Some (DCA_ERR, got, inp, es)"
| "recv_loop (ReadBytes n # es) room inp curlen got =
     (let k = min n (min curlen (length inp)) in
      if room < length got + k then None
      else if k = 0 then Some (EOF, got, inp, es)
      else if 0 < curlen - k then recv_loop es room (drop k inp) (curlen - k) (got @ take k inp)
      else Some (int (length got + k), got @ take k inp, drop k inp, es))"
| "recv_loop (_ # es) room inp curlen got =
     (if 0 < curlen then recv_loop es room inp curlen got else Some (int (length got), got, inp, es))"

text \<open>The result, the bytes received, the rest of the stream and of the events.  A negative size would
  be a huge one for \<open>read\<close>.\<close>

definition dcaRecv :: "rd_event list \<Rightarrow> nat \<Rightarrow> string \<Rightarrow> int \<Rightarrow> (int \<times> string \<times> string \<times> rd_event list) option" where
  "dcaRecv es room inp sz = (if sz < 0 then None else recv_loop es room inp (nat sz) [])"

datatype wr_event = Wrote nat | WriteInterrupted | WriteFailed

fun write_loop :: "wr_event list \<Rightarrow> string \<Rightarrow> string \<Rightarrow> (int \<times> string) option" where
  "write_loop es [] out = Some (int (length out), out)"
| "write_loop [] ptr out = None"
| "write_loop (e # es) ptr out =
     (case e of
        Wrote n \<Rightarrow> if n = 0 then Some (-1, out) else write_loop es (drop n ptr) (out @ take n ptr)
      | WriteInterrupted \<Rightarrow> write_loop es ptr out
      | WriteFailed \<Rightarrow> Some (-1, out))"

definition chan_write :: "wr_event list \<Rightarrow> string \<Rightarrow> (int \<times> string) option" where
  "chan_write es buf = write_loop es buf []"

definition dcaSend :: "wr_event list \<Rightarrow> string \<Rightarrow> (int \<times> string) option" where
  "dcaSend es buf =
     map_option (\<lambda>(istat, out). (if istat < 0 \<or> istat \<noteq> int (length buf) then DCA_ERR else istat, out)) (chan_write es buf)"

subsection \<open>What arrives\<close>

lemma recv_loop_stream:
  assumes "recv_loop es room inp curlen got = Some (r, got', inp', es')"
  shows "got' @ inp' = got @ inp \<and> length got' \<le> max room (length got) \<and> length got' \<le> length got + curlen
    \<and> (r = DCA_ERR \<or> r = EOF \<or> r = int (length got') \<and> length got' = length got + curlen)"
  using assms
proof (induction es room inp curlen got rule: recv_loop.induct)
  case (3 n es room inp curlen got)
  define k where "k = min n (min curlen (length inp))"
  have k: "k \<le> curlen" "k \<le> length inp" by (simp_all add: k_def)
  have p: "(if room < length got + k then None else if k = 0 then Some (EOF, got, inp, es)
      else if 0 < curlen - k then recv_loop es room (drop k inp) (curlen - k) (got @ take k inp)
      else Some (int (length got + k), got @ take k inp, drop k inp, es)) = Some (r, got', inp', es')"
    using "3.prems" unfolding recv_loop.simps Let_def k_def [symmetric] .
  then have nr: "\<not> room < length got + k" by (auto split: if_splits)
  consider "k = 0" | "k \<noteq> 0" "0 < curlen - k" | "k \<noteq> 0" "curlen - k = 0" by linarith
  then show ?case
  proof cases
    case 1
    then show ?thesis using p nr by auto
  next
    case 2
    then have "recv_loop es room (drop k inp) (curlen - k) (got @ take k inp) = Some (r, got', inp', es')" using p nr by simp
    then show ?thesis using "3.IH" [OF k_def nr 2] 2 nr k by auto
  next
    case 3
    then have "r = int (length got + k)" "got' = got @ take k inp" "inp' = drop k inp" using p nr by auto
    then show ?thesis using 3 nr k by auto
  qed
qed (auto split: if_splits)

text \<open>With as many rounds that deliver something as there are bytes to come the loop ends.\<close>

definition reads :: "rd_event list \<Rightarrow> nat" where
  "reads es = length (filter (\<lambda>e. case e of ReadBytes n \<Rightarrow> 0 < n | _ \<Rightarrow> False) es)"

definition ev_good :: "rd_event \<Rightarrow> bool" where
  "ev_good e \<longleftrightarrow> e \<noteq> ReadError \<and> e \<noteq> ReadBytes 0"

lemma recv_loop_returns:
  assumes "\<forall>e \<in> set es. ev_good e" "0 < curlen" "curlen \<le> length inp" "curlen \<le> reads es" "length got + curlen \<le> room"
  shows "\<exists>es'. recv_loop es room inp curlen got = Some (int (length got + curlen), got @ take curlen inp, drop curlen inp, es')
    \<and> set es' \<subseteq> set es \<and> reads es \<le> reads es' + curlen"
  using assms
proof (induction es arbitrary: inp curlen got)
  case Nil
  then show ?case by (simp add: reads_def)
next
  case (Cons e es)
  show ?case
  proof (cases "\<exists>n. e = ReadBytes n")
    case False
    then have "recv_loop (e # es) room inp curlen got = recv_loop es room inp curlen got"
      using Cons.prems(1,2) by (cases e) (auto simp: ev_good_def)
    moreover have re: "reads (e # es) = reads es" using False by (cases e) (auto simp: reads_def)
    moreover obtain es' where "recv_loop es room inp curlen got = Some (int (length got + curlen), got @ take curlen inp, drop curlen inp, es')"
        "set es' \<subseteq> set es" "reads es \<le> reads es' + curlen"
      using Cons.IH [of curlen inp got] Cons.prems re by auto
    ultimately show ?thesis by auto
  next
    case True
    then obtain n where e: "e = ReadBytes n" "0 < n" using Cons.prems(1) by (auto simp: ev_good_def)
    define k where "k = min n (min curlen (length inp))"
    have k: "0 < k" "k \<le> curlen" "k \<le> length inp" using e(2) Cons.prems(2,3) by (auto simp: k_def)
    have step: "recv_loop (e # es) room inp curlen got =
        (if 0 < curlen - k then recv_loop es room (drop k inp) (curlen - k) (got @ take k inp)
         else Some (int (length got + k), got @ take k inp, drop k inp, es))"
      unfolding e recv_loop.simps Let_def k_def [symmetric] using k Cons.prems(5) by simp
    show ?thesis
    proof (cases "0 < curlen - k")
      case True
      have re: "reads (e # es) = Suc (reads es)" using e by (simp add: reads_def)
      have tk: "take k inp @ take (curlen - k) (drop k inp) = take curlen inp"
        using k take_add [of k "curlen - k" inp] by simp
      obtain es' where "recv_loop es room (drop k inp) (curlen - k) (got @ take k inp)
          = Some (int (length (got @ take k inp) + (curlen - k)), (got @ take k inp) @ take (curlen - k) (drop k inp), drop (curlen - k) (drop k inp), es')"
          "set es' \<subseteq> set es" "reads es \<le> reads es' + (curlen - k)"
      proof -
        have "\<forall>e \<in> set es. ev_good e" "curlen - k \<le> length (drop k inp)" "curlen - k \<le> reads es" "length (got @ take k inp) + (curlen - k) \<le> room"
          using Cons.prems k re by auto
        then show ?thesis using Cons.IH [of "curlen - k" "drop k inp" "got @ take k inp"] True that by blast
      qed
      then show ?thesis using step True k tk re by auto
    next
      case False
      have "reads (e # es) = Suc (reads es)" using e by (simp add: reads_def)
      then show ?thesis using step k False by auto
    qed
  qed
qed

lemma write_loop_all:
  assumes "write_loop es ptr out = Some (r, out')"
  shows "\<exists>s t. ptr = s @ t \<and> out' = out @ s \<and> (r = -1 \<or> r = int (length out') \<and> t = [])"
  using assms
proof (induction es ptr out rule: write_loop.induct)
  case (3 e es v va out)
  show ?case
  proof (cases e)
    case (Wrote n)
    show ?thesis
    proof (cases "n = 0")
      case True
      then show ?thesis using "3.prems" Wrote by auto
    next
      case False
      then have "write_loop es (drop n (v # va)) (out @ take n (v # va)) = Some (r, out')" using "3.prems" Wrote by simp
      then obtain s t where st: "drop n (v # va) = s @ t" "out' = (out @ take n (v # va)) @ s" "r = -1 \<or> r = int (length out') \<and> t = []"
        using "3.IH"(1) [OF Wrote False] by blast
      have "v # va = take n (v # va) @ drop n (v # va)" by (rule append_take_drop_id [symmetric])
      then have "v # va = (take n (v # va) @ s) @ t" unfolding st(1) by (simp only: append.assoc)
      moreover have "out' = out @ (take n (v # va) @ s)" using st(2) by (simp only: append.assoc)
      ultimately show ?thesis using st(3) by blast
    qed
  next
    case WriteInterrupted
    then show ?thesis using "3.IH"(2) "3.prems" by simp
  next
    case WriteFailed
    then show ?thesis using "3.prems" by auto
  qed
qed auto

text \<open>C25.  A message that \<open>dcaSend\<close> reports as sent is what \<open>dcaRecv\<close> receives, however the sender's writes
  were cut up or interrupted and however the stream, in which \<open>before\<close> is already gone, is cut up
  again by the receiver's reads, provided the receiver gets enough rounds without an error; the
  bytes behind the message stay for the next call.\<close>

theorem dca_transfer_exact:
  assumes "dcaSend ws msg = Some (int (length msg), out)" "msg \<noteq> []"
    and "\<forall>e \<in> set rs. ev_good e" "length msg \<le> reads rs" "length msg \<le> room"
  shows "\<exists>rs'. dcaRecv rs room (out @ later) (int (length msg)) = Some (int (length msg), msg, later, rs')"
proof -
  obtain r o' where w: "write_loop ws msg [] = Some (r, o')" using assms(1) by (auto simp: dcaSend_def chan_write_def)
  have "o' = out" "r \<noteq> -1" using assms(1) unfolding dcaSend_def chan_write_def w by (auto simp: DCA_ERR_def split: if_splits)
  moreover obtain s t where "msg = s @ t" "o' = [] @ s" "r = -1 \<or> r = int (length o') \<and> t = []" using write_loop_all [OF w] by blast
  ultimately have "out = msg" by simp
  then show ?thesis using recv_loop_returns [of rs "length msg" "out @ later" "[]" room] assms(2-5) by (auto simp: dcaRecv_def)
qed

theorem dca_transfer_exact_witness:
  "\<exists>rs'. dcaRecv [SelectError, ReadBytes 2, ReadAgain, ReadBytes 9, ReadBytes 9, ReadBytes 1] 4 (''abcd'' @ ''ef'') 4 = Some (4, ''abcd'', ''ef'', rs')"
  using dca_transfer_exact [of "[WriteInterrupted, Wrote 3, Wrote 5]" "''abcd''" "''abcd''"
      "[SelectError, ReadBytes 2, ReadAgain, ReadBytes 9, ReadBytes 9, ReadBytes 1]" 4 "''ef''"]
  by (simp add: dcaSend_def chan_write_def ev_good_def reads_def)

text \<open>Whatever a call of \<open>dcaRecv\<close> meets, no byte of the stream is lost or taken twice: what it has
  stored and what is left of the stream make up the stream before, and a result that is not an
  error is the size asked for, all of it stored, inside the caller's buffer.\<close>

lemma dcaRecv_stream:
  assumes "dcaRecv es room inp sz = Some (r, got, inp', es')"
  shows "got @ inp' = inp \<and> length got \<le> room \<and> (r = DCA_ERR \<or> r = EOF \<or> r = sz \<and> int (length got) = sz)"
proof -
  have "0 \<le> sz" "recv_loop es room inp (nat sz) [] = Some (r, got, inp', es')" using assms by (auto simp: dcaRecv_def split: if_splits)
  then show ?thesis using recv_loop_stream [of es room inp "nat sz" "[]" r got inp' es'] by auto
qed

text \<open>A message of no bytes is reported as the end of the stream.\<close>

lemma dcaRecv_empty: "dcaRecv (ReadBytes n # es) room inp 0 = Some (EOF, [], inp, es)"
  by (simp add: dcaRecv_def)

text \<open>Without errors and with enough bytes in the stream a call that returns has not stopped early;
  with a buffer that is too small it therefore never returns.\<close>

lemma recv_loop_good:
  assumes "recv_loop es room inp curlen got = Some (r, got', inp', es')" "\<forall>e \<in> set es. ev_good e" "0 < curlen" "curlen \<le> length inp"
  shows "length got' = length got + curlen"
  using assms
proof (induction es arbitrary: inp curlen got)
  case (Cons e es)
  show ?case
  proof (cases "\<exists>n. e = ReadBytes n")
    case False
    then have "recv_loop (e # es) room inp curlen got = recv_loop es room inp curlen got"
      using Cons.prems(2,3) by (cases e) (auto simp: ev_good_def)
    then show ?thesis using Cons by simp
  next
    case True
    then obtain n where e: "e = ReadBytes n" "0 < n" using Cons.prems(2) by (auto simp: ev_good_def)
    define k where "k = min n (min curlen (length inp))"
    have k: "0 < k" "k \<le> curlen" "k \<le> length inp" using e(2) Cons.prems(3,4) by (auto simp: k_def)
    have step: "(if room < length got + k then None
        else if 0 < curlen - k then recv_loop es room (drop k inp) (curlen - k) (got @ take k inp)
         else Some (int (length got + k), got @ take k inp, drop k inp, es)) = Some (r, got', inp', es')"
      using Cons.prems(1) k unfolding e recv_loop.simps Let_def k_def [symmetric] by (simp split: if_splits)
    show ?thesis
    proof (cases "0 < curlen - k")
      case True
      then have "recv_loop es room (drop k inp) (curlen - k) (got @ take k inp) = Some (r, got', inp', es')" using step by (simp split: if_splits)
      then show ?thesis using Cons.IH [of "drop k inp" "curlen - k" "got @ take k inp"] Cons.prems k True by simp
    next
      case False
      then show ?thesis using step k by (auto split: if_splits)
    qed
  qed
qed simp

lemma dcaRecv_overrun:
  assumes "\<forall>e \<in> set es. ev_good e" "int room < sz" "sz \<le> int (length inp)"
  shows "dcaRecv es room inp sz = None"
proof (cases "dcaRecv es room inp sz")
  case (Some x)
  obtain r got inp' es' where x: "x = (r, got, inp', es')" by (cases x) auto
  have "recv_loop es room inp (nat sz) [] = Some (r, got, inp', es')" using Some assms(2) x by (simp add: dcaRecv_def split: if_splits)
  then have "length got = nat sz" using recv_loop_good [of es room inp "nat sz" "[]" r got inp' es'] assms by simp
  moreover have "length got \<le> room" using dcaRecv_stream Some x by blast
  ultimately show ?thesis using assms(2) by simp
qed

lemma dcaRecv_returns:
  assumes "\<forall>e \<in> set es. ev_good e" "0 < length msg" "length msg \<le> reads es" "length msg \<le> room"
  shows "\<exists>es'. dcaRecv es room (msg @ later) (int (length msg)) = Some (int (length msg), msg, later, es')
    \<and> (\<forall>e \<in> set es'. ev_good e) \<and> reads es \<le> reads es' + length msg"
  using recv_loop_returns [of es "length msg" "msg @ later" "[]" room] assms by (fastforce simp: dcaRecv_def)

text \<open>With as many writes that take something as there are bytes the whole message is sent.\<close>

definition writes :: "wr_event list \<Rightarrow> nat" where
  "writes es = length (filter (\<lambda>e. e \<noteq> WriteInterrupted) es)"

definition wr_good :: "wr_event \<Rightarrow> bool" where
  "wr_good e \<longleftrightarrow> e \<noteq> WriteFailed \<and> e \<noteq> Wrote 0"

lemma write_loop_complete:
  assumes "\<forall>e \<in> set es. wr_good e" "length ptr \<le> writes es"
  shows "write_loop es ptr out = Some (int (length out + length ptr), out @ ptr)"
  using assms
proof (induction es ptr out rule: write_loop.induct)
  case (3 e es v va out)
  show ?case
  proof (cases e)
    case (Wrote n)
    then obtain k where n: "n = Suc k" using "3.prems"(1) by (cases n) (auto simp: wr_good_def)
    have "length (drop n (v # va)) \<le> writes es" using "3.prems"(2) Wrote n by (simp add: writes_def)
    then have "write_loop es (drop n (v # va)) (out @ take n (v # va))
        = Some (int (length (out @ take n (v # va)) + length (drop n (v # va))), (out @ take n (v # va)) @ drop n (v # va))"
      using "3.IH"(1) [OF Wrote] n "3.prems"(1) by simp
    moreover have "length (out @ take n (v # va)) + length (drop n (v # va)) = length out + length (v # va)" by simp
    moreover have "(out @ take n (v # va)) @ drop n (v # va) = out @ (v # va)" by simp
    ultimately show ?thesis using Wrote n by simp
  next
    case WriteInterrupted
    then show ?thesis using "3.IH"(2) "3.prems" by (simp add: writes_def)
  next
    case WriteFailed
    then show ?thesis using "3.prems"(1) by (simp add: wr_good_def)
  qed
qed (simp_all add: writes_def)

lemma dcaSend_complete:
  assumes "\<forall>e \<in> set es. wr_good e" "length buf \<le> writes es"
  shows "dcaSend es buf = Some (int (length buf), buf)"
  using write_loop_complete [OF assms, of "[]"] by (simp add: dcaSend_def chan_write_def)

end
