(* ===== verification/Collector.thy ===== *)
theory Collector
  imports SmOpen DcaChannel "HOL-Library.Monad_Syntax"
begin

section \<open>The collector (collector/colPanHandler.c)\<close>

text \<open>
  The collector receives the messages of a PAN from a socket and puts meta-data and pixels into pages
  of the cache.  \<open>col_env\<close> is what the handler finds around it: the calling process, the other
  processes of the cache, how the compiler lays out the structures that are received byte by byte
  (a structure is overlaid with the bytes that arrived), and the identifier of the collector.
  \<open>col_state\<close> holds the world, the cache, the data areas behind the headers of the shared segments, the socket,
  the global page number, the local variables of the handler and the messages it has sent, to the
  PAN and to the supervisor.  \<open>None\<close> is a fault, a write outside a local buffer, or waiting for ever.
  Memory for the block of a meta-data message is granted, and a call of \<open>semop\<close> that returns has succeeded.
\<close>

unbundle bit_operations_syntax

definition SZMSG :: nat where "SZMSG = 120"

definition DCA_OPEN :: "32 word" where "DCA_OPEN = 1"
definition DCA_CLOSE :: "32 word" where "DCA_CLOSE = 2"
definition DCA_INIT :: "32 word" where "DCA_INIT = 16"
definition DCA_FAIL :: "32 word" where "DCA_FAIL = 32"
definition DCA_NOOP :: "32 word" where "DCA_NOOP = 64"
definition DCA_SET :: "32 word" where "DCA_SET = 256"
definition DCA_CONNECT :: "32 word" where "DCA_CONNECT = 2048"
definition DCA_EXP :: "32 word" where "DCA_EXP = 8192"
definition DCA_META :: "32 word" where "DCA_META = 16384"
definition DCA_PIXEL :: "32 word" where "DCA_PIXEL = 32768"
definition DCA_FP_CONFIG :: "32 word" where "DCA_FP_CONFIG = 131072"
definition DCA_EXP_OBSID :: "32 word" where "DCA_EXP_OBSID = 2097152"
definition DCA_DIRECTORY :: "32 word" where "DCA_DIRECTORY = 4194304"
definition DCA_FNAME :: "32 word" where "DCA_FNAME = 8388608"
definition DCA_ACK :: "32 word" where "DCA_ACK = 2"
definition DCA_COLLECTOR :: "32 word" where "DCA_COLLECTOR = 32"

record msgHeader =
  mh_type :: "32 word"
  mh_whoami :: "32 word"
  mh_expnum :: cdouble
  mh_obset :: string

record col_env =
  ce_env :: proc_env
  ce_others :: "nat \<Rightarrow> smCache_t \<Rightarrow> smCache_t"
  ce_hdr :: "string \<Rightarrow> msgHeader" \<comment> \<open>the header at the start of a message\<close>
  ce_int :: "string \<Rightarrow> int" \<comment> \<open>the \<open>int\<close> in the first four bytes\<close>
  ce_fp :: "string \<Rightarrow> fpConfig_t \<Rightarrow> fpConfig_t" \<comment> \<open>overlay with the bytes received\<close>
  ce_md :: "string \<Rightarrow> mdConfig_t \<Rightarrow> mdConfig_t"
  ce_size_fp :: nat
  ce_size_md :: nat
  ce_colID :: string
  ce_temp :: bool \<comment> \<open>\<open>tempCollector\<close>\<close>

record col_state =
  co_w :: world
  co_smc :: "smCache_t option"
  co_mem :: "int \<Rightarrow> string" \<comment> \<open>by the identifier of the segment\<close>
  co_in :: string
  co_ev :: "rd_event list"
  co_expPageNum :: int
  co_buf :: string
  co_fp :: fpConfig_t
  co_md :: mdConfig_t
  co_expID :: cdouble
  co_obset :: string
  co_total :: xlong
  co_reply :: "msgHeader list"
  co_sent :: "(string \<times> string) list"

datatype col_result = Go col_state | Ret col_state | Exit col_state

subsection \<open>Operations\<close>

definition col_recv :: "nat \<Rightarrow> int \<Rightarrow> col_state \<Rightarrow> (int \<times> string \<times> col_state) option" where
  "col_recv room sz st =
     (case dcaRecv (co_ev st) room (co_in st) sz of None \<Rightarrow> None
      | Some (r, got, inp, es) \<Rightarrow> Some (r, got, st\<lparr>co_in := inp, co_ev := es\<rparr>))"

definition col_send :: "string \<Rightarrow> string \<Rightarrow> col_state \<Rightarrow> col_state" where
  "col_send kind text st = st\<lparr>co_sent := co_sent st @ [(kind, text)]\<rparr>"

definition page_at :: "nat \<Rightarrow> smcPage_t \<Rightarrow> smCache_t \<Rightarrow> smCache_t" where
  "page_at i p smc = smc\<lparr>sc_pdata := (sc_pdata smc)[i := p]\<rparr>"

text \<open>The characters of a buffer before its terminator.\<close>

definition buf_str :: "string \<Rightarrow> string" where
  "buf_str b = takeWhile (\<lambda>c. c \<noteq> NUL) b"

text \<open>Bytes received or copied to the data area of a page, which lies behind the header of the segment that is
  mapped there; what was behind them stays.\<close>

definition put_bytes :: "proc_env \<Rightarrow> addr_t \<Rightarrow> string \<Rightarrow> col_state \<Rightarrow> col_state option" where
  "put_bytes env a s st =
     (case w_map (co_w st) (pe_pid env) (a - pe_sizeof_seg env - 1) of None \<Rightarrow> None
      | Some sid \<Rightarrow> Some (st\<lparr>co_mem := (co_mem st)(sid := s @ drop (length s) (co_mem st sid))\<rparr>))"

text \<open>
  The page for a message: its attributes are set in the order of the source, which differs between
  meta-data and pixels.
\<close>

definition set_meta_page :: "col_env \<Rightarrow> col_state \<Rightarrow> world \<Rightarrow> smcPage_t \<Rightarrow> (world \<times> smcPage_t) option" where
  "set_meta_page ce st w p =
     do { w1 \<leftarrow> smcSetMDConfig (ce_env ce) w p (co_md st);
          w2 \<leftarrow> smcSetFPConfig (ce_env ce) w1 p (co_fp st);
          (w3, p1) \<leftarrow> smcSetExpID (ce_env ce) w2 p (co_expID st);
          w4 \<leftarrow> smcSetObsetID (ce_env ce) w3 p1 (buf_str (co_obset st));
          (w5, p2) \<leftarrow> smcSetColID (ce_env ce) w4 p1 (ce_colID ce);
          w6 \<leftarrow> smcSetExpPageNum (ce_env ce) w5 p2 (co_expPageNum st);
          Some (w6, p2) }"

definition set_pixel_page :: "col_env \<Rightarrow> col_state \<Rightarrow> world \<Rightarrow> smcPage_t \<Rightarrow> (world \<times> smcPage_t) option" where
  "set_pixel_page ce st w p =
     do { (w1, p1) \<leftarrow> smcSetExpID (ce_env ce) w p (co_expID st);
          w2 \<leftarrow> smcSetFPConfig (ce_env ce) w1 p1 (co_fp st);
          w3 \<leftarrow> smcSetObsetID (ce_env ce) w2 p1 (buf_str (co_obset st));
          (w4, p2) \<leftarrow> smcSetColID (ce_env ce) w3 p1 (ce_colID ce);
          w5 \<leftarrow> smcSetExpPageNum (ce_env ce) w4 p2 (co_expPageNum st);
          Some (w5, p2) }"

text \<open>The end of both: unlock and detach the page, release the lock.\<close>

definition finish_page :: "col_env \<Rightarrow> smCache_t \<Rightarrow> nat \<Rightarrow> smcPage_t \<Rightarrow> col_state \<Rightarrow> col_result option" where
  "finish_page ce smc i p st =
     (case smcUnlock (ce_env ce) (co_w st) p of (w1, p1) \<Rightarrow>
        do { (w2, smc1) \<leftarrow> smcDetach (ce_env ce) w1 (page_at i p1 smc) i False;
             w3 \<leftarrow> smcMutexOff (ce_env ce) w2;
             Some (Go (st\<lparr>co_w := w3, co_smc := Some smc1\<rparr>)) })"

definition store_meta :: "col_env \<Rightarrow> int \<Rightarrow> string \<Rightarrow> col_state \<Rightarrow> col_result option" where
  "store_meta ce blksize buff st =
     do { w1 \<leftarrow> smcMutexOn (ce_env ce) (co_w st);
          (w2, smc, pg) \<leftarrow> smcGetPage (ce_env ce) (ce_others ce) w1 (co_smc st) TY_META
                            (uint (word_of_int blksize :: xlong)) True True;
          (case (smc, pg) of
             (Some c, Some i) \<Rightarrow>
               do { (w3, p) \<leftarrow> set_meta_page ce st w2 (sc_pdata c ! i);
                    (let hdr = smcGetPageData (ce_env ce) (Some p);
                         st1 = st\<lparr>co_w := w3, co_expPageNum := co_expPageNum st + 1\<rparr>
                     in if hdr = 0 then None
                        else do { st2 \<leftarrow> put_bytes (ce_env ce) hdr buff st1; finish_page ce c i p st2 }) }
           | _ \<Rightarrow> Some (Ret (st\<lparr>co_w := w2, co_smc := smc\<rparr>))) }"

definition col_meta :: "col_env \<Rightarrow> col_state \<Rightarrow> col_result option" where
  "col_meta ce st0 =
     do { (r0, got0, st1) \<leftarrow> col_recv SZMSG (int SZMSG) st0;
          (let st2 = st1\<lparr>co_buf := got0 @ drop (length got0) (co_buf st1)\<rparr>;
               blksize = ce_int ce (co_buf st2);
               st3 = col_send ''status'' ''Reading metadata...'' st2
           in do { (r1, got1, st4) \<leftarrow> col_recv (nat blksize) blksize st3;
                   (r2, got2, st5) \<leftarrow> col_recv (ce_size_md ce) (int (ce_size_md ce)) st4;
                   store_meta ce blksize (got1 @ replicate (nat blksize - length got1) NUL)
                     (st5\<lparr>co_md := ce_md ce got2 (co_md st5), co_total := co_total st5 + word_of_int blksize\<rparr>) }) }"

text \<open>\<open>imSize\<close> is the product of three \<open>int\<close>s.  A null page is not tested here.\<close>

definition im_size :: "fpConfig_t \<Rightarrow> int" where
  "im_size fp = sint (fp_ySize fp * fp_xSize fp * 4)"

definition store_pixels :: "col_env \<Rightarrow> int \<Rightarrow> col_state \<Rightarrow> col_result option" where
  "store_pixels ce imSize st =
     do { w1 \<leftarrow> smcMutexOn (ce_env ce) (co_w st);
          (w2, smc, pg) \<leftarrow> smcGetPage (ce_env ce) (ce_others ce) w1 (co_smc st) TY_DATA
                            (uint (word_of_int imSize :: xlong)) True True;
          (case (smc, pg) of
             (Some c, Some i) \<Rightarrow>
               do { (w3, p) \<leftarrow> set_pixel_page ce st w2 (sc_pdata c ! i);
                    (let idata = smcGetPageData (ce_env ce) (Some p);
                         st1 = st\<lparr>co_w := w3, co_expPageNum := co_expPageNum st + 1\<rparr>
                     in if idata = 0 then None
                        else do { (istat, got, st2) \<leftarrow> col_recv (nat imSize) imSize st1;
                                  st3 \<leftarrow> put_bytes (ce_env ce) idata got st2;
                                  finish_page ce c i p st3 }) }
           | _ \<Rightarrow> None) }"

definition col_pixel :: "col_env \<Rightarrow> col_state \<Rightarrow> col_result option" where
  "col_pixel ce st0 =
     do { (r0, got0, st1) \<leftarrow> col_recv (ce_size_fp ce) (int (ce_size_fp ce)) st0;
          (let fp = ce_fp ce got0 (co_fp st1); imSize = im_size fp
           in store_pixels ce imSize (col_send ''status'' ''Reading Pixel data...''
                (st1\<lparr>co_fp := fp, co_total := co_total st1 + word_of_int imSize\<rparr>))) }"

definition has :: "32 word \<Rightarrow> 32 word \<Rightarrow> bool" where
  "has mtype flag \<longleftrightarrow> mtype AND flag \<noteq> 0"

text \<open>The directory and the file name are received into buffers of \<open>SZMSG\<close> bytes and read as strings; what
  was in a buffer before is not known.\<close>

definition col_directory :: "col_state \<Rightarrow> col_result option" where
  "col_directory st =
     do { (r, got, st1) \<leftarrow> col_recv SZMSG 256 st;
          c \<leftarrow> (if NUL \<in> set got then co_smc st1 else None);
          c1 \<leftarrow> smcSetDir c (buf_str got);
          Some (Go (st1\<lparr>co_smc := Some c1\<rparr>)) }"

definition col_fname :: "col_state \<Rightarrow> col_result option" where
  "col_fname st =
     do { (r, got, st1) \<leftarrow> col_recv SZMSG 256 st;
          c \<leftarrow> (if NUL \<in> set got then co_smc st1 else None);
          Some (Go (st1\<lparr>co_smc := Some (smcSetFRoot c (buf_str got))\<rparr>)) }"

text \<open>The body of the loop, for the message in \<open>co_buf\<close>.  The end of a temporary collector closes the
  cache and exits.\<close>

definition col_message :: "col_env \<Rightarrow> col_state \<Rightarrow> col_result option" where
  "col_message ce st =
     (let msgh = ce_hdr ce (co_buf st); mtype = mh_type msgh in
      if has mtype DCA_SET then
        (if has mtype DCA_FP_CONFIG then
           do { (r, got, st1) \<leftarrow> col_recv (ce_size_fp ce) (int (ce_size_fp ce)) st;
                Some (Go (st1\<lparr>co_fp := ce_fp ce got (co_fp st1)\<rparr>)) }
         else Some (Go st))
      else if has mtype DCA_NOOP then
        Some (Go (st\<lparr>co_reply := co_reply st @ [msgh\<lparr>mh_type := DCA_ACK, mh_whoami := DCA_COLLECTOR\<rparr>]\<rparr>))
      else if has mtype DCA_DIRECTORY then col_directory st
      else if has mtype DCA_FNAME then col_fname st
      else if has mtype DCA_EXP_OBSID then
        Some (Go (st\<lparr>co_expID := mh_expnum msgh, co_obset := mh_obset msgh\<rparr>))
      else if has mtype DCA_META then col_meta ce st
      else if has mtype DCA_PIXEL then col_pixel ce st
      else if has mtype DCA_INIT then Some (Go st)
      else if has mtype DCA_OPEN then
        (if has mtype DCA_CONNECT then Some (Go st)
         else if has mtype DCA_EXP then
           Some (Go ((col_send ''status'' ''active'' st)\<lparr>co_total := 0, co_expPageNum := 0\<rparr>))
         else Some (Go st))
      else if has mtype DCA_CLOSE then
        (if has mtype DCA_CONNECT then
           (let st1 = col_send ''status'' ''Closing connection...'' (col_send ''set'' ''connected 0'' st)
            in if ce_temp ce then
                 do { (w1, smc1, open1) \<leftarrow> smcClose (ce_env ce) (co_w st1) (co_smc st1) False;
                      Some (Exit (st1\<lparr>co_w := w1, co_smc := smc1\<rparr>)) }
               else Some (Ret st1))
         else if has mtype DCA_EXP then
           Some (Ret (col_send ''set'' (''transfer '' @ show_int (sint (co_total st)))
             (col_send ''status'' ''Waiting for input...'' (col_send ''status'' ''inactive'' st))))
         else Some (Go st))
      else Some (Go st))"

text \<open>The loop: the next message is read behind each one that does not return.\<close>

partial_function (option) col_loop :: "col_env \<Rightarrow> int \<Rightarrow> col_state \<Rightarrow> col_result option" where
  "col_loop ce recvMsgSize st =
     (if 0 < recvMsgSize then
        (case col_message ce st of
           None \<Rightarrow> None
         | Some (Go st1) \<Rightarrow>
             (case col_recv SZMSG (int SZMSG) st1 of
                None \<Rightarrow> None
              | Some (n, got, st2) \<Rightarrow> col_loop ce n (st2\<lparr>co_buf := got @ drop (length got) (co_buf st2)\<rparr>))
         | Some r \<Rightarrow> Some r)
      else Some (Ret st))"

definition col_disconnectClient :: "col_state \<Rightarrow> col_state" where
  "col_disconnectClient st = col_send ''status'' ''PAN disconnected...'' (col_send ''set'' ''connected 0'' st)"

definition colPanHandler :: "col_env \<Rightarrow> col_state \<Rightarrow> col_result option" where
  "colPanHandler ce st =
     (case col_recv SZMSG (int SZMSG) st of
        None \<Rightarrow> None
      | Some (n, got, st1) \<Rightarrow>
          let st2 = st1\<lparr>co_buf := got @ drop (length got) (co_buf st1)\<rparr>
          in if n = EOF then Some (Ret (col_disconnectClient st2))
             else if n \<noteq> int SZMSG then Some (Ret st2)
             else col_loop ce (int SZMSG) (st2\<lparr>co_total := 0\<rparr>))"

subsection \<open>A page is filled and published\<close>

text \<open>Steps that leave the semaphore and the segments alone.\<close>

definition same_shm :: "world \<Rightarrow> world \<Rightarrow> bool" where
  "same_shm w w' \<longleftrightarrow> w_shm w' = w_shm w \<and> w_sem w' = w_sem w \<and> w_sem_init w' = w_sem_init w"

lemma store_seg_at:
  assumes "w_map w (pe_pid env) a = Some sid" "w_shm w sid = Some h"
  shows "store_seg env w a f = Some (w\<lparr>w_shm := (w_shm w)(sid := Some (f h))\<rparr>)"
  using assms by (simp add: store_seg_def)

lemma set_pixel_page_sets:
  assumes "seg_addr (ce_env ce) p = a" "a \<noteq> 0" "w_map w (pe_pid (ce_env ce)) a = Some sid" "w_shm w sid = Some h"
    and "length (buf_str (co_obset st)) < SZ_PATH" "length (ce_colID ce) < SZ_PATH" "pg_colID p = []" "seg_colID h = []" "seg_obsetID h = []"
  shows "set_pixel_page ce st w p = Some (w\<lparr>w_shm := (w_shm w)(sid := Some (h\<lparr>seg_expID := co_expID st, seg_fpCfg := co_fp st,
      seg_obsetID := buf_str (co_obset st), seg_colID := ce_colID ce, seg_expPageNum := co_expPageNum st\<rparr>))\<rparr>,
    p\<lparr>pg_expID := co_expID st, pg_colID := ce_colID ce\<rparr>)"
proof -
  have sa: "seg_addr (ce_env ce) (p\<lparr>pg_expID := x, pg_colID := y\<rparr>) = a" "seg_addr (ce_env ce) (p\<lparr>pg_expID := x\<rparr>) = a" for x y
    using assms(1) by (simp_all add: seg_addr_def)
  show ?thesis using assms
    by (simp add: set_pixel_page_def smcSetExpID_def smcSetFPConfig_def smcSetObsetID_def smcSetColID_def smcSetExpPageNum_def
      store_seg_def strncpy_noterm_def sa Let_def)
qed

lemma set_meta_page_sets:
  assumes "seg_addr (ce_env ce) p = a" "a \<noteq> 0" "w_map w (pe_pid (ce_env ce)) a = Some sid" "w_shm w sid = Some h"
    and "length (buf_str (co_obset st)) < SZ_PATH" "length (ce_colID ce) < SZ_PATH" "pg_colID p = []" "seg_colID h = []" "seg_obsetID h = []"
  shows "set_meta_page ce st w p = Some (w\<lparr>w_shm := (w_shm w)(sid := Some (h\<lparr>seg_mdCfg := co_md st, seg_fpCfg := co_fp st, seg_expID := co_expID st,
      seg_obsetID := buf_str (co_obset st), seg_colID := ce_colID ce, seg_expPageNum := co_expPageNum st\<rparr>))\<rparr>,
    p\<lparr>pg_expID := co_expID st, pg_colID := ce_colID ce\<rparr>)"
proof -
  have sa: "seg_addr (ce_env ce) (p\<lparr>pg_expID := x, pg_colID := y\<rparr>) = a" "seg_addr (ce_env ce) (p\<lparr>pg_expID := x\<rparr>) = a" for x y
    using assms(1) by (simp_all add: seg_addr_def)
  show ?thesis using assms
    by (simp add: set_meta_page_def smcSetMDConfig_def smcSetExpID_def smcSetFPConfig_def smcSetObsetID_def smcSetColID_def smcSetExpPageNum_def
      store_seg_def strncpy_noterm_def sa Let_def)
qed

lemma smcUnlock_page:
  "\<exists>w' ps. smcUnlock env w p = (w', p\<lparr>pg_ac_locked := 0, pg_pstate := ps\<rparr>) \<and> same_shm w w'"
proof (cases "0 < seg_attached env (p\<lparr>pg_ac_locked := 0\<rparr>)")
  case True
  then have "smcUnlock env w p = (w\<lparr>w_ticks := Suc (w_ticks w)\<rparr>,
      p\<lparr>pg_ac_locked := 0, pg_pstate := smStateSetLTime (pe_pid env) (pg_pstate p) (pe_clock env (w_ticks w))\<rparr>)"
    by (simp add: smcUnlock_def Let_def smUtilTime_def)
  then show ?thesis by (auto simp: same_shm_def)
next
  case False
  then have "smcUnlock env w p = (w, p\<lparr>pg_ac_locked := 0, pg_pstate := pg_pstate p\<rparr>)" by (simp add: smcUnlock_def Let_def)
  moreover have "same_shm w w" by (simp add: same_shm_def)
  ultimately show ?thesis by blast
qed

lemma run_detach_same: "same_shm w (run_events pid (if b then [] else [ShmDetach a]) w)"
  by (simp add: run_events_def same_shm_def)

lemma smUtilDetach_keep:
  "length lf < 128 \<Longrightarrow> \<exists>b. smUtilDetach os k lf a False = Some (if b then [] else [ShmDetach a])"
  by (rule exI [of _ "shmget os k 123 False = ERR \<or> shm_nattch os (shmget os k 123 False) = None"])
    (auto simp: smUtilDetach_def Let_def split: option.splits)

lemma smcDetach_keep:
  assumes "i < length (sc_pdata smc)" "sc_pdata smc ! i = p" "length (pg_lockFile p) < 128" "pg_ac_locked p = 0"
  shows "\<exists>w' ps. smcDetach env w smc i False = Some (w', page_at i (p\<lparr>pg_pstate := ps\<rparr>) smc) \<and> same_shm w w' \<and> smStateGetAttached (pe_pid env) ps = 0"
proof -
  have "\<exists>w1 ps. (if pg_cpid p = pe_pid env then smcUnlock env w p else (w, p)) = (w1, p\<lparr>pg_pstate := ps\<rparr>) \<and> same_shm w w1"
  proof (cases "pg_cpid p = pe_pid env")
    case True
    obtain w' ps where u: "smcUnlock env w p = (w', p\<lparr>pg_ac_locked := 0, pg_pstate := ps\<rparr>)" "same_shm w w'" using smcUnlock_page by blast
    have "p\<lparr>pg_ac_locked := 0, pg_pstate := ps\<rparr> = p\<lparr>pg_pstate := ps\<rparr>" using assms(4) by (cases p) simp
    then have "(if pg_cpid p = pe_pid env then smcUnlock env w p else (w, p)) = (w', p\<lparr>pg_pstate := ps\<rparr>)" using u(1) True by simp
    then show ?thesis using u(2) by blast
  next
    case False
    then have "(if pg_cpid p = pe_pid env then smcUnlock env w p else (w, p)) = (w, p\<lparr>pg_pstate := pg_pstate p\<rparr>)" by simp
    moreover have "same_shm w w" by (simp add: same_shm_def)
    ultimately show ?thesis by blast
  qed
  then obtain w1 ps where u: "(if pg_cpid p = pe_pid env then smcUnlock env w p else (w, p)) = (w1, p\<lparr>pg_pstate := ps\<rparr>)" "same_shm w w1" by blast
  let ?p = "p\<lparr>pg_pstate := ps\<rparr>"
  have "length (pg_lockFile ?p) < 128" using assms(3) by simp
  then obtain b where d: "smUtilDetach (pe_os env) (pg_memKey ?p) (pg_lockFile ?p) (seg_addr env ?p) False = Some (if b then [] else [ShmDetach (seg_addr env ?p)])"
    using smUtilDetach_keep by blast
  have "smcDetach env w smc i False = Some (run_events (pe_pid env) (if b then [] else [ShmDetach (seg_addr env ?p)]) w1,
      page_at i (p\<lparr>pg_pstate := smStateSetAttached (pe_pid env) ps 0\<rparr>) smc)"
    using assms(2) u(1) d by (simp add: smcDetach_def Let_def page_at_def)
  moreover have "same_shm w (run_events (pe_pid env) (if b then [] else [ShmDetach (seg_addr env ?p)]) w1)"
    using u(2) run_detach_same [of w1 "pe_pid env" b "seg_addr env ?p"] by (simp add: same_shm_def)
  moreover have "smStateGetAttached (pe_pid env) (smStateSetAttached (pe_pid env) ps 0) = 0"
    by (simp add: smStateGetAttached_def split: option.splits)
  ultimately show ?thesis by blast
qed

lemma finish_page_publishes:
  assumes "i < length (sc_pdata smc)" "length (pg_lockFile p) < 128" "w_sem (co_w st) = Some v" "w_sem_init (co_w st) (pe_pid (ce_env ce))"
  shows "\<exists>w' ps. finish_page ce smc i p st = Some (Go (st\<lparr>co_w := w', co_smc := Some (page_at i (p\<lparr>pg_ac_locked := 0, pg_pstate := ps\<rparr>) smc)\<rparr>))
    \<and> w_shm w' = w_shm (co_w st) \<and> w_sem w' = Some (v + 1)"
proof -
  obtain w1 ps1 where 1: "smcUnlock (ce_env ce) (co_w st) p = (w1, p\<lparr>pg_ac_locked := 0, pg_pstate := ps1\<rparr>)" "same_shm (co_w st) w1"
    using smcUnlock_page by blast
  let ?p1 = "p\<lparr>pg_ac_locked := 0, pg_pstate := ps1\<rparr>"
  obtain w2 ps2 where 2: "smcDetach (ce_env ce) w1 (page_at i ?p1 smc) i False = Some (w2, page_at i (?p1\<lparr>pg_pstate := ps2\<rparr>) (page_at i ?p1 smc))" "same_shm w1 w2"
    using smcDetach_keep [of i "page_at i ?p1 smc" ?p1 "ce_env ce" w1] assms(1,2) by (auto simp: page_at_def)
  have "smcMutexOff (ce_env ce) w2 = Some (w2\<lparr>w_sem := Some (v + 1)\<rparr>)"
    using 1(2) 2(2) assms(3,4) by (simp add: mutex_defs same_shm_def)
  then show ?thesis using 1 2 by (auto simp: finish_page_def page_at_def same_shm_def)
qed

lemma col_recv_returns:
  assumes "\<forall>e \<in> set (co_ev st). ev_good e" "0 < length msg" "length msg \<le> reads (co_ev st)" "length msg \<le> room" "co_in st = msg @ later"
  shows "\<exists>es'. col_recv room (int (length msg)) st = Some (int (length msg), msg, st\<lparr>co_in := later, co_ev := es'\<rparr>)
    \<and> (\<forall>e \<in> set es'. ev_good e) \<and> reads (co_ev st) \<le> reads es' + length msg"
  using dcaRecv_returns [OF assms(1-4), of later] assms(5) by (auto simp: col_recv_def)

lemma smcMutexOn_free:
  assumes "w_sem w = Some v" "0 < v" "w_sem_init w (pe_pid env)"
  shows "smcMutexOn env w = Some (w\<lparr>w_sem := Some (v - 1)\<rparr>)"
  using assms by (simp add: mutex_defs)

text \<open>
  A pixel message puts its raster into the cache: when the lock is free, the cache has room and the
  kernel gives a segment for the free slot, then however the bytes arrive the handler goes on with
  the next message, and the slot holds an unlocked data page of the exposure announced before.
\<close>

lemma collector_stores_pixels:
  assumes ev: "\<forall>e \<in> set (co_ev st). ev_good e" "length fpb + length pix \<le> reads (co_ev st)"
    and inp: "co_in st = fpb @ pix @ later" "length fpb = ce_size_fp ce" "fpb \<noteq> []" "pix \<noteq> []"
    and fp: "fp = ce_fp ce fpb (co_fp st)" "im_size fp = int (length pix)"
    and env: "env = ce_env ce" and lock: "w_sem (co_w st) = Some v" "0 < v" "w_sem_init (co_w st) (pe_pid env)"
    and cache: "co_smc st = Some smc" "smc_inv smc" "sc_npages smc < sc_np_max smc" "int (length pix) \<le> MAX_SEG_SIZE"
    and slot: "i = find_slot smc" "l = seg_lockfile smc i" "length l < SZ_FNAME"
    and key: "k = ftok (pe_os env) l (int (length l mod 256))" "k \<noteq> 0"
    and n: "n = word_of_int (pe_sizeof_seg env + int (length pix) + 3)" "n \<noteq> 0"
    and os: "fopen_append (pe_os env) l" "append_pos (pe_os env) l = 0" "pe_calloc env" "pe_pid env \<noteq> 0"
    and shm: "shmget (pe_os env) k n True = sid" "sid \<noteq> ERR" "sid \<noteq> 0" "shmat (pe_os env) sid = a" "a \<noteq> ERR" "a \<noteq> 0"
    and area: "d = a + pe_sizeof_seg env + 1" "d \<noteq> 0"
    and ids: "length (buf_str (co_obset st)) < SZ_PATH" "length (ce_colID ce) < SZ_PATH"
  shows "\<exists>st' smc' p h. col_pixel ce st = Some (Go st') \<and> co_smc st' = Some smc' \<and> sc_pdata smc' = (sc_pdata smc)[i := p]
    \<and> pg_ac_locked p = 0 \<and> pg_type p = TY_DATA \<and> pg_memKey p = k \<and> pg_expID p = co_expID st \<and> pg_colID p = ce_colID ce
    \<and> w_shm (co_w st') sid = Some h \<and> seg_fpCfg h = fp \<and> seg_expID h = co_expID st \<and> seg_obsetID h = buf_str (co_obset st)
    \<and> seg_colID h = ce_colID ce \<and> seg_expPageNum h = co_expPageNum st \<and> co_expPageNum st' = co_expPageNum st + 1
    \<and> take (length pix) (co_mem st' sid) = pix \<and> co_in st' = later \<and> w_sem (co_w st') = Some v
    \<and> (\<forall>e \<in> set (co_ev st'). ev_good e) \<and> reads (co_ev st) \<le> reads (co_ev st') + length fpb + length pix
    \<and> co_sent st' = co_sent st @ [(''status'', ''Reading Pixel data...'')] \<and> co_total st' = co_total st + word_of_int (int (length pix)) \<and> co_buf st' = co_buf st"
proof -
  obtain es1 where r1: "col_recv (ce_size_fp ce) (int (ce_size_fp ce)) st = Some (int (length fpb), fpb, st\<lparr>co_in := pix @ later, co_ev := es1\<rparr>)"
      "\<forall>e \<in> set es1. ev_good e" "reads (co_ev st) \<le> reads es1 + length fpb"
    using col_recv_returns [OF ev(1), of fpb "ce_size_fp ce" "pix @ later"] ev(2) inp by fastforce
  then have pr: "length pix \<le> reads es1" using ev(2) by simp
  define st2 where "st2 = col_send ''status'' ''Reading Pixel data...''
     (st\<lparr>co_in := pix @ later, co_ev := es1, co_fp := fp, co_total := co_total st + word_of_int (int (length pix))\<rparr>)"
  have on: "smcMutexOn env (co_w st2) = Some ((co_w st)\<lparr>w_sem := Some (v - 1)\<rparr>)" using smcMutexOn_free [OF lock] by (simp add: st2_def col_send_def)
  define w1 where "w1 = (co_w st)\<lparr>w_sem := Some (v - 1)\<rparr>"
  have "int (length pix) < 2 ^ 31" unfolding fp(2) [symmetric] im_size_def using sint_lt [of "fp_ySize fp * fp_xSize fp * 4"] by simp
  then have "length pix < 2 ^ 32" by simp
  then have sz: "uint (word_of_nat (length pix) :: xlong) = int (length pix)" by (simp add: unsigned_of_nat take_bit_nat_eq_self)
  obtain w2 smc2 p h where g: "smcGetPage env (ce_others ce) w1 (Some smc) TY_DATA (int (length pix)) True True = Some (w2, Some smc2, Some i)"
      "sc_pdata smc2 = (sc_pdata smc)[i := p]" "i < length (sc_pdata smc)" "seg_addr env p = a" "pg_memKey p = k" "pg_lockFile p = l" "pg_type p = TY_DATA"
      "pg_initialized p = 1" "pg_colID p = []" "w_map w2 (pe_pid env) a = Some sid" "w_shm w2 sid = Some h" "w_sem w2 = w_sem w1"
      "w_sem_init w2 = w_sem_init w1" "seg_obsetID h = []" "seg_colID h = []"
    using smcGetPage_attached [OF cache(2-4) slot key n os shm(1-5), where others = "ce_others ce" and w = w1 and ty = TY_DATA and lf = True] by blast
  let ?h = "h\<lparr>seg_expID := co_expID st, seg_fpCfg := fp, seg_obsetID := buf_str (co_obset st), seg_colID := ce_colID ce, seg_expPageNum := co_expPageNum st\<rparr>"
  let ?p = "p\<lparr>pg_expID := co_expID st, pg_colID := ce_colID ce\<rparr>" and ?w3 = "w2\<lparr>w_shm := (w_shm w2)(sid := Some (h\<lparr>seg_expID := co_expID st,
     seg_fpCfg := fp, seg_obsetID := buf_str (co_obset st), seg_colID := ce_colID ce, seg_expPageNum := co_expPageNum st\<rparr>))\<rparr>"
  have sp: "set_pixel_page ce st2 w2 p = Some (?w3, ?p)"
    using set_pixel_page_sets [of ce p a w2 sid h st2] g shm(6) ids env by (simp add: st2_def col_send_def)
  have data: "smcGetPageData env (Some ?p) = d" using g(4,8) area(1) by (simp add: smcGetPageData_def seg_addr_def)
  define st3 where "st3 = st2\<lparr>co_w := ?w3, co_expPageNum := co_expPageNum st2 + 1\<rparr>"
  obtain es2 where r2: "col_recv (length pix) (int (length pix)) st3 = Some (int (length pix), pix, st3\<lparr>co_in := later, co_ev := es2\<rparr>)"
      "\<forall>e \<in> set es2. ev_good e" "reads es1 \<le> reads es2 + length pix"
    using col_recv_returns [of st3 pix "length pix" later] r1(2) pr inp(4) by (auto simp: st3_def st2_def col_send_def)
  define st4 where "st4 = st3\<lparr>co_in := later, co_ev := es2, co_mem := (co_mem st3)(sid := pix @ drop (length pix) (co_mem st3 sid))\<rparr>"
  have put: "put_bytes env d pix (st3\<lparr>co_in := later, co_ev := es2\<rparr>) = Some st4" using g(10) area(1) by (simp add: put_bytes_def st4_def st3_def)
  obtain w5 ps where f: "finish_page ce smc2 i ?p st4 = Some (Go (st4\<lparr>co_w := w5, co_smc := Some (page_at i (?p\<lparr>pg_ac_locked := 0, pg_pstate := ps\<rparr>) smc2)\<rparr>))"
      "w_shm w5 = w_shm (co_w st4)" "w_sem w5 = Some v"
    using finish_page_publishes [of i smc2 ?p st4 "v - 1" ce] g slot(3) lock(3) env
    by (auto simp: st4_def st3_def w1_def SZ_FNAME_def)
  have "co_smc st2 = Some smc" using cache(1) by (simp add: st2_def col_send_def)
  then have "store_pixels ce (int (length pix)) st2 = finish_page ce smc2 i ?p st4"
    using on g(1,2,3) sp data r2(1) area(2) env put
    by (simp add: store_pixels_def Let_def sz st3_def [symmetric] w1_def [symmetric])
  moreover have "col_pixel ce st = store_pixels ce (int (length pix)) st2"
    unfolding col_pixel_def r1(1) by (simp add: Let_def fp(2) [unfolded fp(1)] fp(1) st2_def)
  ultimately show ?thesis using f g(2,3,5,7) r2(2,3) r1(3)
    by (intro exI [of _ "st4\<lparr>co_w := w5, co_smc := Some (page_at i (?p\<lparr>pg_ac_locked := 0, pg_pstate := ps\<rparr>) smc2)\<rparr>"]
        exI [of _ "page_at i (?p\<lparr>pg_ac_locked := 0, pg_pstate := ps\<rparr>) smc2"] exI [of _ "?p\<lparr>pg_ac_locked := 0, pg_pstate := ps\<rparr>"] exI [of _ ?h])
      (simp add: page_at_def st4_def st3_def st2_def col_send_def)
qed

end
