(* ===== verification/DhsClient.thy ===== *)
theory DhsClient
  imports Collector
begin

section \<open>The client library of the PAN (lib/dhslib, lib/dcalib/dcamsg.c)\<close>

text \<open>
  The PAN announces an exposure, sends its meta-data and pixels and closes it, over one socket to a
  collector and another to the supervisor.  \<open>pan_env\<close> is what the library finds around it: the
  simulation flag, the test \<open>STATUS_BAD\<close> of the inherited status, the layout of the structures that
  are sent byte by byte, the result of \<open>dcaRecvMsg\<close> for the answer to a message on a channel, by the number
  of messages sent on it, and what \<open>dcaInitChannel\<close>, which opens sockets, returns and does.
  \<open>dhs_client\<close> holds the global variables of the library, the bytes written
  on each socket and what the writes of each call of \<open>dcaSend\<close> will meet.  The text of the responses is
  left out.  \<open>None\<close> is a read outside a buffer or waiting for ever.
\<close>

unbundle bit_operations_syntax

definition DCA_OK :: int where "DCA_OK = 1"
definition DHS_OK :: int where "DHS_OK = 0"
definition DHS_ERROR :: int where "DHS_ERROR = -1"
definition DHS_MAXSTR :: nat where "DHS_MAXSTR = 128"
definition DHS_IAMPAN :: "32 word" where "DHS_IAMPAN = 0xABCD"
definition DHS_IAMWHO :: "32 word" where "DHS_IAMWHO = 0xFEED"
definition DHS_IOC_SETFILENAME :: int where "DHS_IOC_SETFILENAME = 0x4000"
definition DHS_IOC_SETDIR :: int where "DHS_IOC_SETDIR = 0x8000"
definition DHS_IOC_OTHERS :: "int list" where "DHS_IOC_OTHERS = [0x0100, 0x0200, 0x0400, 0x0800, 0x1000, 0x2000]"

datatype chan = ToCollector | ToSuper

record dhs_client =
  cl_expID :: cdouble
  cl_obsSetID :: string
  cl_DIR :: string
  cl_FILENAME :: string
  cl_FLAG :: int
  cl_out :: "chan \<Rightarrow> string"
  cl_wr :: "chan \<Rightarrow> nat \<Rightarrow> wr_event list"
  cl_sends :: "chan \<Rightarrow> nat"

record pan_env =
  pa_simulator :: bool
  pa_bad :: "int \<Rightarrow> bool"
  pa_hdr :: "msgHeader \<Rightarrow> string"
  pa_fp :: "fpConfig_t \<Rightarrow> string"
  pa_md :: "mdConfig_t \<Rightarrow> string"
  pa_size :: "nat \<Rightarrow> string"
  pa_answer :: "chan \<Rightarrow> nat \<Rightarrow> int"
  pa_init :: "chan \<Rightarrow> dhs_client \<Rightarrow> int \<times> dhs_client"

subsection \<open>Messages\<close>

text \<open>A cleared buffer of \<open>n\<close> bytes with \<open>s\<close> copied to its start.\<close>

definition strncpy_buf :: "string \<Rightarrow> nat \<Rightarrow> string" where
  "strncpy_buf s n = take n s @ replicate (n - length s) NUL"

definition dcaFmtMsg :: "dhs_client \<Rightarrow> 32 word \<Rightarrow> 32 word \<Rightarrow> msgHeader" where
  "dcaFmtMsg st vtype whoami =
     \<lparr>mh_type = vtype, mh_whoami = whoami, mh_expnum = cl_expID st, mh_obset = strncpy_buf (cl_obsSetID st) 80\<rparr>"

text \<open>The first \<open>n\<close> bytes of a buffer are sent.\<close>

definition chan_send :: "chan \<Rightarrow> string \<Rightarrow> nat \<Rightarrow> dhs_client \<Rightarrow> (int \<times> dhs_client) option" where
  "chan_send c buf n st =
     (if length buf < n then None
      else case dcaSend (cl_wr st c (cl_sends st c)) (take n buf) of
        None \<Rightarrow> None
      | Some (r, sent) \<Rightarrow>
          Some (r, st\<lparr>cl_out := (cl_out st)(c := cl_out st c @ sent), cl_sends := (cl_sends st)(c := Suc (cl_sends st c))\<rparr>))"

definition dcaSendMsg :: "pan_env \<Rightarrow> chan \<Rightarrow> msgHeader \<Rightarrow> dhs_client \<Rightarrow> (int \<times> dhs_client) option" where
  "dcaSendMsg pe c msg st = chan_send c (pa_hdr pe msg) SZMSG st"

definition dcaSendfpConfig :: "pan_env \<Rightarrow> chan \<Rightarrow> 32 word \<Rightarrow> fpConfig_t \<Rightarrow> dhs_client \<Rightarrow> (int \<times> dhs_client) option" where
  "dcaSendfpConfig pe c whoAmI fp st =
     do { (r, st1) \<leftarrow> dcaSendMsg pe c (dcaFmtMsg st (DCA_SET OR DCA_FP_CONFIG) whoAmI) st;
          if r = DCA_ERR then Some (DCA_ERR, st1) else chan_send c (pa_fp pe fp) (length (pa_fp pe fp)) st1 }"

subsection \<open>Exposures\<close>

text \<open>Whether a channel is alive, and the attempt to get a collector; its loop is left in the first round.\<close>

definition dcaValidateChannel :: "pan_env \<Rightarrow> chan \<Rightarrow> dhs_client \<Rightarrow> (int \<times> dhs_client) option" where
  "dcaValidateChannel pe c st =
     do { (r, st1) \<leftarrow> dcaSendMsg pe c (dcaFmtMsg st DCA_NOOP 0) st;
          Some (if r = DCA_ERR then DCA_ERR else pa_answer pe c (cl_sends st1 c), st1) }"

definition dhsConnectCollector :: "pan_env \<Rightarrow> 32 word \<Rightarrow> dhs_client \<Rightarrow> (int \<times> dhs_client) option" where
  "dhsConnectCollector pe whoAmI st =
     (case pa_init pe ToCollector st of (r, st1) \<Rightarrow>
        if r = DCA_OK then
          do { (s1, st2) \<leftarrow> dcaSendMsg pe ToCollector (dcaFmtMsg st1 DCA_INIT whoAmI) st1; Some (DHS_OK, st2) }
        else
          do { (s1, st2) \<leftarrow> dcaSendMsg pe ToSuper (dcaFmtMsg st1 (DCA_FAIL OR DCA_CONNECT) whoAmI) st1; Some (DHS_ERROR, st2) })"

text \<open>\<open>dhsUtilOpenExp\<close>: behind the label \<open>retry\<close>, and the whole function; the null pointer is \<open>None\<close>.\<close>

definition open_exp_send :: "pan_env \<Rightarrow> fpConfig_t \<Rightarrow> dhs_client \<Rightarrow> (int \<times> dhs_client) option" where
  "open_exp_send pe fpCfg st =
     do { (s1, st1) \<leftarrow> dcaSendMsg pe ToCollector (dcaFmtMsg st (DCA_OPEN OR DCA_EXP) DHS_IAMPAN) st;
          (s2, st2) \<leftarrow> dcaSendMsg pe ToSuper (dcaFmtMsg st1 (DCA_OPEN OR DCA_EXP) DHS_IAMPAN) st1;
          (s3, st3) \<leftarrow> dcaSendfpConfig pe ToCollector DHS_IAMPAN fpCfg st2;
          if s3 = DCA_ERR then Some (DHS_ERROR, st3)
          else do { (s4, st4) \<leftarrow> dcaSendMsg pe ToCollector (dcaFmtMsg st3 DCA_EXP_OBSID 0) st3;
                    (s5, st5) \<leftarrow> dcaSendMsg pe ToCollector (dcaFmtMsg st4 DCA_DIRECTORY 0) st4;
                    (s6, st6) \<leftarrow> chan_send ToCollector (cl_DIR st5) 256 st5;
                    (s7, st7) \<leftarrow> dcaSendMsg pe ToCollector (dcaFmtMsg st6 DCA_FNAME 0) st6;
                    (s8, st8) \<leftarrow> chan_send ToCollector (cl_FILENAME st7) 256 st7;
                    Some (DHS_OK, st8) } }"

definition dhsUtilOpenExp ::
  "pan_env \<Rightarrow> int \<Rightarrow> int \<Rightarrow> fpConfig_t option \<Rightarrow> cdouble option \<Rightarrow> string option \<Rightarrow> dhs_client \<Rightarrow> (int \<times> dhs_client) option" where
  "dhsUtilOpenExp pe istat dhsID fpCfg expID obsetID st =
     (if pa_bad pe istat \<or> pa_simulator pe then Some (istat, st)
      else case (fpCfg, expID, obsetID) of
        (Some fp, Some e, Some ob) \<Rightarrow>
          if dhsID < 0 then Some (DHS_ERROR, st)
          else do {
            (v1, st1) \<leftarrow> dcaValidateChannel pe ToSuper st;
            (ok, st2) \<leftarrow> (if v1 \<noteq> DCA_ERR then Some (True, st1)
                          else case pa_init pe ToSuper st1 of (r, sti) \<Rightarrow>
                            if r = DCA_ERR then Some (False, sti)
                            else do { (v2, stv) \<leftarrow> dcaValidateChannel pe ToSuper sti; Some (v2 \<noteq> DCA_ERR, stv) });
            if \<not> ok then Some (DHS_ERROR, st2)
            else do {
              (v3, st3) \<leftarrow> dcaValidateChannel pe ToCollector (st2\<lparr>cl_expID := e, cl_obsSetID := ob\<rparr>);
              if v3 \<noteq> DCA_ERR then open_exp_send pe fp st3
              else do { (c, st4) \<leftarrow> dhsConnectCollector pe DHS_IAMPAN st3;
                        if c = DHS_ERROR then Some (DHS_ERROR, st4) else open_exp_send pe fp st4 } } }
      | _ \<Rightarrow> Some (DHS_ERROR, st))"

definition dhsUtilCloseExp :: "pan_env \<Rightarrow> int \<Rightarrow> int \<Rightarrow> cdouble \<Rightarrow> dhs_client \<Rightarrow> (int \<times> dhs_client) option" where
  "dhsUtilCloseExp pe istat dhsID expID st =
     (if pa_bad pe istat \<or> pa_simulator pe then Some (istat, st)
      else if dhsID < 0 \<or> expID \<le> 0 then Some (DHS_ERROR, st)
      else do { (s1, st1) \<leftarrow> dcaSendMsg pe ToCollector (dcaFmtMsg st (DCA_CLOSE OR DCA_EXP) DHS_IAMPAN) st;
                (s2, st2) \<leftarrow> dcaSendMsg pe ToSuper (dcaFmtMsg st1 (DCA_CLOSE OR DCA_EXP) DHS_IAMPAN) st1;
                Some (DHS_OK, st2) })"

definition dhsSendMetaData :: "pan_env \<Rightarrow> int \<Rightarrow> string \<Rightarrow> mdConfig_t \<Rightarrow> dhs_client \<Rightarrow> (int \<times> dhs_client) option" where
  "dhsSendMetaData pe istat blk mdCfg st =
     (if pa_simulator pe then Some (istat, st)
      else if length blk = 0 then Some (DHS_OK, st)
      else do { (s1, st1) \<leftarrow> dcaSendMsg pe ToCollector (dcaFmtMsg st DCA_META 0) st;
                (s2, st2) \<leftarrow> chan_send ToCollector (strncpy_buf (pa_size pe (length blk)) 120) 120 st1;
                (s3, st3) \<leftarrow> chan_send ToCollector blk (length blk) st2;
                (s4, st4) \<leftarrow> chan_send ToCollector (pa_md pe mdCfg) (length (pa_md pe mdCfg)) st3;
                Some (if s3 = DCA_ERR \<or> s4 = DCA_ERR then DHS_ERROR else DHS_OK, st4) })"

definition dhsSendPixelData :: "pan_env \<Rightarrow> int \<Rightarrow> string \<Rightarrow> fpConfig_t \<Rightarrow> dhs_client \<Rightarrow> (int \<times> dhs_client) option" where
  "dhsSendPixelData pe istat pxl fpCfg st =
     (if pa_simulator pe \<or> length pxl = 0 then Some (istat, st)
      else do { (s1, st1) \<leftarrow> dcaSendMsg pe ToCollector (dcaFmtMsg st DCA_PIXEL DHS_IAMWHO) st;
                (s2, st2) \<leftarrow> chan_send ToCollector (pa_fp pe fpCfg) (length (pa_fp pe fpCfg)) st1;
                (s3, st3) \<leftarrow> chan_send ToCollector pxl (length pxl) st2;
                Some (if s2 = DCA_ERR \<or> s3 = DCA_ERR then DHS_ERROR else istat, st3) })"

definition dhsUtilCloseConnect :: "pan_env \<Rightarrow> int \<Rightarrow> int \<Rightarrow> dhs_client \<Rightarrow> (int \<times> dhs_client) option" where
  "dhsUtilCloseConnect pe istat dhsID st =
     (if pa_bad pe istat \<or> pa_simulator pe then Some (istat, st)
      else if dhsID < 0 then Some (DHS_ERROR, st)
      else do { (s1, st1) \<leftarrow> dcaSendMsg pe ToCollector (dcaFmtMsg st (DCA_CLOSE OR DCA_CONNECT) 0) st;
                (s2, st2) \<leftarrow> dcaSendMsg pe ToSuper (dcaFmtMsg st1 (DCA_CLOSE OR DCA_CONNECT) 0) st1;
                Some (DHS_OK, st2) })"

definition dhsUtilIOCtl :: "pan_env \<Rightarrow> int \<Rightarrow> int \<Rightarrow> string \<Rightarrow> dhs_client \<Rightarrow> int \<times> dhs_client" where
  "dhsUtilIOCtl pe istat fn arg st =
     (if pa_bad pe istat then (istat, st)
      else if fn = DHS_IOC_SETFILENAME then
        (DHS_OK, st\<lparr>cl_FILENAME := strncpy_buf arg DHS_MAXSTR, cl_FLAG := (if 0 < cl_FLAG st then 3 else 1)\<rparr>)
      else if fn = DHS_IOC_SETDIR then
        (DHS_OK, st\<lparr>cl_DIR := strncpy_buf arg DHS_MAXSTR, cl_FLAG := (if 0 < cl_FLAG st then 3 else 2)\<rparr>)
      else if fn \<in> set DHS_IOC_OTHERS then (DHS_OK, st)
      else (DHS_ERROR, st))"

subsection \<open>What the client writes\<close>

text \<open>Every call of \<open>dcaSend\<close> gets through messages of up to \<open>N\<close> bytes.\<close>

definition chan_ok :: "nat \<Rightarrow> dhs_client \<Rightarrow> bool" where
  "chan_ok N st \<longleftrightarrow> (\<forall>c k. (\<forall>e \<in> set (cl_wr st c k). wr_good e) \<and> N \<le> writes (cl_wr st c k))"

definition sent :: "chan \<Rightarrow> string \<Rightarrow> dhs_client \<Rightarrow> dhs_client" where
  "sent c buf st = st\<lparr>cl_out := (cl_out st)(c := cl_out st c @ buf), cl_sends := (cl_sends st)(c := Suc (cl_sends st c))\<rparr>"

lemma sent_simps [simp]:
  "cl_expID (sent c buf st) = cl_expID st" "cl_obsSetID (sent c buf st) = cl_obsSetID st"
  "cl_DIR (sent c buf st) = cl_DIR st" "cl_FILENAME (sent c buf st) = cl_FILENAME st"
  "chan_ok N (sent c buf st) = chan_ok N st" "dcaFmtMsg (sent c buf st) t w = dcaFmtMsg st t w"
  "cl_out (sent c buf st) d = (if d = c then cl_out st c @ buf else cl_out st d)"
  by (simp_all add: sent_def chan_ok_def dcaFmtMsg_def)

lemma chan_send_ok:
  assumes "chan_ok N st" "n \<le> N" "n \<le> length buf"
  shows "chan_send c buf n st = Some (int n, sent c (take n buf) st)"
proof -
  have "\<forall>e \<in> set (cl_wr st c (cl_sends st c)). wr_good e" "n \<le> writes (cl_wr st c (cl_sends st c))"
    using assms(1,2) by (auto simp: chan_ok_def intro: order_trans)
  then have "dcaSend (cl_wr st c (cl_sends st c)) (take n buf) = Some (int n, take n buf)"
    using dcaSend_complete [of "cl_wr st c (cl_sends st c)" "take n buf"] assms(3) by (simp add: min_absorb2)
  then show ?thesis using assms(3) by (simp add: chan_send_def sent_def)
qed

definition hdr_agrees :: "col_env \<Rightarrow> pan_env \<Rightarrow> msgHeader \<Rightarrow> bool" where
  "hdr_agrees ce pe h \<longleftrightarrow> length (pa_hdr pe h) = SZMSG \<and> ce_hdr ce (pa_hdr pe h) = h"

lemma dcaSendMsg_ok:
  assumes "chan_ok N st" "SZMSG \<le> N" "length (pa_hdr pe msg) = SZMSG"
  shows "dcaSendMsg pe c msg st = Some (int SZMSG, sent c (pa_hdr pe msg) st)"
  using chan_send_ok [OF assms(1,2), of "pa_hdr pe msg" c] assms(3) by (simp add: dcaSendMsg_def)

lemma dcaSendfpConfig_ok:
  assumes "chan_ok N st" "SZMSG \<le> N" "length (pa_fp pe fp) \<le> N" "\<forall>t. length (pa_hdr pe (dcaFmtMsg st t who)) = SZMSG"
  shows "dcaSendfpConfig pe c who fp st = Some (int (length (pa_fp pe fp)), sent c (pa_fp pe fp) (sent c (pa_hdr pe (dcaFmtMsg st (DCA_SET OR DCA_FP_CONFIG) who)) st))"
  using assms(4) dcaSendMsg_ok [OF assms(1,2), of pe _ c] chan_send_ok [of N "sent c (pa_hdr pe (dcaFmtMsg st (DCA_SET OR DCA_FP_CONFIG) who)) st", OF _ assms(3) order_refl, of c] assms(1)
  by (simp add: dcaSendfpConfig_def DCA_ERR_def)

lemma dcaValidateChannel_ok:
  assumes "chan_ok N st" "SZMSG \<le> N" "length (pa_hdr pe (dcaFmtMsg st DCA_NOOP 0)) = SZMSG" "\<And>k. pa_answer pe c k \<noteq> DCA_ERR"
  obtains r where "dcaValidateChannel pe c st = Some (r, sent c (pa_hdr pe (dcaFmtMsg st DCA_NOOP 0)) st)" "r \<noteq> DCA_ERR"
  using assms(4) dcaSendMsg_ok [OF assms(1-3), of c] by (simp add: dcaValidateChannel_def DCA_ERR_def)

text \<open>On channels that take what is written, opening an exposure needs 256 bytes in each of the buffers.\<close>

lemma open_exp_send_result:
  assumes "chan_ok N st" "256 \<le> N" "length (pa_fp pe fp) \<le> N" "\<forall>t w. length (pa_hdr pe (dcaFmtMsg st t w)) = SZMSG"
  shows "open_exp_send pe fp st = None \<longleftrightarrow> length (cl_DIR st) < 256 \<or> length (cl_FILENAME st) < 256"
    "\<And>r st'. open_exp_send pe fp st = Some (r, st') \<Longrightarrow> r = DHS_OK"
proof -
  have N: "SZMSG \<le> N" "256 \<le> N" using assms(2) by (simp_all add: SZMSG_def)
  have m: "dcaSendMsg pe c (dcaFmtMsg st t w) s = Some (int SZMSG, sent c (pa_hdr pe (dcaFmtMsg st t w)) s)" if "chan_ok N s" for c t w s
    using dcaSendMsg_ok [OF that N(1)] assms(4) by simp
  have f: "dcaSendfpConfig pe c DHS_IAMPAN fp s = Some (int (length (pa_fp pe fp)), sent c (pa_fp pe fp) (sent c (pa_hdr pe (dcaFmtMsg st (DCA_SET OR DCA_FP_CONFIG) DHS_IAMPAN)) s))"
    if "chan_ok N s" "\<And>t w. dcaFmtMsg s t w = dcaFmtMsg st t w" for c s
    using dcaSendfpConfig_ok [OF that(1) N(1) assms(3), of DHS_IAMPAN c] assms(4) that(2) by simp
  have b: "chan_send c buf 256 s = (if length buf < 256 then None else Some (256, sent c (take 256 buf) s))" if "chan_ok N s" for c buf s
    using chan_send_ok [OF that N(2), of buf c] by (auto simp: chan_send_def)
  show "open_exp_send pe fp st = None \<longleftrightarrow> length (cl_DIR st) < 256 \<or> length (cl_FILENAME st) < 256"
    "\<And>r st'. open_exp_send pe fp st = Some (r, st') \<Longrightarrow> r = DHS_OK"
    using assms(1) by (cases "length (cl_DIR st) < 256"; cases "length (cl_FILENAME st) < 256"; auto simp: open_exp_send_def m f b DCA_ERR_def)+
qed

lemma dhsSendPixelData_writes:
  assumes "chan_ok N cl" "SZMSG \<le> N" "length (pa_fp pe fp) \<le> N" "length pix \<le> N" "pix \<noteq> []" "\<not> pa_simulator pe"
    and "length (pa_hdr pe (dcaFmtMsg cl DCA_PIXEL DHS_IAMWHO)) = SZMSG"
  shows "dhsSendPixelData pe istat pix fp cl = Some (istat, sent ToCollector pix (sent ToCollector (pa_fp pe fp)
    (sent ToCollector (pa_hdr pe (dcaFmtMsg cl DCA_PIXEL DHS_IAMWHO)) cl)))"
  using assms by (simp add: dhsSendPixelData_def dcaSendMsg_ok [of N] chan_send_ok [of N] DCA_ERR_def)

lemma dhsUtilCloseExp_writes:
  assumes "chan_ok N cl" "SZMSG \<le> N" "\<not> pa_simulator pe" "\<not> pa_bad pe istat" "0 \<le> dhsID" "0 < e"
    and "length (pa_hdr pe (dcaFmtMsg cl (DCA_CLOSE OR DCA_EXP) DHS_IAMPAN)) = SZMSG"
  shows "dhsUtilCloseExp pe istat dhsID e cl = Some (DHS_OK, sent ToSuper (pa_hdr pe (dcaFmtMsg cl (DCA_CLOSE OR DCA_EXP) DHS_IAMPAN))
    (sent ToCollector (pa_hdr pe (dcaFmtMsg cl (DCA_CLOSE OR DCA_EXP) DHS_IAMPAN)) cl))"
  using assms by (simp add: dhsUtilCloseExp_def dcaSendMsg_ok [of N])

subsection \<open>What the collector does with it\<close>

lemmas DCA_defs = DCA_OPEN_def DCA_CLOSE_def DCA_INIT_def DCA_NOOP_def DCA_SET_def DCA_CONNECT_def DCA_EXP_def DCA_META_def
  DCA_PIXEL_def DCA_FP_CONFIG_def DCA_EXP_OBSID_def DCA_DIRECTORY_def DCA_FNAME_def

lemma col_message_pixel:
  assumes "mh_type (ce_hdr ce (co_buf st)) = DCA_PIXEL"
  shows "col_message ce st = col_pixel ce st"
  using assms by (simp add: col_message_def has_def Let_def DCA_defs)

lemma col_message_close:
  assumes "mh_type (ce_hdr ce (co_buf st)) = DCA_CLOSE OR DCA_EXP"
  shows "col_message ce st = Some (Ret (col_send ''set'' (''transfer '' @ show_int (sint (co_total st)))
             (col_send ''status'' ''Waiting for input...'' (col_send ''status'' ''inactive'' st))))"
  using assms by (simp add: col_message_def has_def Let_def DCA_defs)

lemma col_loop_next:
  assumes "col_message ce st = Some (Go st1)" "\<forall>e \<in> set (co_ev st1). ev_good e" "SZMSG \<le> reads (co_ev st1)"
    and "co_in st1 = hdr @ later" "length hdr = SZMSG" "length (co_buf st1) = SZMSG"
  shows "\<exists>es. col_loop ce (int SZMSG) st = col_loop ce (int SZMSG) (st1\<lparr>co_in := later, co_ev := es, co_buf := hdr\<rparr>)
    \<and> (\<forall>e \<in> set es. ev_good e) \<and> reads (co_ev st1) \<le> reads es + SZMSG"
proof -
  have p: "0 < SZMSG" by (simp add: SZMSG_def)
  obtain es where r: "col_recv SZMSG (int SZMSG) st1 = Some (int SZMSG, hdr, st1\<lparr>co_in := later, co_ev := es\<rparr>)"
      "\<forall>e \<in> set es. ev_good e" "reads (co_ev st1) \<le> reads es + SZMSG"
    using col_recv_returns [of st1 hdr SZMSG later] assms(2-5) p by auto
  have "col_loop ce (int SZMSG) st = col_loop ce (int SZMSG) (st1\<lparr>co_in := later, co_ev := es, co_buf := hdr\<rparr>)"
    using p by (subst col_loop.simps) (simp add: assms(1,5,6) r(1))
  then show ?thesis using r by blast
qed

text \<open>The kernel gives the cache a segment of \<open>sz\<close> bytes for its free slot.\<close>

definition slot_granted :: "proc_env \<Rightarrow> smCache_t \<Rightarrow> int \<Rightarrow> int \<Rightarrow> addr_t \<Rightarrow> bool" where
  "slot_granted env smc sz sid a \<longleftrightarrow>
     (let l = seg_lockfile smc (find_slot smc); k = ftok (pe_os env) l (int (length l mod 256)); n = word_of_int (pe_sizeof_seg env + sz + 3)
      in smc_inv smc \<and> sc_npages smc < sc_np_max smc \<and> sz \<le> MAX_SEG_SIZE \<and> length l < SZ_FNAME \<and> k \<noteq> 0 \<and> n \<noteq> 0
         \<and> fopen_append (pe_os env) l \<and> append_pos (pe_os env) l = 0 \<and> pe_calloc env \<and> pe_pid env \<noteq> 0
         \<and> shmget (pe_os env) k n True = sid \<and> sid \<noteq> ERR \<and> sid \<noteq> 0 \<and> shmat (pe_os env) sid = a \<and> a \<noteq> ERR \<and> a \<noteq> 0
         \<and> a + pe_sizeof_seg env + 1 \<noteq> 0)"

text \<open>What a page of pixels looks like once it is in the cache.\<close>

definition pixels_stored :: "col_env \<Rightarrow> smCache_t \<Rightarrow> cdouble \<Rightarrow> string \<Rightarrow> fpConfig_t \<Rightarrow> int \<Rightarrow> string \<Rightarrow> int \<Rightarrow> col_state \<Rightarrow> bool" where
  "pixels_stored ce smc e ob fp num pix sid st \<longleftrightarrow>
     (case (co_smc st, w_shm (co_w st) sid) of
        (Some smc', Some h) \<Rightarrow>
          (let p = sc_pdata smc' ! find_slot smc in
           sc_pdata smc' = (sc_pdata smc)[find_slot smc := p] \<and> pg_ac_locked p = 0 \<and> pg_type p = TY_DATA \<and> pg_expID p = e \<and> pg_colID p = ce_colID ce
           \<and> seg_fpCfg h = fp \<and> seg_expID h = e \<and> seg_obsetID h = ob \<and> seg_colID h = ce_colID ce \<and> seg_expPageNum h = num)
      | _ \<Rightarrow> False)
     \<and> take (length pix) (co_mem st sid) = pix"

lemma col_pixel_stored:
  assumes ev: "\<forall>e \<in> set (co_ev st). ev_good e" "length fpb + length pix \<le> reads (co_ev st)"
    and inp: "co_in st = fpb @ pix @ later" "length fpb = ce_size_fp ce" "fpb \<noteq> []" "pix \<noteq> []"
    and fp: "ce_fp ce fpb (co_fp st) = fp" "im_size fp = int (length pix)"
    and lock: "w_sem (co_w st) = Some v" "0 < v" "w_sem_init (co_w st) (pe_pid (ce_env ce))"
    and cache: "co_smc st = Some smc" "slot_granted (ce_env ce) smc (int (length pix)) sid a"
    and ids: "length (buf_str (co_obset st)) < SZ_PATH" "length (ce_colID ce) < SZ_PATH"
  shows "\<exists>st'. col_pixel ce st = Some (Go st') \<and> pixels_stored ce smc (co_expID st) (buf_str (co_obset st)) fp (co_expPageNum st) pix sid st'
    \<and> co_in st' = later \<and> w_sem (co_w st') = Some v \<and> (\<forall>e \<in> set (co_ev st'). ev_good e) \<and> reads (co_ev st) \<le> reads (co_ev st') + length fpb + length pix
    \<and> co_sent st' = co_sent st @ [(''status'', ''Reading Pixel data...'')] \<and> co_total st' = co_total st + word_of_int (int (length pix)) \<and> co_buf st' = co_buf st"
proof -
  note g = cache(2) [unfolded slot_granted_def Let_def]
  have i: "find_slot smc < length (sc_pdata smc)" using g find_slot_free by blast
  obtain st' smc' p h where r: "col_pixel ce st = Some (Go st')" "co_smc st' = Some smc'" "sc_pdata smc' = (sc_pdata smc)[find_slot smc := p]"
      "pg_ac_locked p = 0" "pg_type p = TY_DATA" "pg_expID p = co_expID st" "pg_colID p = ce_colID ce"
      "w_shm (co_w st') sid = Some h" "seg_fpCfg h = fp" "seg_expID h = co_expID st" "seg_obsetID h = buf_str (co_obset st)"
      "seg_colID h = ce_colID ce" "seg_expPageNum h = co_expPageNum st"
      "take (length pix) (co_mem st' sid) = pix" "co_in st' = later" "w_sem (co_w st') = Some v"
      "\<forall>e \<in> set (co_ev st'). ev_good e" "reads (co_ev st) \<le> reads (co_ev st') + length fpb + length pix"
      "co_sent st' = co_sent st @ [(''status'', ''Reading Pixel data...'')]" "co_total st' = co_total st + word_of_int (int (length pix))" "co_buf st' = co_buf st"
    using collector_stores_pixels [OF ev inp fp(1) [symmetric] fp(2) refl lock cache(1) _ _ _ refl refl _ refl _ refl, where sid = sid and a = a] g ids by auto
  moreover have "sc_pdata smc' ! find_slot smc = p" using r(3) i by simp
  ultimately show ?thesis by (auto simp: pixels_stored_def)
qed

lemma col_loop_ends:
  assumes "col_message ce st = Some (Ret st')"
  shows "col_loop ce (int SZMSG) st = Some (Ret st')"
  by (subst col_loop.simps) (simp add: assms SZMSG_def)

lemma buf_str_strncpy_buf:
  assumes "length s < n" "NUL \<notin> set s"
  shows "buf_str (strncpy_buf s n) = s"
proof -
  have "strncpy_buf s n = s @ NUL # replicate (n - Suc (length s)) NUL"
    using assms(1) by (simp add: strncpy_buf_def flip: replicate_Suc add: Suc_diff_Suc)
  moreover have "takeWhile (\<lambda>c. c \<noteq> NUL) s = s" using assms(2) by (auto simp: takeWhile_eq_all_conv)
  ultimately show ?thesis using assms(2) by (auto simp: buf_str_def takeWhile_append2)
qed

lemma collector_reads_pixels:
  assumes agree: "\<forall>t w. length (m t w) = SZMSG \<and> ce_hdr ce (m t w) = \<lparr>mh_type = t, mh_whoami = w, mh_expnum = e, mh_obset = ob\<rparr>"
    and buf: "co_buf st = m DCA_PIXEL w1" and inp: "co_in st = fpb @ pix @ m (DCA_CLOSE OR DCA_EXP) w2 @ later"
    and ev: "\<forall>e \<in> set (co_ev st). ev_good e" "length fpb + length pix + SZMSG \<le> reads (co_ev st)"
    and fp: "length fpb = ce_size_fp ce" "fpb \<noteq> []" "pix \<noteq> []" "ce_fp ce fpb (co_fp st) = fp" "im_size fp = int (length pix)"
    and lock: "w_sem (co_w st) = Some v" "0 < v" "w_sem_init (co_w st) (pe_pid (ce_env ce))"
    and cache: "co_smc st = Some smc" "slot_granted (ce_env ce) smc (int (length pix)) sid a"
    and ids: "length (buf_str (co_obset st)) < SZ_PATH" "length (ce_colID ce) < SZ_PATH"
  shows "\<exists>st'. col_loop ce (int SZMSG) st = Some (Ret st') \<and> pixels_stored ce smc (co_expID st) (buf_str (co_obset st)) fp (co_expPageNum st) pix sid st'
    \<and> co_in st' = later \<and> w_sem (co_w st') = Some v
    \<and> co_sent st' = co_sent st @ [(''status'', ''Reading Pixel data...''), (''status'', ''inactive''), (''status'', ''Waiting for input...''),
        (''set'', ''transfer '' @ show_int (sint (co_total st + word_of_int (int (length pix)))))]"
proof -
  let ?c = "m (DCA_CLOSE OR DCA_EXP) w2"
  have len: "length (m t w) = SZMSG" for t w using agree by blast
  have hdr: "ce_hdr ce (m t w) = \<lparr>mh_type = t, mh_whoami = w, mh_expnum = e, mh_obset = ob\<rparr>" for t w using agree by blast
  have "length fpb + length pix \<le> reads (co_ev st)" using ev(2) by simp
  then obtain s1 where 1: "col_pixel ce st = Some (Go s1)" "pixels_stored ce smc (co_expID st) (buf_str (co_obset st)) fp (co_expPageNum st) pix sid s1"
      "co_in s1 = ?c @ later" "w_sem (co_w s1) = Some v" "\<forall>e \<in> set (co_ev s1). ev_good e" "reads (co_ev st) \<le> reads (co_ev s1) + length fpb + length pix"
      "co_sent s1 = co_sent st @ [(''status'', ''Reading Pixel data...'')]" "co_total s1 = co_total st + word_of_int (int (length pix))" "co_buf s1 = co_buf st"
    using col_pixel_stored [OF ev(1) _ inp fp(1-5) lock cache ids] by blast
  have "col_message ce st = Some (Go s1)" using col_message_pixel [of ce st] buf hdr 1(1) by simp
  then obtain es where 2: "col_loop ce (int SZMSG) st = col_loop ce (int SZMSG) (s1\<lparr>co_in := later, co_ev := es, co_buf := ?c\<rparr>)"
    using col_loop_next [of ce st s1 ?c later] 1 ev(2) len buf by fastforce
  let ?s2 = "s1\<lparr>co_in := later, co_ev := es, co_buf := ?c\<rparr>"
  define s3 where "s3 = col_send ''set'' (''transfer '' @ show_int (sint (co_total ?s2)))
             (col_send ''status'' ''Waiting for input...'' (col_send ''status'' ''inactive'' ?s2))"
  have "col_loop ce (int SZMSG) ?s2 = Some (Ret s3)"
    unfolding s3_def by (rule col_loop_ends, rule col_message_close) (simp add: hdr)
  moreover have "pixels_stored ce smc (co_expID st) (buf_str (co_obset st)) fp (co_expPageNum st) pix sid s3"
    using 1(2) by (simp add: s3_def col_send_def pixels_stored_def)
  ultimately show ?thesis using 1 2 by (auto simp: s3_def col_send_def)
qed

text \<open>C3.  The pixels of an exposure arrive in the cache: when the channels take what is written, the library and the
  collector agree on the layout of the structures, and the lock, the cache and the kernel allow a page,
  then sending the pixels and closing the exposure succeed, and the collector that has read the first
  header of what they have written, however the rest is cut up on the way, returns with an unlocked page
  whose header carries the identifiers the collector holds, the focal plane configuration sent with the
  pixels and the current page number, and whose segment holds the pixels; it has released the lock, left
  what comes behind in the stream and reported the number of bytes to the supervisor.\<close>

theorem pixels_reach_cache:
  assumes client: "chan_ok N cl" "SZMSG \<le> N" "length (pa_fp pe fp) \<le> N" "length pix \<le> N" "\<not> pa_simulator pe" "\<not> pa_bad pe DHS_OK"
      "0 \<le> dhsID" "0 < expID"
    and layout: "\<forall>t w. hdr_agrees ce pe (dcaFmtMsg cl t w)" "length (pa_fp pe fp) = ce_size_fp ce" "0 < ce_size_fp ce" "\<forall>old. ce_fp ce (pa_fp pe fp) old = fp"
    and raster: "im_size fp = int (length pix)" "pix \<noteq> []"
    and ev: "\<forall>e \<in> set (co_ev st). ev_good e" "ce_size_fp ce + length pix + SZMSG \<le> reads (co_ev st)"
    and ids: "length (buf_str (co_obset st)) < SZ_PATH" "length (ce_colID ce) < SZ_PATH"
    and lock: "w_sem (co_w st) = Some v" "0 < v" "w_sem_init (co_w st) (pe_pid (ce_env ce))"
    and cache: "co_smc st = Some smc" "slot_granted (ce_env ce) smc (int (length pix)) sid a"
  shows "\<exists>cl1 cl2 hdr body st'. dhsSendPixelData pe DHS_OK pix fp cl = Some (DHS_OK, cl1) \<and> dhsUtilCloseExp pe DHS_OK dhsID expID cl1 = Some (DHS_OK, cl2)
    \<and> length hdr = SZMSG \<and> cl_out cl2 ToCollector = cl_out cl ToCollector @ hdr @ body
    \<and> col_loop ce (int SZMSG) (st\<lparr>co_buf := hdr, co_in := body @ later\<rparr>) = Some (Ret st')
    \<and> pixels_stored ce smc (co_expID st) (buf_str (co_obset st)) fp (co_expPageNum st) pix sid st' \<and> co_in st' = later \<and> w_sem (co_w st') = Some v
    \<and> co_sent st' = co_sent st @ [(''status'', ''Reading Pixel data...''), (''status'', ''inactive''), (''status'', ''Waiting for input...''),
        (''set'', ''transfer '' @ show_int (sint (co_total st + word_of_int (int (length pix)))))]"
proof -
  define m where "m = (\<lambda>t w. pa_hdr pe (dcaFmtMsg cl t w))"
  have agree: "\<forall>t w. length (m t w) = SZMSG \<and> ce_hdr ce (m t w) = \<lparr>mh_type = t, mh_whoami = w, mh_expnum = cl_expID cl, mh_obset = strncpy_buf (cl_obsSetID cl) 80\<rparr>"
    using layout(1) by (simp add: hdr_agrees_def m_def dcaFmtMsg_def)
  then have len: "length (m t w) = SZMSG" for t w by blast
  let ?c1 = "sent ToCollector pix (sent ToCollector (pa_fp pe fp) (sent ToCollector (m DCA_PIXEL DHS_IAMWHO) cl))"
  have c1: "dhsSendPixelData pe DHS_OK pix fp cl = Some (DHS_OK, ?c1)"
    using dhsSendPixelData_writes [OF client(1-4) raster(2) client(5)] len by (simp add: m_def)
  let ?c = "m (DCA_CLOSE OR DCA_EXP) DHS_IAMPAN"
  let ?c2 = "sent ToSuper ?c (sent ToCollector ?c ?c1)"
  have c2: "dhsUtilCloseExp pe DHS_OK dhsID expID ?c1 = Some (DHS_OK, ?c2)"
    using dhsUtilCloseExp_writes [of N ?c1 pe DHS_OK dhsID expID] client len by (simp add: m_def)
  have ne: "pa_fp pe fp \<noteq> []" using layout(2,3) by auto
  let ?st = "st\<lparr>co_buf := m DCA_PIXEL DHS_IAMWHO, co_in := (pa_fp pe fp @ pix @ ?c) @ later\<rparr>"
  obtain st' where "col_loop ce (int SZMSG) ?st = Some (Ret st')" "pixels_stored ce smc (co_expID st) (buf_str (co_obset st)) fp (co_expPageNum st) pix sid st'"
      "co_in st' = later" "w_sem (co_w st') = Some v"
      "co_sent st' = co_sent st @ [(''status'', ''Reading Pixel data...''), (''status'', ''inactive''), (''status'', ''Waiting for input...''),
        (''set'', ''transfer '' @ show_int (sint (co_total st + word_of_int (int (length pix)))))]"
    using collector_reads_pixels [OF agree, of ?st DHS_IAMWHO "pa_fp pe fp" pix DHS_IAMPAN later fp v smc sid a] layout(2-4) ne raster ev ids lock cache by auto
  then show ?thesis using c1 c2 len
    by (intro exI [of _ ?c1] exI [of _ ?c2] exI [of _ "m DCA_PIXEL DHS_IAMWHO"] exI [of _ "pa_fp pe fp @ pix @ ?c"] exI [of _ st']) simp
qed

subsection \<open>An exposure of one pixel\<close>

text \<open>Headers with type and sender as digits; one process, one collector and one client.\<close>

definition word_digits :: "32 word \<Rightarrow> string" where
  "word_digits w = map (\<lambda>i. if bit w i then CHR ''1'' else CHR ''0'') [0..<32]"

definition digits_word :: "string \<Rightarrow> 32 word" where
  "digits_word s = horner_sum of_bool 2 (map (\<lambda>c. c = CHR ''1'') (take 32 s))"

lemma digits_word_digits: "digits_word (word_digits w @ s) = w"
proof -
  have "map (\<lambda>c. c = CHR ''1'') (word_digits w) = map (bit w) [0..<32]" by (simp add: word_digits_def)
  then have "digits_word (word_digits w @ s) = horner_sum of_bool 2 (map (bit w) [0..<32])" by (simp add: digits_word_def word_digits_def comp_def)
  also have "\<dots> = w" by (simp add: horner_sum_bit_eq_take_bit take_bit_word_eq_self)
  finally show ?thesis .
qed

definition sample_pe :: pan_env where
  "sample_pe = \<lparr>pa_simulator = False, pa_bad = (\<lambda>s. s < 0), pa_hdr = (\<lambda>h. word_digits (mh_type h) @ word_digits (mh_whoami h) @ replicate 56 NUL),
     pa_fp = (\<lambda>fp. ''fp''), pa_md = (\<lambda>md. ''md''), pa_size = (\<lambda>n. [char_of n]), pa_answer = (\<lambda>_ _. 120),
     pa_init = (\<lambda>_ st. (DCA_OK, st))\<rparr>"

definition sample_cl :: dhs_client where
  "sample_cl = \<lparr>cl_expID = 0, cl_obsSetID = [], cl_DIR = replicate DHS_MAXSTR NUL, cl_FILENAME = replicate DHS_MAXSTR NUL, cl_FLAG = 0,
     cl_out = (\<lambda>_. []), cl_wr = (\<lambda>_ _. WriteInterrupted # replicate 120 (Wrote 3)), cl_sends = (\<lambda>_. 0)\<rparr>"

definition sample_fp :: fpConfig_t where
  "sample_fp = zero_fpConfig\<lparr>fp_xSize := 1, fp_ySize := 1\<rparr>"

definition sample_ce :: col_env where
  "sample_ce = \<lparr>ce_env = sample_proc, ce_others = (\<lambda>_ s. s),
     ce_hdr = (\<lambda>b. \<lparr>mh_type = digits_word b, mh_whoami = digits_word (drop 32 b), mh_expnum = 42, mh_obset = strncpy_buf ''obs'' 80\<rparr>),
     ce_int = (\<lambda>b. int (of_char (hd b))), ce_fp = (\<lambda>b fp. sample_fp), ce_md = (\<lambda>b md. md), ce_size_fp = 2, ce_size_md = 2,
     ce_colID = ''A'', ce_temp = False\<rparr>"

definition sample_col :: col_state where
  "sample_col = \<lparr>co_w = sample_world\<lparr>w_sem := Some 1, w_sem_init := (\<lambda>_. True)\<rparr>, co_smc = Some sample_cache, co_mem = (\<lambda>_. []), co_in = [],
     co_ev = SelectError # replicate 700 (ReadBytes 3), co_expPageNum = 5, co_buf = replicate SZMSG NUL, co_fp = zero_fpConfig, co_md = zero_mdConfig,
     co_expID = 0, co_obset = [], co_total = 0, co_reply = [], co_sent = []\<rparr>"

lemma sample_hdr_agrees:
  "hdr_agrees sample_ce sample_pe \<lparr>mh_type = t, mh_whoami = w, mh_expnum = 42, mh_obset = strncpy_buf ''obs'' 80\<rparr>"
proof -
  have l: "length (word_digits t) = 32" for t by (simp add: word_digits_def)
  then have "drop 32 (word_digits t @ s) = s" for s by simp
  then show ?thesis by (simp add: hdr_agrees_def sample_ce_def sample_pe_def digits_word_digits l SZMSG_def)
qed

lemma sample_chan_ok: "chan_ok 120 sample_cl"
  by (auto simp: chan_ok_def sample_cl_def wr_good_def writes_def filter_replicate)

lemma sample_slot_granted: "slot_granted (ce_env sample_ce) sample_cache 4 5 8192"
  by (simp add: slot_granted_def sample_ce_def sample_lockfile MAX_SEGS_def MAX_SEG_SIZE_def SZ_FNAME_def sample_proc_def sample_os_def ERR_def)

theorem pixels_reach_cache_witness:
  "\<exists>cl1 cl2 hdr body st'. dhsSendPixelData sample_pe DHS_OK ''abcd'' sample_fp (sample_cl\<lparr>cl_expID := 42, cl_obsSetID := ''obs''\<rparr>) = Some (DHS_OK, cl1)
    \<and> dhsUtilCloseExp sample_pe DHS_OK 0 42 cl1 = Some (DHS_OK, cl2) \<and> cl_out cl2 ToCollector = hdr @ body
    \<and> col_loop sample_ce (int SZMSG) (sample_col\<lparr>co_expID := 42, co_obset := strncpy_buf ''obs'' 80, co_buf := hdr, co_in := body @ ''rest''\<rparr>) = Some (Ret st')
    \<and> pixels_stored sample_ce sample_cache 42 ''obs'' sample_fp 5 ''abcd'' 5 st' \<and> co_in st' = ''rest'' \<and> w_sem (co_w st') = Some 1"
proof -
  let ?cl = "sample_cl\<lparr>cl_expID := 42, cl_obsSetID := ''obs''\<rparr>" and ?st = "sample_col\<lparr>co_expID := 42, co_obset := strncpy_buf ''obs'' 80\<rparr>"
  have client: "chan_ok 120 ?cl" "SZMSG \<le> 120" "length (pa_fp sample_pe sample_fp) \<le> 120" "length ''abcd'' \<le> 120" "\<not> pa_simulator sample_pe"
      "\<not> pa_bad sample_pe DHS_OK" "(0::int) \<le> 0" "(0::rat) < 42"
    using sample_chan_ok by (simp_all add: SZMSG_def sample_pe_def DHS_OK_def chan_ok_def)
  have hdr: "\<forall>t w. hdr_agrees sample_ce sample_pe (dcaFmtMsg ?cl t w)" using sample_hdr_agrees by (simp add: dcaFmtMsg_def)
  have layout: "length (pa_fp sample_pe sample_fp) = ce_size_fp sample_ce" "0 < ce_size_fp sample_ce" "\<forall>old. ce_fp sample_ce (pa_fp sample_pe sample_fp) old = sample_fp"
    by (simp_all add: sample_pe_def sample_ce_def)
  have raster: "im_size sample_fp = int (length ''abcd'')" "''abcd'' \<noteq> []" by (simp_all add: im_size_def sample_fp_def)
  have ev: "\<forall>e \<in> set (co_ev ?st). ev_good e" "ce_size_fp sample_ce + length ''abcd'' + SZMSG \<le> reads (co_ev ?st)"
    by (auto simp: sample_col_def sample_ce_def ev_good_def reads_def filter_replicate SZMSG_def)
  have o: "buf_str (co_obset ?st) = ''obs''" using buf_str_strncpy_buf [of "''obs''" 80] by (simp add: NUL_def)
  then have ids: "length (buf_str (co_obset ?st)) < SZ_PATH" "length (ce_colID sample_ce) < SZ_PATH" by (simp_all add: sample_ce_def SZ_PATH_def)
  have state: "w_sem (co_w ?st) = Some 1" "0 < (1::int)" "w_sem_init (co_w ?st) (pe_pid (ce_env sample_ce))" "co_smc ?st = Some sample_cache"
    by (simp_all add: sample_col_def sample_ce_def)
  have slot: "slot_granted (ce_env sample_ce) sample_cache (int (length ''abcd'')) 5 8192" using sample_slot_granted by simp
  have e: "co_expID ?st = 42" "co_expPageNum ?st = 5" "cl_out ?cl ToCollector = []" by (simp_all add: sample_col_def sample_cl_def)
  show ?thesis using pixels_reach_cache [OF client hdr layout raster ev ids state slot, of "''rest''"] unfolding o e by force
qed

subsection \<open>Receiving meta-data\<close>

lemma col_meta_receives:
  assumes ev: "\<forall>e \<in> set (co_ev st). ev_good e" "SZMSG + length blk + length mdb \<le> reads (co_ev st)"
    and inp: "co_in st = szb @ blk @ mdb @ later" "length szb = SZMSG" "ce_int ce szb = int (length blk)" "length mdb = ce_size_md ce" "mdb \<noteq> []" "blk \<noteq> []"
    and buf: "length (co_buf st) = SZMSG"
  shows "\<exists>es. col_meta ce st = store_meta ce (int (length blk)) blk (st\<lparr>co_buf := szb, co_sent := co_sent st @ [(''status'', ''Reading metadata...'')], co_in := later, co_ev := es,
      co_md := ce_md ce mdb (co_md st), co_total := co_total st + word_of_nat (length blk)\<rparr>)"
proof -
  have p: "0 < SZMSG" "0 < length blk" "0 < ce_size_md ce" using inp(4) [symmetric] inp(5,6) by (auto simp: SZMSG_def)
  obtain e1 where 1: "col_recv SZMSG (int SZMSG) st = Some (int SZMSG, szb, st\<lparr>co_in := blk @ mdb @ later, co_ev := e1\<rparr>)"
      "\<forall>e \<in> set e1. ev_good e" "length blk + length mdb \<le> reads e1"
    using col_recv_returns [of st szb SZMSG "blk @ mdb @ later"] ev inp p by force
  define s2 where "s2 = col_send ''status'' ''Reading metadata...'' (st\<lparr>co_in := blk @ mdb @ later, co_ev := e1, co_buf := szb\<rparr>)"
  obtain e2 where 2: "col_recv (length blk) (int (length blk)) s2 = Some (int (length blk), blk, s2\<lparr>co_in := mdb @ later, co_ev := e2\<rparr>)"
      "\<forall>e \<in> set e2. ev_good e" "length mdb \<le> reads e2"
    using col_recv_returns [of s2 blk "length blk" "mdb @ later"] 1 p by (fastforce simp: s2_def col_send_def)
  obtain e3 where 3: "col_recv (ce_size_md ce) (int (ce_size_md ce)) (s2\<lparr>co_in := mdb @ later, co_ev := e2\<rparr>)
      = Some (int (length mdb), mdb, s2\<lparr>co_in := later, co_ev := e3\<rparr>)"
    using col_recv_returns [of "s2\<lparr>co_in := mdb @ later, co_ev := e2\<rparr>" mdb "ce_size_md ce" later] 2(2,3) inp(4) p(3) by auto
  have b: "szb @ drop SZMSG (co_buf st) = szb" using buf by simp
  have "col_meta ce st = store_meta ce (int (length blk)) blk (s2\<lparr>co_in := later, co_ev := e3, co_md := ce_md ce mdb (co_md s2), co_total := co_total s2 + word_of_nat (length blk)\<rparr>)"
    by (simp add: col_meta_def Let_def 1(1) inp(2,3) b s2_def [symmetric] 2(1) 3)
  then show ?thesis by (intro exI [of _ e3]) (simp add: s2_def col_send_def)
qed

subsection \<open>Where it goes wrong\<close>

text \<open>C31.  A block of meta-data that is larger than a segment may be leaves the cache locked for ever: no page is
  returned, the handler returns without \<open>smcMutexOff\<close>, and from then on every process that asks for
  the lock waits for ever.\<close>

theorem collector_meta_keeps_lock:
  assumes ev: "\<forall>e \<in> set (co_ev st). ev_good e" "SZMSG + length blk + length mdb \<le> reads (co_ev st)"
    and inp: "co_in st = szb @ blk @ mdb @ later" "length szb = SZMSG" "ce_int ce szb = int (length blk)" "length mdb = ce_size_md ce" "mdb \<noteq> []"
    and big: "MAX_SEG_SIZE < int (length blk)" "length blk < 2 ^ 31"
    and state: "length (co_buf st) = SZMSG" "co_smc st = Some smc"
    and lock: "w_sem (co_w st) = Some 1" "w_sem_init (co_w st) (pe_pid (ce_env ce))"
  shows "\<exists>st'. col_meta ce st = Some (Ret st') \<and> w_sem (co_w st') = Some 0 \<and> w_sem_init (co_w st') = w_sem_init (co_w st) \<and> co_smc st' = Some smc \<and> co_in st' = later
    \<and> (\<forall>env'. w_sem_init (co_w st') (pe_pid env') \<longrightarrow> smcMutexOn env' (co_w st') = None)"
proof -
  have "blk \<noteq> []" using big(1) by (auto simp: MAX_SEG_SIZE_def)
  then obtain es where meta: "col_meta ce st = store_meta ce (int (length blk)) blk (st\<lparr>co_buf := szb,
      co_sent := co_sent st @ [(''status'', ''Reading metadata...'')], co_in := later, co_ev := es, co_md := ce_md ce mdb (co_md st), co_total := co_total st + word_of_nat (length blk)\<rparr>)"
    using col_meta_receives [OF ev inp _ state(1)] by blast
  have sz: "uint (word_of_nat (length blk) :: xlong) = int (length blk)" using big(2) by (simp add: unsigned_of_nat take_bit_nat_eq_self)
  have "smcMutexOn (ce_env ce) (co_w st) = Some ((co_w st)\<lparr>w_sem := Some 0\<rparr>)" using smcMutexOn_free [OF lock(1) _ lock(2)] by simp
  then show ?thesis unfolding meta using state(2) big(1) by (auto simp: store_meta_def smcGetPage_def sz mutex_defs)
qed

text \<open>C30.  Opening an exposure reads behind the library's buffers: on channels that are alive and take what is written,
  \<open>dhsUtilOpenExp\<close> needs 256 bytes in each of \<open>dhsUtilDIR\<close> and \<open>dhsUtilFILENAME\<close>, and returns \<open>DHS_OK\<close> if they
  have them; but the buffers have 128 bytes, and \<open>dhsUtilIOCtl\<close> fills in no more, so that the call never
  returns properly.\<close>

theorem dhsUtilOpenExp_overreads:
  assumes ok: "chan_ok N cl" "256 \<le> N" "length (pa_fp pe fp) \<le> N" "\<forall>c t w. length (pa_hdr pe (dcaFmtMsg c t w)) = SZMSG"
    and alive: "\<forall>c k. pa_answer pe c k \<noteq> DCA_ERR" and args: "\<not> pa_bad pe istat" "\<not> pa_simulator pe" "0 \<le> dhsID"
  shows "(if length (cl_DIR cl) < 256 \<or> length (cl_FILENAME cl) < 256 then dhsUtilOpenExp pe istat dhsID (Some fp) (Some e) (Some ob) cl = None
      else \<exists>cl'. dhsUtilOpenExp pe istat dhsID (Some fp) (Some e) (Some ob) cl = Some (DHS_OK, cl'))
    \<and> length (cl_DIR (snd (dhsUtilIOCtl pe istat DHS_IOC_SETDIR name cl))) < 256
    \<and> length (cl_FILENAME (snd (dhsUtilIOCtl pe istat DHS_IOC_SETFILENAME name cl))) < 256"
proof -
  have N: "SZMSG \<le> N" using ok(2) by (simp add: SZMSG_def)
  let ?c1 = "sent ToSuper (pa_hdr pe (dcaFmtMsg cl DCA_NOOP 0)) cl"
  let ?c2 = "?c1\<lparr>cl_expID := e, cl_obsSetID := ob\<rparr>"
  define st where "st = sent ToCollector (pa_hdr pe (dcaFmtMsg ?c2 DCA_NOOP 0)) ?c2"
  have k: "chan_ok N ?c2" "chan_ok N st" "cl_DIR st = cl_DIR cl" "cl_FILENAME st = cl_FILENAME cl" using ok(1) by (simp_all add: chan_ok_def sent_def st_def)
  obtain r1 where 1: "dcaValidateChannel pe ToSuper cl = Some (r1, ?c1)" "r1 \<noteq> DCA_ERR"
    using dcaValidateChannel_ok [OF ok(1) N, of pe ToSuper] ok(4) alive by blast
  obtain r2 where 2: "dcaValidateChannel pe ToCollector ?c2 = Some (r2, st)" "r2 \<noteq> DCA_ERR"
    using dcaValidateChannel_ok [OF k(1) N, of pe ToCollector] ok(4) alive unfolding st_def by blast
  have "dhsUtilOpenExp pe istat dhsID (Some fp) (Some e) (Some ob) cl = open_exp_send pe fp st" using 1 2 args by (simp add: dhsUtilOpenExp_def)
  moreover have "open_exp_send pe fp st = None \<longleftrightarrow> length (cl_DIR cl) < 256 \<or> length (cl_FILENAME cl) < 256"
      "\<And>r st'. open_exp_send pe fp st = Some (r, st') \<Longrightarrow> r = DHS_OK"
    using open_exp_send_result [OF k(2) ok(2,3)] ok(4) k(3,4) by auto
  moreover have "length (cl_DIR (snd (dhsUtilIOCtl pe istat DHS_IOC_SETDIR name cl))) < 256" "length (cl_FILENAME (snd (dhsUtilIOCtl pe istat DHS_IOC_SETFILENAME name cl))) < 256"
    using args(1) by (simp_all add: dhsUtilIOCtl_def DHS_IOC_SETDIR_def DHS_IOC_SETFILENAME_def strncpy_buf_def DHS_MAXSTR_def)
  ultimately show ?thesis by (cases "open_exp_send pe fp st") auto
qed

text \<open>The name of a directory overruns the collector's buffer: when the 256 bytes that the library sends for it
  arrive, they never fit the 120 bytes of \<open>dirname\<close>.\<close>

theorem directory_name_overruns:
  assumes "\<forall>e \<in> set (co_ev st). ev_good e" "256 \<le> length (co_in st)" "mh_type (ce_hdr ce (co_buf st)) = DCA_DIRECTORY"
  shows "col_message ce st = None"
proof -
  have "col_recv SZMSG 256 st = None" using dcaRecv_overrun [OF assms(1), of SZMSG 256] assms(2) by (simp add: col_recv_def SZMSG_def)
  then have "col_directory st = None" by (simp add: col_directory_def)
  moreover have "col_message ce st = col_directory st" using assms(3) by (simp add: col_message_def has_def Let_def DCA_defs)
  ultimately show ?thesis by simp
qed

theorem collector_meta_keeps_lock_witness:
  "\<exists>st'. col_meta (sample_ce\<lparr>ce_int := (\<lambda>_. 40000000)\<rparr>)
      (sample_col\<lparr>co_in := replicate SZMSG NUL @ replicate 40000000 NUL @ ''md'' @ [], co_ev := replicate 50000000 (ReadBytes 9)\<rparr>) = Some (Ret st')
    \<and> w_sem (co_w st') = Some 0 \<and> smcMutexOn sample_proc (co_w st') = None"
proof -
  let ?ce = "sample_ce\<lparr>ce_int := (\<lambda>_. 40000000)\<rparr>"
  let ?st = "sample_col\<lparr>co_in := replicate SZMSG NUL @ replicate 40000000 NUL @ ''md'' @ [], co_ev := replicate 50000000 (ReadBytes 9)\<rparr>"
  have ev: "\<forall>e \<in> set (co_ev ?st). ev_good e" "SZMSG + length (replicate 40000000 NUL) + length ''md'' \<le> reads (co_ev ?st)"
    by (auto simp: ev_good_def reads_def filter_replicate SZMSG_def)
  have inp: "co_in ?st = replicate SZMSG NUL @ replicate 40000000 NUL @ ''md'' @ []" "length (replicate SZMSG NUL) = SZMSG"
      "ce_int ?ce (replicate SZMSG NUL) = int (length (replicate 40000000 NUL))" "length ''md'' = ce_size_md ?ce" "''md'' \<noteq> []"
    by (simp_all add: sample_ce_def)
  have big: "MAX_SEG_SIZE < int (length (replicate 40000000 NUL))" "length (replicate 40000000 NUL) < 2 ^ 31" by (simp_all add: MAX_SEG_SIZE_def)
  have state: "length (co_buf ?st) = SZMSG" "co_smc ?st = Some sample_cache" "w_sem (co_w ?st) = Some 1" "w_sem_init (co_w ?st) (pe_pid (ce_env ?ce))"
    by (simp_all add: sample_col_def)
  have "w_sem_init (co_w ?st) (pe_pid sample_proc)" by (simp add: sample_col_def)
  then show ?thesis using collector_meta_keeps_lock [OF ev inp big state] by metis
qed

theorem dhsUtilOpenExp_overreads_witness:
  "dhsUtilOpenExp sample_pe 0 0 (Some sample_fp) (Some 42) (Some ''obs'')
      (sample_cl\<lparr>cl_wr := (\<lambda>_ _. replicate 256 (Wrote 3)), cl_DIR := replicate DHS_MAXSTR NUL, cl_FILENAME := replicate DHS_MAXSTR NUL\<rparr>) = None
    \<and> (\<exists>cl'. dhsUtilOpenExp sample_pe 0 0 (Some sample_fp) (Some 42) (Some ''obs'')
      (sample_cl\<lparr>cl_wr := (\<lambda>_ _. replicate 256 (Wrote 3)), cl_DIR := replicate 256 NUL, cl_FILENAME := replicate 256 NUL\<rparr>) = Some (DHS_OK, cl'))"
proof -
  have c: "chan_ok 256 (sample_cl\<lparr>cl_wr := (\<lambda>_ _. replicate 256 (Wrote 3)), cl_DIR := replicate n NUL, cl_FILENAME := replicate n NUL\<rparr>)" for n
    by (auto simp: chan_ok_def wr_good_def writes_def filter_replicate)
  have p: "256 \<le> (256 :: nat)" "length (pa_fp sample_pe sample_fp) \<le> 256" "\<forall>c t w. length (pa_hdr sample_pe (dcaFmtMsg c t w)) = SZMSG"
      "\<forall>c k. pa_answer sample_pe c k \<noteq> DCA_ERR" "\<not> pa_bad sample_pe 0" "\<not> pa_simulator sample_pe" "(0 :: int) \<le> 0"
    by (simp_all add: sample_pe_def word_digits_def SZMSG_def DCA_ERR_def)
  show ?thesis using dhsUtilOpenExp_overreads [OF c [of DHS_MAXSTR] p, of 42 "''obs''"] dhsUtilOpenExp_overreads [OF c [of 256] p, of 42 "''obs''"]
    by (simp add: DHS_MAXSTR_def)
qed

subsection \<open>Meta-data\<close>

text \<open>What a page of meta-data looks like once it is in the cache.\<close>

definition meta_stored :: "col_env \<Rightarrow> smCache_t \<Rightarrow> cdouble \<Rightarrow> string \<Rightarrow> mdConfig_t \<Rightarrow> int \<Rightarrow> string \<Rightarrow> int \<Rightarrow> col_state \<Rightarrow> bool" where
  "meta_stored ce smc e ob md num blk sid st \<longleftrightarrow>
     (case (co_smc st, w_shm (co_w st) sid) of
        (Some smc', Some h) \<Rightarrow>
          (let p = sc_pdata smc' ! find_slot smc in
           sc_pdata smc' = (sc_pdata smc)[find_slot smc := p] \<and> pg_ac_locked p = 0 \<and> pg_type p = TY_META \<and> pg_expID p = e \<and> pg_colID p = ce_colID ce
           \<and> seg_mdCfg h = md \<and> seg_expID h = e \<and> seg_obsetID h = ob \<and> seg_colID h = ce_colID ce \<and> seg_expPageNum h = num)
      | _ \<Rightarrow> False)
     \<and> take (length blk) (co_mem st sid) = blk"

lemma store_meta_stores:
  assumes lock: "w_sem (co_w st) = Some v" "0 < v" "w_sem_init (co_w st) (pe_pid (ce_env ce))"
    and cache: "co_smc st = Some smc" "slot_granted (ce_env ce) smc (int (length blk)) sid a" "length blk < 2 ^ 31"
    and ids: "length (buf_str (co_obset st)) < SZ_PATH" "length (ce_colID ce) < SZ_PATH"
  shows "\<exists>st'. store_meta ce (int (length blk)) blk st = Some (Go st') \<and> w_sem (co_w st') = Some v \<and> co_in st' = co_in st \<and> co_ev st' = co_ev st
    \<and> meta_stored ce smc (co_expID st) (buf_str (co_obset st)) (co_md st) (co_expPageNum st) blk sid st' \<and> co_expPageNum st' = co_expPageNum st + 1"
proof -
  let ?env = "ce_env ce"
  note g = cache(2) [unfolded slot_granted_def Let_def]
  define w1 where "w1 = (co_w st)\<lparr>w_sem := Some (v - 1)\<rparr>"
  have on: "smcMutexOn ?env (co_w st) = Some w1" using smcMutexOn_free [OF lock] by (simp add: w1_def)
  have sz: "uint (word_of_nat (length blk) :: xlong) = int (length blk)" using cache(3) by (simp add: unsigned_of_nat take_bit_nat_eq_self)
  obtain w2 smc2 p h where r: "smcGetPage ?env (ce_others ce) w1 (Some smc) TY_META (int (length blk)) True True = Some (w2, Some smc2, Some (find_slot smc))"
      "sc_pdata smc2 = (sc_pdata smc)[find_slot smc := p]" "find_slot smc < length (sc_pdata smc)" "seg_addr ?env p = a"
      "pg_lockFile p = seg_lockfile smc (find_slot smc)" "pg_type p = TY_META"
      "pg_initialized p = 1" "pg_colID p = []" "w_map w2 (pe_pid ?env) a = Some sid" "w_shm w2 sid = Some h" "w_sem w2 = w_sem w1"
      "w_sem_init w2 = w_sem_init w1" "seg_obsetID h = []" "seg_colID h = []"
    using smcGetPage_attached [OF _ _ _ refl refl _ refl _ refl, where smc = smc and sz = "int (length blk)" and env = ?env and sid = sid and a = a
      and others = "ce_others ce" and w = w1 and ty = TY_META and lf = True] g by auto
  let ?p = "p\<lparr>pg_expID := co_expID st, pg_colID := ce_colID ce\<rparr>" and ?h = "h\<lparr>seg_mdCfg := co_md st, seg_fpCfg := co_fp st, seg_expID := co_expID st,
      seg_obsetID := buf_str (co_obset st), seg_colID := ce_colID ce, seg_expPageNum := co_expPageNum st\<rparr>"
  let ?w3 = "w2\<lparr>w_shm := (w_shm w2)(sid := Some ?h)\<rparr>" and ?d = "a + pe_sizeof_seg ?env + 1"
  have sp: "set_meta_page ce st w2 p = Some (?w3, ?p)" using set_meta_page_sets [of ce p a w2 sid h st] r g ids by simp
  have data: "smcGetPageData ?env (Some ?p) = ?d" using r(4,7) by (simp add: smcGetPageData_def seg_addr_def)
  define s4 where "s4 = st\<lparr>co_w := ?w3, co_expPageNum := co_expPageNum st + 1, co_mem := (co_mem st)(sid := blk @ drop (length blk) (co_mem st sid))\<rparr>"
  have put: "put_bytes ?env ?d blk (st\<lparr>co_w := ?w3, co_expPageNum := co_expPageNum st + 1\<rparr>) = Some s4" using r(9) by (simp add: put_bytes_def s4_def)
  have s4: "store_meta ce (int (length blk)) blk st = finish_page ce smc2 (find_slot smc) ?p s4"
    using on r(1-3) sp data g cache(1) by (simp add: store_meta_def sz put)
  obtain w5 ps where f: "finish_page ce smc2 (find_slot smc) ?p s4 = Some (Go (s4\<lparr>co_w := w5, co_smc := Some (page_at (find_slot smc) (?p\<lparr>pg_ac_locked := 0, pg_pstate := ps\<rparr>) smc2)\<rparr>))"
      "w_shm w5 = w_shm (co_w s4)" "w_sem w5 = Some v"
    using finish_page_publishes [of "find_slot smc" smc2 ?p s4 "v - 1" ce] r g lock(3) by (auto simp: s4_def w1_def SZ_FNAME_def)
  then show ?thesis using s4 r(2,3,6) by (auto simp: meta_stored_def page_at_def s4_def)
qed
lemma dhsSendMetaData_writes:
  assumes "chan_ok N cl" "SZMSG \<le> N" "length blk \<le> N" "length (pa_md pe md) \<le> N" "blk \<noteq> []" "\<not> pa_simulator pe"
    and "length (pa_hdr pe (dcaFmtMsg cl DCA_META 0)) = SZMSG" "length (pa_size pe (length blk)) \<le> SZMSG"
  shows "dhsSendMetaData pe istat blk md cl = Some (DHS_OK, sent ToCollector (pa_md pe md) (sent ToCollector blk
    (sent ToCollector (strncpy_buf (pa_size pe (length blk)) SZMSG) (sent ToCollector (pa_hdr pe (dcaFmtMsg cl DCA_META 0)) cl))))"
proof -
  have l: "length (strncpy_buf (pa_size pe (length blk)) 120) = 120" "SZMSG = 120" "120 \<le> N" using assms(2,8) by (auto simp: strncpy_buf_def SZMSG_def)
  show ?thesis using assms l by (simp add: dhsSendMetaData_def dcaSendMsg_ok [of N] chan_send_ok [of N] DCA_ERR_def)
qed

lemma col_message_meta:
  assumes "mh_type (ce_hdr ce (co_buf st)) = DCA_META"
  shows "col_message ce st = col_meta ce st"
  using assms by (simp add: col_message_def has_def Let_def DCA_defs)

text \<open>C26.  A block of meta-data arrives in the cache: under the conditions of a free lock and a free slot, what
  \<open>dhsSendMetaData\<close> writes behind its header is received by the collector that has read the header, and
  the slot holds an unlocked page of meta-data with the identifiers of the current exposure, the
  configuration sent with the block, the next page number, and the bytes of the block; the lock is
  free again and what comes behind in the stream is left for the next message.\<close>

theorem metadata_reaches_cache:
  assumes client: "chan_ok N cl" "SZMSG \<le> N" "length blk \<le> N" "length (pa_md pe md) \<le> N" "\<not> pa_simulator pe" "blk \<noteq> []" "length blk < 2 ^ 31"
    and layout: "hdr_agrees ce pe (dcaFmtMsg cl DCA_META 0)" "length (pa_size pe (length blk)) \<le> SZMSG" "ce_int ce (strncpy_buf (pa_size pe (length blk)) SZMSG) = int (length blk)"
      "length (pa_md pe md) = ce_size_md ce" "0 < ce_size_md ce" "\<forall>old. ce_md ce (pa_md pe md) old = md"
    and ev: "\<forall>e \<in> set (co_ev st). ev_good e" "SZMSG + length blk + ce_size_md ce \<le> reads (co_ev st)"
    and ids: "length (buf_str (co_obset st)) < SZ_PATH" "length (ce_colID ce) < SZ_PATH"
    and lock: "w_sem (co_w st) = Some v" "0 < v" "w_sem_init (co_w st) (pe_pid (ce_env ce))"
    and cache: "co_smc st = Some smc" "slot_granted (ce_env ce) smc (int (length blk)) sid a"
  shows "\<exists>cl' hdr body st'. dhsSendMetaData pe istat blk md cl = Some (DHS_OK, cl') \<and> length hdr = SZMSG
    \<and> cl_out cl' ToCollector = cl_out cl ToCollector @ hdr @ body
    \<and> col_message ce (st\<lparr>co_buf := hdr, co_in := body @ later\<rparr>) = Some (Go st')
    \<and> meta_stored ce smc (co_expID st) (buf_str (co_obset st)) md (co_expPageNum st) blk sid st'
    \<and> co_expPageNum st' = co_expPageNum st + 1 \<and> co_in st' = later \<and> w_sem (co_w st') = Some v"
proof -
  let ?h = "pa_hdr pe (dcaFmtMsg cl DCA_META 0)" and ?z = "strncpy_buf (pa_size pe (length blk)) SZMSG"
  let ?st = "st\<lparr>co_buf := ?h, co_in := (?z @ blk @ pa_md pe md) @ later\<rparr>"
  have h: "length ?h = SZMSG" "ce_hdr ce ?h = dcaFmtMsg cl DCA_META 0" using layout(1) by (simp_all add: hdr_agrees_def)
  have z: "length ?z = SZMSG" using layout(2) by (simp add: strncpy_buf_def)
  have ne: "pa_md pe md \<noteq> []" using layout(4,5) by auto
  have "mh_type (dcaFmtMsg cl DCA_META 0) = DCA_META" by (simp add: dcaFmtMsg_def)
  then have msg: "col_message ce ?st = col_meta ce ?st" using col_message_meta [of ce ?st] h(2) by simp
  obtain es where r: "col_meta ce ?st = store_meta ce (int (length blk)) blk (?st\<lparr>co_buf := ?z,
      co_sent := co_sent ?st @ [(''status'', ''Reading metadata...'')], co_in := later, co_ev := es, co_md := ce_md ce (pa_md pe md) (co_md ?st), co_total := co_total ?st + word_of_nat (length blk)\<rparr>)"
    using col_meta_receives [of ?st blk "pa_md pe md" ?z later ce] ev layout z ne client(6) h(1) by auto
  obtain st' where "store_meta ce (int (length blk)) blk (?st\<lparr>co_buf := ?z,
      co_sent := co_sent ?st @ [(''status'', ''Reading metadata...'')], co_in := later, co_ev := es, co_md := ce_md ce (pa_md pe md) (co_md ?st), co_total := co_total ?st + word_of_nat (length blk)\<rparr>) = Some (Go st')"
      "meta_stored ce smc (co_expID st) (buf_str (co_obset st)) md (co_expPageNum st) blk sid st'"
      "co_expPageNum st' = co_expPageNum st + 1" "co_in st' = later" "w_sem (co_w st') = Some v"
    using store_meta_stores [of "?st\<lparr>co_buf := ?z,
      co_sent := co_sent ?st @ [(''status'', ''Reading metadata...'')], co_in := later, co_ev := es, co_md := ce_md ce (pa_md pe md) (co_md ?st), co_total := co_total ?st + word_of_nat (length blk)\<rparr>"
      v ce smc blk sid a] lock cache client(7) ids layout(6) by auto
  then show ?thesis using dhsSendMetaData_writes [OF client(1-4,6,5) h(1) layout(2), of istat] msg r h(1)
    by (intro exI [of _ "sent ToCollector (pa_md pe md) (sent ToCollector blk (sent ToCollector ?z (sent ToCollector ?h cl)))"]
        exI [of _ ?h] exI [of _ "?z @ blk @ pa_md pe md"] exI [of _ st']) simp
qed

theorem metadata_reaches_cache_witness:
  "\<exists>cl' hdr body st'. dhsSendMetaData sample_pe 0 ''abcd'' zero_mdConfig (sample_cl\<lparr>cl_expID := 42, cl_obsSetID := ''obs''\<rparr>) = Some (DHS_OK, cl')
    \<and> cl_out cl' ToCollector = hdr @ body \<and> col_message (sample_ce\<lparr>ce_md := (\<lambda>_ _. zero_mdConfig)\<rparr>) (sample_col\<lparr>co_buf := hdr, co_in := body @ ''rest''\<rparr>) = Some (Go st')
    \<and> meta_stored (sample_ce\<lparr>ce_md := (\<lambda>_ _. zero_mdConfig)\<rparr>) sample_cache 0 [] zero_mdConfig 5 ''abcd'' 5 st' \<and> co_in st' = ''rest''"
proof -
  let ?cl = "sample_cl\<lparr>cl_expID := 42, cl_obsSetID := ''obs''\<rparr>" and ?ce = "sample_ce\<lparr>ce_md := (\<lambda>_ _. zero_mdConfig)\<rparr>"
  have client: "chan_ok 120 ?cl" "SZMSG \<le> 120" "length ''abcd'' \<le> 120" "length (pa_md sample_pe zero_mdConfig) \<le> 120" "\<not> pa_simulator sample_pe"
      "''abcd'' \<noteq> []" "length ''abcd'' < 2 ^ 31"
    using sample_chan_ok by (simp_all add: chan_ok_def sample_pe_def SZMSG_def)
  have hdr: "hdr_agrees ?ce sample_pe (dcaFmtMsg ?cl DCA_META 0)"
    using sample_hdr_agrees by (simp add: hdr_agrees_def dcaFmtMsg_def)
  have layout: "length (pa_size sample_pe (length ''abcd'')) \<le> SZMSG" "ce_int ?ce (strncpy_buf (pa_size sample_pe (length ''abcd'')) SZMSG) = int (length ''abcd'')"
      "length (pa_md sample_pe zero_mdConfig) = ce_size_md ?ce" "0 < ce_size_md ?ce" "\<forall>old. ce_md ?ce (pa_md sample_pe zero_mdConfig) old = zero_mdConfig"
    by (simp_all add: sample_pe_def sample_ce_def strncpy_buf_def SZMSG_def)
  have ev: "\<forall>e \<in> set (co_ev sample_col). ev_good e" "SZMSG + length ''abcd'' + ce_size_md ?ce \<le> reads (co_ev sample_col)"
    by (auto simp: sample_col_def sample_ce_def ev_good_def reads_def filter_replicate SZMSG_def)
  have ids: "length (buf_str (co_obset sample_col)) < SZ_PATH" "length (ce_colID ?ce) < SZ_PATH"
    by (simp_all add: sample_col_def sample_ce_def SZ_PATH_def buf_str_def)
  have state: "w_sem (co_w sample_col) = Some 1" "0 < (1::int)" "w_sem_init (co_w sample_col) (pe_pid (ce_env ?ce))" "co_smc sample_col = Some sample_cache"
    by (simp_all add: sample_col_def sample_ce_def)
  have slot: "slot_granted (ce_env ?ce) sample_cache (int (length ''abcd'')) 5 8192" using sample_slot_granted by simp
  have e: "co_expID sample_col = 0" "buf_str (co_obset sample_col) = []" "co_expPageNum sample_col = 5" "cl_out ?cl ToCollector = []"
    by (simp_all add: sample_col_def buf_str_def sample_cl_def)
  show ?thesis using metadata_reaches_cache [OF client hdr layout ev ids state slot, of 0 "''rest''"] unfolding e by auto
qed

end
