(* ===== verification/ProcQueue.thy ===== *)
theory ProcQueue
  imports SmPage
begin

section \<open>The supervisor's processing queue (dhssup/supQueue.c)\<close>

text \<open>
  The queue of exposures waiting to be processed is a ring of \<open>SZ_PROC_QUEUE\<close> nodes inside the
  supervisor's data.  A node pointer is an index into the array, \<open>exit (1)\<close> and a write behind
  one of the time fields are \<open>None\<close>.  \<open>sq_sent\<close> collects the \<open>dataFlag\<close> messages for the GUI.
  The time stamp of \<open>procTimestamp\<close> is an argument.
\<close>

definition SZ_PROC_QUEUE :: nat where "SZ_PROC_QUEUE = 512"
definition SZ_PDATE :: nat where "SZ_PDATE = 9"

definition PQ_AVAILABLE :: int where "PQ_AVAILABLE = 0"
definition PQ_START :: int where "PQ_START = 1"
definition PQ_READY :: int where "PQ_READY = 2"
definition PQ_ACTIVE :: int where "PQ_ACTIVE = 3"
definition PQ_DONE :: int where "PQ_DONE = 4"

record pqNode =
  pn_expID :: cdouble
  pn_status :: int
  pn_t_in :: string
  pn_t_out :: string
  pn_t_done :: string
  pn_next :: nat

record supQueue =
  sq_queue :: "pqNode list"
  sq_first :: nat
  sq_last :: nat
  sq_count :: int
  sq_sent :: "string list"

abbreviation sq_node :: "supQueue \<Rightarrow> nat \<Rightarrow> pqNode" where
  "sq_node sd p \<equiv> sq_queue sd ! p"

definition put_node :: "nat \<Rightarrow> (pqNode \<Rightarrow> pqNode) \<Rightarrow> supQueue \<Rightarrow> supQueue" where
  "put_node p f sd = sd\<lparr>sq_queue := (sq_queue sd)[p := f (sq_node sd p)]\<rparr>"

subsection \<open>Operations\<close>

text \<open>The loop of \<open>pqInit\<close> leaves out the last node.\<close>

function pq_init_loop :: "nat \<Rightarrow> supQueue \<Rightarrow> supQueue" where
  "pq_init_loop i sd =
     (if i < SZ_PROC_QUEUE - 1 then
        pq_init_loop (Suc i)
          (put_node i (\<lambda>n. n\<lparr>pn_next := Suc i, pn_expID := 0, pn_status := PQ_AVAILABLE\<rparr>) sd)
      else sd)"
  by pat_completeness auto
termination by (relation "measure (\<lambda>(i, sd). SZ_PROC_QUEUE - i)") auto

declare pq_init_loop.simps [simp del]

definition pqInit :: "supQueue \<Rightarrow> supQueue" where
  "pqInit sd =
     (let sd1 = put_node (SZ_PROC_QUEUE - 1) (\<lambda>n. n\<lparr>pn_next := 0\<rparr>) (pq_init_loop 0 sd);
          sd2 = sd1\<lparr>sq_first := 0, sq_last := SZ_PROC_QUEUE - 1\<rparr>;
          sd3 = put_node (sq_last sd2) (\<lambda>n. n\<lparr>pn_next := sq_first sd2\<rparr>) sd2
      in sd3\<lparr>sq_count := 0\<rparr>)"

definition pqAdd :: "string \<Rightarrow> supQueue \<Rightarrow> cdouble \<Rightarrow> supQueue option" where
  "pqAdd now sd expID =
     (let p = pn_next (sq_node sd (sq_last sd)) in
      if sq_count sd = int SZ_PROC_QUEUE then None
      else if SZ_PDATE \<le> length now then None
      else
        let sd1 = put_node p (\<lambda>n. n\<lparr>pn_expID := expID, pn_status := PQ_START, pn_t_in := now,
                     pn_t_out := [], pn_t_done := []\<rparr>) sd;
            sd2 = sd1\<lparr>sq_last := p, sq_count := sq_count sd1 + 1\<rparr>;
            sd3 = (if 0 < sq_count sd2 then sd2\<lparr>sq_sent := sq_sent sd2 @ [''waiting 1'']\<rparr> else sd2)
        in if int SZ_PROC_QUEUE < sq_count sd3 then None else Some sd3)"

definition pqNext :: "supQueue \<Rightarrow> cdouble" where
  "pqNext sd = (if pn_status (sq_node sd (sq_first sd)) = PQ_READY then pn_expID (sq_node sd (sq_first sd)) else 0)"

text \<open>What \<open>pqSetStat\<close> does at the node it has found: whatever the node, \<open>PQ_DONE\<close> takes the first
  node off the queue.\<close>

definition set_stat_at :: "nat \<Rightarrow> int \<Rightarrow> supQueue \<Rightarrow> supQueue" where
  "set_stat_at p status sd =
     (let sd1 = put_node p (\<lambda>n. n\<lparr>pn_status := status\<rparr>) sd in
      if status = PQ_DONE then
        let old_first = sq_first sd1;
            sd2 = put_node old_first (\<lambda>n. n\<lparr>pn_expID := 0, pn_status := PQ_AVAILABLE\<rparr>) sd1;
            sd3 = sd2\<lparr>sq_first := pn_next (sq_node sd2 (sq_first sd2)), sq_count := sq_count sd2 - 1\<rparr>
        in if sq_count sd3 = 0 then sd3\<lparr>sq_sent := sq_sent sd3 @ [''waiting 0'']\<rparr> else sd3
      else sd1)"

text \<open>\<open>for (p=sup->qFirst; i++ < (SZ_PROC_QUEUE-1); p=p->next)\<close>: \<open>n\<close> is the number of rounds
  left.\<close>

primrec set_stat_loop :: "nat \<Rightarrow> nat \<Rightarrow> cdouble \<Rightarrow> int \<Rightarrow> supQueue \<Rightarrow> supQueue" where
  "set_stat_loop 0 p expID status sd = sd"
| "set_stat_loop (Suc n) p expID status sd =
     (if smcEqualExpID (pn_expID (sq_node sd p)) expID then set_stat_at p status sd
      else set_stat_loop n (pn_next (sq_node sd p)) expID status sd)"

definition pqSetStat :: "supQueue \<Rightarrow> cdouble \<Rightarrow> int \<Rightarrow> supQueue option" where
  "pqSetStat sd expID status =
     (let sd1 = set_stat_loop (SZ_PROC_QUEUE - 1) (sq_first sd) expID status sd
      in if sq_count sd1 < 0 then None else Some sd1)"

partial_function (option) get_stat_loop :: "supQueue \<Rightarrow> cdouble \<Rightarrow> nat \<Rightarrow> int option" where
  "get_stat_loop sd expID p =
     (if p \<noteq> pn_next (sq_node sd (sq_last sd)) then
        (if smcEqualExpID (pn_expID (sq_node sd p)) expID then Some (pn_status (sq_node sd p))
         else get_stat_loop sd expID (pn_next (sq_node sd p)))
      else Some 0)"

definition pqGetStat :: "supQueue \<Rightarrow> cdouble \<Rightarrow> int option" where
  "pqGetStat sd expID = get_stat_loop sd expID (sq_first sd)"

definition pqDataWaiting :: "supQueue \<Rightarrow> int" where
  "pqDataWaiting sd =
     (if 0 < sq_count sd \<and> pn_status (sq_node sd (sq_first sd)) = PQ_READY then 1 else 0)"

subsection \<open>The supervisor around the queue\<close>

text \<open>
  \<open>sv_dca_done\<close> is the global counter of processing managers that are done, \<open>-999\<close> before the
  first readout.  \<open>sv_bcast\<close> collects the messages on the bus: the target, the text and the
  identifier printed behind it; \<open>sv_transStat\<close> the exposures shown in the GUI's transfer display.  The
  handlers are those for the opening and closing of an exposure by a PAN and for the bus messages
  \<open>dca_done\<close> and \<open>clean done\<close>, as far as they concern the queue and the bus; \<open>trig\<close> says whether
  \<open>isTriggerHost\<close> holds of the PAN.
\<close>

record supState =
  sv_queue :: supQueue
  sv_dca_done :: int
  sv_numProcMgrs :: int
  sv_imgSeqNo :: int
  sv_transStat :: "cdouble list"
  sv_bcast :: "(string \<times> string \<times> cdouble) list"

definition supProcNext :: "supState \<Rightarrow> supState option" where
  "supProcNext sv =
     (let expID = pqNext (sv_queue sv) in
      if 0 < expID \<and> (sv_dca_done sv < 0 \<or> sv_numProcMgrs sv \<le> sv_dca_done sv) then
        (case pqSetStat (sv_queue sv) expID PQ_ACTIVE of
           None \<Rightarrow> None
         | Some q \<Rightarrow>
             let seqno = sv_imgSeqNo sv + 1;
                 n = sv_dca_done sv - sv_numProcMgrs sv
             in Some (sv\<lparr>sv_queue := q, sv_imgSeqNo := seqno, sv_transStat := sv_transStat sv @ [expID],
                  sv_bcast := sv_bcast sv @ [(''PXF'', ''seqno'', of_int seqno), (''SMCMgr'', ''option seqno'', of_int seqno),
                     (''SMCMgr'', ''process'', expID)],
                  sv_dca_done := (if n < 0 then 0 else n)\<rparr>))
      else Some sv)"

definition put_queue :: "supState \<Rightarrow> supQueue option \<Rightarrow> supState option" where
  "put_queue sv q = map_option (\<lambda>q'. sv\<lparr>sv_queue := q'\<rparr>) q"

definition sup_open_exp :: "string \<Rightarrow> bool \<Rightarrow> supState \<Rightarrow> cdouble \<Rightarrow> supState option" where
  "sup_open_exp now trig sv expID = (if trig then put_queue sv (pqAdd now (sv_queue sv) expID) else Some sv)"

definition sup_close_exp :: "bool \<Rightarrow> supState \<Rightarrow> cdouble \<Rightarrow> supState option" where
  "sup_close_exp trig sv expID =
     (if trig then
        put_queue sv (map_option (\<lambda>q. q\<lparr>sq_sent := sq_sent q @ [''waiting 1'']\<rparr>) (pqSetStat (sv_queue sv) expID PQ_READY))
      else Some sv)"

definition sup_dca_done :: "supState \<Rightarrow> cdouble \<Rightarrow> supState option" where
  "sup_dca_done sv expID =
     map_option (\<lambda>s. s\<lparr>sv_bcast := sv_bcast s @ [(''SMCMgr'', ''ExpID'', expID)]\<rparr>)
       (put_queue sv (pqSetStat (sv_queue sv) expID PQ_DONE))"

definition sup_clean_done :: "supState \<Rightarrow> cdouble \<Rightarrow> supState option" where
  "sup_clean_done sv expID =
     map_option (\<lambda>s. s\<lparr>sv_bcast := sv_bcast s @ [(''SMCMgr'', ''segList'', 0)], sv_dca_done := sv_dca_done s + 1\<rparr>)
       (put_queue sv (pqSetStat (sv_queue sv) expID PQ_AVAILABLE))"

subsection \<open>The ring\<close>

text \<open>The nodes from the first one on, and the part of them that is in the queue.\<close>

definition pq_ring :: "supQueue \<Rightarrow> pqNode list" where
  "pq_ring sd = rotate (sq_first sd) (sq_queue sd)"

definition pq_list :: "supQueue \<Rightarrow> (cdouble \<times> int) list" where
  "pq_list sd = map (\<lambda>n. (pn_expID n, pn_status n)) (take (nat (sq_count sd)) (pq_ring sd))"

definition pq_inv :: "supQueue \<Rightarrow> bool" where
  "pq_inv sd \<longleftrightarrow> length (sq_queue sd) = SZ_PROC_QUEUE \<and> sq_first sd < SZ_PROC_QUEUE
     \<and> (\<forall>i < SZ_PROC_QUEUE. pn_next (sq_node sd i) = Suc i mod SZ_PROC_QUEUE)
     \<and> 0 \<le> sq_count sd \<and> sq_count sd \<le> int SZ_PROC_QUEUE
     \<and> sq_last sd = (sq_first sd + nat (sq_count sd) + (SZ_PROC_QUEUE - 1)) mod SZ_PROC_QUEUE
     \<and> (\<forall>n \<in> set (drop (nat (sq_count sd)) (pq_ring sd)). pn_expID n = 0 \<and> pn_status n = PQ_AVAILABLE)"

lemma add_mod_inj:
  fixes m j k N :: nat
  assumes "(m + j) mod N = (m + k) mod N" "j < N" "k < N"
  shows "j = k"
proof -
  have le: "j \<le> k" if "k \<le> j" "(m + j) mod N = (m + k) mod N" "j < N" for j k
  proof -
    have "N dvd (m + j) - (m + k)" using that(1,2) mod_eq_dvd_iff_nat [of "m + k" "m + j" N] by simp
    then have "0 < j - k \<Longrightarrow> N \<le> j - k" by (intro dvd_imp_le) simp_all
    then show ?thesis using that(1,3) by linarith
  qed
  show ?thesis
  proof (cases "k \<le> j")
    case True
    then show ?thesis using le [of k j] assms by simp
  next
    case False
    then show ?thesis using le [of j k] assms by simp
  qed
qed

lemma rotate_update:
  assumes "k < length xs"
  shows "rotate m (xs[(m + k) mod length xs := v]) = (rotate m xs)[k := v]"
proof (rule nth_equalityI)
  fix j assume "j < length (rotate m (xs[(m + k) mod length xs := v]))"
  then have j: "j < length xs" by simp
  have "(m + j) mod length xs < length xs" using assms by (intro mod_less_divisor) auto
  moreover have "(m + k) mod length xs = (m + j) mod length xs \<longleftrightarrow> k = j" using add_mod_inj [of m k "length xs" j] assms j by auto
  ultimately show "rotate m (xs[(m + k) mod length xs := v]) ! j = (rotate m xs)[k := v] ! j"
    using j by (auto simp: nth_rotate nth_list_update)
qed simp

lemma N_pos: "0 < SZ_PROC_QUEUE"
  by (simp add: SZ_PROC_QUEUE_def)

lemma pq_inv_length: "pq_inv sd \<Longrightarrow> length (pq_ring sd) = SZ_PROC_QUEUE"
  by (simp add: pq_inv_def pq_ring_def)

lemma pq_ring_nth: "pq_inv sd \<Longrightarrow> k < SZ_PROC_QUEUE \<Longrightarrow> pq_ring sd ! k = sq_node sd ((sq_first sd + k) mod SZ_PROC_QUEUE)"
  by (simp add: pq_inv_def pq_ring_def nth_rotate)

lemma pq_next_node: "pq_inv sd \<Longrightarrow> pn_next (sq_node sd (i mod SZ_PROC_QUEUE)) = Suc i mod SZ_PROC_QUEUE"
  using N_pos by (simp add: pq_inv_def mod_Suc_eq)

lemma pq_list_length: "pq_inv sd \<Longrightarrow> length (pq_list sd) = nat (sq_count sd)"
  using pq_inv_length [of sd] by (auto simp: pq_list_def pq_inv_def min_def)

lemma pq_list_nth: "pq_inv sd \<Longrightarrow> k < length (pq_list sd) \<Longrightarrow> pq_list sd ! k = (pn_expID (pq_ring sd ! k), pn_status (pq_ring sd ! k))"
  by (simp add: pq_list_def)

text \<open>Changing a node of the ring without its link.\<close>

lemma put_node_ring:
  assumes "pq_inv sd" "k < SZ_PROC_QUEUE" "\<And>n. pn_next (f n) = pn_next n"
  defines "sd' \<equiv> put_node ((sq_first sd + k) mod SZ_PROC_QUEUE) f sd"
  shows "pq_ring sd' = (pq_ring sd)[k := f (pq_ring sd ! k)]"
    "\<And>i. i < SZ_PROC_QUEUE \<Longrightarrow> pn_next (sq_node sd' i) = Suc i mod SZ_PROC_QUEUE"
    "length (sq_queue sd') = SZ_PROC_QUEUE" "sq_first sd' = sq_first sd" "sq_last sd' = sq_last sd" "sq_count sd' = sq_count sd"
proof -
  have l: "length (sq_queue sd) = SZ_PROC_QUEUE" using assms(1) by (simp add: pq_inv_def)
  show "pq_ring sd' = (pq_ring sd)[k := f (pq_ring sd ! k)]"
    using rotate_update [of k "sq_queue sd" "sq_first sd"] pq_ring_nth [OF assms(1,2)] l assms(2)
    by (simp add: sd'_def put_node_def pq_ring_def)
  show "pn_next (sq_node sd' i) = Suc i mod SZ_PROC_QUEUE" if "i < SZ_PROC_QUEUE" for i
    using assms(1,3) that l by (auto simp: sd'_def put_node_def pq_inv_def nth_list_update)
qed (use assms(1) in \<open>simp_all add: sd'_def put_node_def pq_inv_def\<close>)

lemma set_stat_loop_ring:
  assumes "pq_inv sd" "k + n \<le> SZ_PROC_QUEUE"
  shows "set_stat_loop n ((sq_first sd + k) mod SZ_PROC_QUEUE) expID st sd =
    (case first_index (\<lambda>nd. smcEqualExpID (pn_expID nd) expID) (take n (drop k (pq_ring sd))) of
       None \<Rightarrow> sd | Some j \<Rightarrow> set_stat_at ((sq_first sd + (k + j)) mod SZ_PROC_QUEUE) st sd)"
  using assms(2)
proof (induction n arbitrary: k)
  case 0
  then show ?case by simp
next
  case (Suc n)
  then have k: "k < SZ_PROC_QUEUE" by simp
  have d: "drop k (pq_ring sd) = pq_ring sd ! k # drop (Suc k) (pq_ring sd)"
    using k pq_inv_length [OF assms(1)] by (simp add: Cons_nth_drop_Suc)
  have n: "pn_next (sq_node sd ((sq_first sd + k) mod SZ_PROC_QUEUE)) = (sq_first sd + Suc k) mod SZ_PROC_QUEUE"
    using pq_next_node [OF assms(1), of "sq_first sd + k"] by simp
  show ?case using Suc.IH [of "Suc k"] Suc.prems pq_ring_nth [OF assms(1) k]
    by (auto simp: d n split: option.splits)
qed

lemma pq_list_eqI:
  assumes "length (pq_ring sd) = SZ_PROC_QUEUE" "nat (sq_count sd) \<le> SZ_PROC_QUEUE"
    and "length es = nat (sq_count sd)" "\<And>k. k < length es \<Longrightarrow> es ! k = (pn_expID (pq_ring sd ! k), pn_status (pq_ring sd ! k))"
  shows "pq_list sd = es"
  using assms by (intro nth_equalityI) (auto simp: pq_list_def)

lemma pq_inv_free: "pq_inv sd \<Longrightarrow> nat (sq_count sd) \<le> k \<Longrightarrow> k < SZ_PROC_QUEUE \<Longrightarrow>
    pn_expID (pq_ring sd ! k) = 0 \<and> pn_status (pq_ring sd ! k) = PQ_AVAILABLE"
proof -
  assume i: "pq_inv sd" and k: "nat (sq_count sd) \<le> k" "k < SZ_PROC_QUEUE"
  have "drop (nat (sq_count sd)) (pq_ring sd) ! (k - nat (sq_count sd)) \<in> set (drop (nat (sq_count sd)) (pq_ring sd))"
    using k pq_inv_length [OF i] by (intro nth_mem) simp
  then have "pq_ring sd ! k \<in> set (drop (nat (sq_count sd)) (pq_ring sd))" using k pq_inv_length [OF i] by simp
  then show ?thesis using i by (simp add: pq_inv_def)
qed

lemma pq_inv_freeI: "length (pq_ring sd) = SZ_PROC_QUEUE \<Longrightarrow>
    (\<And>k. nat (sq_count sd) \<le> k \<Longrightarrow> k < SZ_PROC_QUEUE \<Longrightarrow> pn_expID (pq_ring sd ! k) = 0 \<and> pn_status (pq_ring sd ! k) = PQ_AVAILABLE) \<Longrightarrow>
    \<forall>n \<in> set (drop (nat (sq_count sd)) (pq_ring sd)). pn_expID n = 0 \<and> pn_status n = PQ_AVAILABLE"
  by (auto simp: in_set_conv_nth)

lemma pqAdd_list:
  assumes inv: "pq_inv sd" and now: "length now < SZ_PDATE" and room: "length (pq_list sd) < SZ_PROC_QUEUE"
  shows "\<exists>sd'. pqAdd now sd expID = Some sd' \<and> pq_inv sd' \<and> pq_list sd' = pq_list sd @ [(expID, PQ_START)]"
proof -
  let ?c = "nat (sq_count sd)"
  let ?f = "\<lambda>n. n\<lparr>pn_expID := expID, pn_status := PQ_START, pn_t_in := now, pn_t_out := [], pn_t_done := []\<rparr>"
  have c: "?c < SZ_PROC_QUEUE" "0 \<le> sq_count sd" "sq_last sd = (sq_first sd + ?c + (SZ_PROC_QUEUE - 1)) mod SZ_PROC_QUEUE"
    using room inv pq_list_length [OF inv] by (simp_all add: pq_inv_def)
  have "Suc (sq_first sd + ?c + (SZ_PROC_QUEUE - 1)) = sq_first sd + ?c + SZ_PROC_QUEUE" using N_pos by simp
  then have p: "pn_next (sq_node sd (sq_last sd)) = (sq_first sd + ?c) mod SZ_PROC_QUEUE"
    using pq_next_node [OF inv, of "sq_first sd + ?c + (SZ_PROC_QUEUE - 1)"] c(3) by simp
  note r = put_node_ring [OF inv c(1), of ?f, simplified]
  define sd' where "sd' = (put_node ((sq_first sd + ?c) mod SZ_PROC_QUEUE) ?f sd)\<lparr>sq_last := (sq_first sd + ?c) mod SZ_PROC_QUEUE,
     sq_count := sq_count sd + 1, sq_sent := sq_sent sd @ [''waiting 1'']\<rparr>"
  have "pqAdd now sd expID = Some sd'"
    using c(1,2) now p r by (simp add: pqAdd_def Let_def sd'_def put_node_def)
  moreover have ring: "pq_ring sd' = (pq_ring sd)[?c := ?f (pq_ring sd ! ?c)]" using r(1) by (simp add: sd'_def pq_ring_def)
  have cnt: "nat (sq_count sd') = Suc ?c" using c(2) by (simp add: sd'_def)
  have "pq_inv sd'" unfolding pq_inv_def
  proof (intro conjI)
    show "\<forall>n \<in> set (drop (nat (sq_count sd')) (pq_ring sd')). pn_expID n = 0 \<and> pn_status n = PQ_AVAILABLE"
      using pq_inv_length [OF inv] pq_inv_free [OF inv] ring cnt by (intro pq_inv_freeI) auto
    show "sq_last sd' = (sq_first sd' + nat (sq_count sd') + (SZ_PROC_QUEUE - 1)) mod SZ_PROC_QUEUE"
    proof -
      have "sq_first sd + Suc ?c + (SZ_PROC_QUEUE - 1) = sq_first sd + ?c + SZ_PROC_QUEUE" using N_pos by simp
      then show ?thesis using cnt r(4) by (simp add: sd'_def put_node_def)
    qed
  qed (use r c inv in \<open>auto simp: sd'_def pq_inv_def\<close>)
  moreover have "pq_list sd' = pq_list sd @ [(expID, PQ_START)]"
    using ring cnt pq_inv_length [OF inv] c(1) pq_list_length [OF inv] pq_list_nth [OF inv]
    by (intro pq_list_eqI) (auto simp: nth_append nth_list_update less_Suc_eq)
  ultimately show ?thesis by blast
qed

lemma pqAdd_full: "pq_inv sd \<Longrightarrow> length (pq_list sd) = SZ_PROC_QUEUE \<Longrightarrow> pqAdd now sd expID = None"
  using pq_list_length [of sd] by (auto simp: pqAdd_def pq_inv_def Let_def)

lemma pqNext_list: "pq_inv sd \<Longrightarrow> pqNext sd = (case pq_list sd of (e, s) # _ \<Rightarrow> if s = PQ_READY then e else 0 | [] \<Rightarrow> 0)"
proof -
  assume i: "pq_inv sd"
  have f: "sq_node sd (sq_first sd) = pq_ring sd ! 0" using pq_ring_nth [OF i N_pos] i by (simp add: pq_inv_def)
  show ?thesis
  proof (cases "pq_list sd")
    case Nil
    then show ?thesis using pq_list_length [OF i] pq_inv_free [OF i _ N_pos] f by (simp add: pqNext_def PQ_AVAILABLE_def PQ_READY_def)
  next
    case (Cons a as)
    then show ?thesis using pq_list_nth [OF i, of 0] f by (auto simp: pqNext_def)
  qed
qed

lemma pqDataWaiting_list: "pq_inv sd \<Longrightarrow> pqDataWaiting sd = (case pq_list sd of (e, s) # _ \<Rightarrow> if s = PQ_READY then 1 else 0 | [] \<Rightarrow> 0)"
proof -
  assume i: "pq_inv sd"
  have f: "sq_node sd (sq_first sd) = pq_ring sd ! 0" using pq_ring_nth [OF i N_pos] i by (simp add: pq_inv_def)
  show ?thesis using pq_list_nth [OF i, of 0] pq_list_length [OF i] f by (cases "pq_list sd") (auto simp: pqDataWaiting_def)
qed

text \<open>Setting the status of the entry \<open>j\<close>, and taking the first one off.\<close>

lemma put_status_list:
  fixes st :: int
  assumes inv: "pq_inv sd" and j: "j < length (pq_list sd)"
  defines "sd' \<equiv> put_node ((sq_first sd + j) mod SZ_PROC_QUEUE) (\<lambda>n. n\<lparr>pn_status := st\<rparr>) sd"
  shows "pq_inv sd'" "pq_list sd' = (pq_list sd)[j := (fst (pq_list sd ! j), st)]"
proof -
  have jN: "j < SZ_PROC_QUEUE" "j < nat (sq_count sd)" using j pq_list_length [OF inv] inv by (auto simp: pq_inv_def)
  note r = put_node_ring [OF inv jN(1), of "\<lambda>n. n\<lparr>pn_status := st\<rparr>", simplified, folded sd'_def]
  show "pq_inv sd'" unfolding pq_inv_def
  proof (intro conjI)
    show "\<forall>n \<in> set (drop (nat (sq_count sd')) (pq_ring sd')). pn_expID n = 0 \<and> pn_status n = PQ_AVAILABLE"
      using pq_inv_length [OF inv] pq_inv_free [OF inv] r jN by (intro pq_inv_freeI) auto
  qed (use r inv in \<open>auto simp: pq_inv_def\<close>)
  show "pq_list sd' = (pq_list sd)[j := (fst (pq_list sd ! j), st)]"
    using r pq_inv_length [OF inv] inv pq_list_length [OF inv] pq_list_nth [OF inv] j
    by (intro pq_list_eqI) (auto simp: nth_list_update pq_inv_def)
qed

definition drop_first :: "supQueue \<Rightarrow> supQueue" where
  "drop_first sd =
     (let sd2 = put_node (sq_first sd) (\<lambda>n. n\<lparr>pn_expID := 0, pn_status := PQ_AVAILABLE\<rparr>) sd
      in sd2\<lparr>sq_first := pn_next (sq_node sd2 (sq_first sd2)), sq_count := sq_count sd2 - 1\<rparr>)"

lemma pq_inv_sent: "pq_inv (sd\<lparr>sq_sent := m\<rparr>) = pq_inv sd" "pq_list (sd\<lparr>sq_sent := m\<rparr>) = pq_list sd"
  by (simp_all add: pq_inv_def pq_list_def pq_ring_def)

lemma drop_first_list:
  assumes inv: "pq_inv sd" and ne: "pq_list sd \<noteq> []"
  shows "pq_inv (drop_first sd)" "pq_list (drop_first sd) = tl (pq_list sd)"
proof -
  let ?f = "\<lambda>n. n\<lparr>pn_expID := 0, pn_status := PQ_AVAILABLE\<rparr>"
  define sd2 where "sd2 = put_node ((sq_first sd + 0) mod SZ_PROC_QUEUE) ?f sd"
  define sd' where "sd' = drop_first sd"
  have "0 < length (pq_list sd)" using ne by simp
  then have f: "sq_first sd < SZ_PROC_QUEUE" and c: "0 < sq_count sd" "nat (sq_count sd) \<le> SZ_PROC_QUEUE"
    using inv pq_list_length [OF inv] by (auto simp: pq_inv_def)
  note r = put_node_ring [OF inv N_pos, of ?f, simplified, folded sd2_def [simplified]]
  have sd': "sd' = sd2\<lparr>sq_first := Suc (sq_first sd) mod SZ_PROC_QUEUE, sq_count := sq_count sd - 1\<rparr>"
    using r f by (simp add: sd'_def drop_first_def sd2_def Let_def)
  have cnt: "nat (sq_count sd') = nat (sq_count sd) - 1" by (simp add: sd')
  have "rotate (Suc (sq_first sd) mod SZ_PROC_QUEUE) (sq_queue sd2) = rotate (Suc (sq_first sd)) (sq_queue sd2)"
    using r(3) rotate_conv_mod [of "Suc (sq_first sd)" "sq_queue sd2"] by simp
  then have "pq_ring sd' = rotate1 (pq_ring sd2)" using r(4) by (simp add: pq_ring_def sd')
  also have "\<dots> = tl (pq_ring sd) @ [?f (hd (pq_ring sd))]"
    using r(1) pq_inv_length [OF inv] N_pos by (cases "pq_ring sd") auto
  finally have ring: "pq_ring sd' = tl (pq_ring sd) @ [?f (hd (pq_ring sd))]" .
  have len: "length (pq_ring sd') = SZ_PROC_QUEUE" using ring pq_inv_length [OF inv] N_pos by simp
  have nth: "pq_ring sd' ! k = (if Suc k < SZ_PROC_QUEUE then pq_ring sd ! Suc k else ?f (pq_ring sd ! 0))" if "k < SZ_PROC_QUEUE" for k
  proof -
    have "pq_ring sd \<noteq> []" using pq_inv_length [OF inv] N_pos by force
    then show ?thesis using that ring pq_inv_length [OF inv] by (auto simp: nth_append nth_tl hd_conv_nth)
  qed
  have "pq_inv sd'" unfolding pq_inv_def
  proof (intro conjI)
    show "\<forall>n \<in> set (drop (nat (sq_count sd')) (pq_ring sd')). pn_expID n = 0 \<and> pn_status n = PQ_AVAILABLE"
      using len nth pq_inv_free [OF inv] cnt c by (intro pq_inv_freeI) (auto simp: le_diff_conv)
    have e: "Suc (sq_first sd) + nat (sq_count sd') = sq_first sd + nat (sq_count sd)" using cnt c(1) by simp
    have "sq_last sd' = sq_last sd" using r(5) by (simp add: sd')
    then have "sq_last sd' = (Suc (sq_first sd) + nat (sq_count sd') + (SZ_PROC_QUEUE - 1)) mod SZ_PROC_QUEUE"
      using inv unfolding pq_inv_def e by simp
    then show "sq_last sd' = (sq_first sd' + nat (sq_count sd') + (SZ_PROC_QUEUE - 1)) mod SZ_PROC_QUEUE"
      by (simp add: sd' mod_add_left_eq add.assoc)
  qed (use r c inv N_pos in \<open>auto simp: sd' pq_inv_def\<close>)
  then show "pq_inv (drop_first sd)" by (simp add: sd'_def)
  have "pq_list sd' = tl (pq_list sd)"
    using len c cnt nth pq_list_length [OF inv] pq_list_nth [OF inv] by (intro pq_list_eqI) (auto simp: nth_tl)
  then show "pq_list (drop_first sd) = tl (pq_list sd)" by (simp add: sd'_def)
qed

lemma set_stat_at_list:
  fixes st :: int
  assumes inv: "pq_inv sd" and j: "j < length (pq_list sd)"
  defines "sd' \<equiv> set_stat_at ((sq_first sd + j) mod SZ_PROC_QUEUE) st sd"
    and "es \<equiv> (pq_list sd)[j := (fst (pq_list sd ! j), st)]"
  shows "pq_inv sd'" "pq_list sd' = (if st = PQ_DONE then tl es else es)"
proof -
  define sd1 where "sd1 = put_node ((sq_first sd + j) mod SZ_PROC_QUEUE) (\<lambda>n. n\<lparr>pn_status := st\<rparr>) sd"
  note p = put_status_list [OF inv j, of st, folded sd1_def es_def]
  have "pq_list sd1 \<noteq> []" using p(2) j by (auto simp: es_def)
  note d = drop_first_list [OF p(1) this]
  have "sd' = (if st = PQ_DONE then if sq_count (drop_first sd1) = 0 then (drop_first sd1)\<lparr>sq_sent := sq_sent (drop_first sd1) @ [''waiting 0'']\<rparr>
      else drop_first sd1 else sd1)"
    by (simp add: sd'_def set_stat_at_def sd1_def drop_first_def Let_def)
  then show "pq_inv sd'" "pq_list sd' = (if st = PQ_DONE then tl es else es)" using p d by (simp_all add: pq_inv_sent)
qed

lemma first_index_take_append:
  "(\<And>y. y \<in> set ys \<Longrightarrow> \<not> P y) \<Longrightarrow> first_index P (take n (xs @ ys)) = first_index P (take n xs)"
proof (induction xs arbitrary: n)
  case Nil
  then show ?case by (auto simp: first_index_None dest: in_set_takeD)
next
  case (Cons x xs)
  then show ?case by (cases n) auto
qed

lemma first_index_map: "first_index P (map f xs) = first_index (P \<circ> f) xs"
  by (induction xs) auto

lemma pqSetStat_list:
  assumes inv: "pq_inv sd" and id: "\<not> smcEqualExpID 0 expID"
  shows "case first_index (\<lambda>(e, s). smcEqualExpID e expID) (take (SZ_PROC_QUEUE - 1) (pq_list sd)) of
      None \<Rightarrow> pqSetStat sd expID st = Some sd
    | Some j \<Rightarrow> \<exists>sd'. pqSetStat sd expID st = Some sd' \<and> pq_inv sd'
        \<and> pq_list sd' = (if st = PQ_DONE then tl ((pq_list sd)[j := (fst (pq_list sd ! j), st)])
            else (pq_list sd)[j := (fst (pq_list sd ! j), st)])"
proof -
  let ?n = "SZ_PROC_QUEUE - 1" and ?c = "nat (sq_count sd)" and ?P = "\<lambda>nd. smcEqualExpID (pn_expID nd) expID"
  have f: "first_index (\<lambda>(e, s). smcEqualExpID e expID) (take ?n (pq_list sd)) = first_index ?P (take ?n (take ?c (pq_ring sd)))"
    by (simp add: pq_list_def first_index_map take_map o_def)
  have "\<not> ?P y" if "y \<in> set (drop ?c (pq_ring sd))" for y using inv id that by (simp add: pq_inv_def)
  then have g: "first_index ?P (take ?n (pq_ring sd)) = first_index ?P (take ?n (take ?c (pq_ring sd)))"
    using first_index_take_append [of "drop ?c (pq_ring sd)" ?P ?n "take ?c (pq_ring sd)"] by simp
  have l: "set_stat_loop ?n (sq_first sd) expID st sd = (case first_index ?P (take ?n (pq_ring sd)) of
       None \<Rightarrow> sd | Some j \<Rightarrow> set_stat_at ((sq_first sd + j) mod SZ_PROC_QUEUE) st sd)"
    using set_stat_loop_ring [OF inv, of 0 ?n expID st] inv by (simp add: pq_inv_def split: option.splits)
  show ?thesis
  proof (cases "first_index ?P (take ?n (pq_ring sd))")
    case None
    then have "first_index (\<lambda>(e, s). smcEqualExpID e expID) (take ?n (pq_list sd)) = None" using f g by metis
    then show ?thesis using l None inv by (simp add: pqSetStat_def pq_inv_def)
  next
    case (Some j)
    then have "j < length (take ?n (take ?c (pq_ring sd)))" using g first_index_bound by metis
    then have "j < length (pq_list sd)" by (simp add: pq_list_def)
    note s = set_stat_at_list [OF inv this, of st]
    have i: "first_index (\<lambda>(e, s). smcEqualExpID e expID) (take ?n (pq_list sd)) = Some j" using Some f g by metis
    have "0 \<le> sq_count (set_stat_at ((sq_first sd + j) mod SZ_PROC_QUEUE) st sd)" using s(1) by (simp add: pq_inv_def)
    then have "pqSetStat sd expID st = Some (set_stat_at ((sq_first sd + j) mod SZ_PROC_QUEUE) st sd)" using l Some by (simp add: pqSetStat_def)
    then show ?thesis using s i by simp
  qed
qed

lemma pq_init_loop_nodes:
  "length (sq_queue sd) = SZ_PROC_QUEUE \<Longrightarrow>
   length (sq_queue (pq_init_loop i sd)) = SZ_PROC_QUEUE \<and>
   (\<forall>k < SZ_PROC_QUEUE. sq_node (pq_init_loop i sd) k =
      (if i \<le> k \<and> k < SZ_PROC_QUEUE - 1 then (sq_node sd k)\<lparr>pn_next := Suc k, pn_expID := 0, pn_status := PQ_AVAILABLE\<rparr> else sq_node sd k))"
proof (induction "SZ_PROC_QUEUE - 1 - i" arbitrary: i sd)
  case 0
  then show ?case by (subst (1 2) pq_init_loop.simps) auto
next
  case (Suc n)
  then have i: "i < SZ_PROC_QUEUE - 1" "n = SZ_PROC_QUEUE - 1 - Suc i" by simp_all
  let ?sd = "put_node i (\<lambda>n. n\<lparr>pn_next := Suc i, pn_expID := 0, pn_status := PQ_AVAILABLE\<rparr>) sd"
  have "length (sq_queue ?sd) = SZ_PROC_QUEUE" using Suc.prems by (simp add: put_node_def)
  note IH = Suc.hyps(1) [OF i(2) this]
  have "pq_init_loop i sd = pq_init_loop (Suc i) ?sd" using i(1) by (subst pq_init_loop.simps) simp
  then show ?case using IH i(1) Suc.prems by (auto simp: put_node_def nth_list_update)
qed

lemma pqInit_empty:
  assumes "length (sq_queue sd) = SZ_PROC_QUEUE"
    and "pn_expID (sq_node sd (SZ_PROC_QUEUE - 1)) = 0" "pn_status (sq_node sd (SZ_PROC_QUEUE - 1)) = PQ_AVAILABLE"
  shows "pq_inv (pqInit sd)" "pq_list (pqInit sd) = []"
proof -
  let ?sd = "pqInit sd"
  have l: "length (sq_queue ?sd) = SZ_PROC_QUEUE" "sq_first ?sd = 0" "sq_last ?sd = SZ_PROC_QUEUE - 1" "sq_count ?sd = 0"
    using pq_init_loop_nodes [OF assms(1), of 0] by (simp_all add: pqInit_def put_node_def Let_def)
  have n: "sq_node ?sd k = (if k < SZ_PROC_QUEUE - 1 then (sq_node sd k)\<lparr>pn_next := Suc k, pn_expID := 0, pn_status := PQ_AVAILABLE\<rparr>
      else (sq_node sd k)\<lparr>pn_next := 0\<rparr>)" if "k < SZ_PROC_QUEUE" for k
    using pq_init_loop_nodes [OF assms(1), of 0] that by (auto simp: pqInit_def put_node_def Let_def nth_list_update)
  have ring: "pq_ring ?sd = sq_queue ?sd" using l by (simp add: pq_ring_def)
  have free: "pn_expID (sq_node ?sd k) = 0 \<and> pn_status (sq_node ?sd k) = PQ_AVAILABLE" if "k < SZ_PROC_QUEUE" for k
  proof (cases "k < SZ_PROC_QUEUE - 1")
    case False
    then have "k = SZ_PROC_QUEUE - 1" using that by simp
    then show ?thesis using n [OF that] assms by simp
  qed (use n that in simp)
  have nx: "pn_next (sq_node ?sd k) = Suc k mod SZ_PROC_QUEUE" if "k < SZ_PROC_QUEUE" for k
  proof (cases "k < SZ_PROC_QUEUE - 1")
    case False
    then have "Suc k = SZ_PROC_QUEUE" using that by simp
    then show ?thesis using n [OF that] by simp
  qed (use n that in simp)
  have "\<forall>nd \<in> set (drop (nat (sq_count ?sd)) (pq_ring ?sd)). pn_expID nd = 0 \<and> pn_status nd = PQ_AVAILABLE"
    using free l ring by (intro pq_inv_freeI) simp_all
  then show "pq_inv ?sd" unfolding pq_inv_def using l nx N_pos by simp
  show "pq_list ?sd = []" using l by (simp add: pq_list_def)
qed

lemma get_stat_walk:
  assumes inv: "pq_inv sd" and k: "k \<le> length (pq_list sd)" and c: "length (pq_list sd) < SZ_PROC_QUEUE"
  shows "get_stat_loop sd expID ((sq_first sd + k) mod SZ_PROC_QUEUE) =
    Some (case first_index (\<lambda>(e, s). smcEqualExpID e expID) (drop k (pq_list sd)) of None \<Rightarrow> 0 | Some j \<Rightarrow> snd (pq_list sd ! (k + j)))"
  using k
proof (induction "length (pq_list sd) - k" arbitrary: k)
  case (0 k)
  then have e: "k = nat (sq_count sd)" "drop k (pq_list sd) = []" using pq_list_length [OF inv] by simp_all
  have "Suc (sq_first sd + k + (SZ_PROC_QUEUE - 1)) = sq_first sd + k + SZ_PROC_QUEUE" using N_pos by simp
  then have "pn_next (sq_node sd (sq_last sd)) = (sq_first sd + k) mod SZ_PROC_QUEUE"
    using pq_next_node [OF inv, of "sq_first sd + k + (SZ_PROC_QUEUE - 1)"] inv e(1) by (simp add: pq_inv_def)
  then show ?case using e by (subst get_stat_loop.simps) simp
next
  case (Suc n k)
  let ?c = "nat (sq_count sd)"
  have kc: "k < length (pq_list sd)" "k < ?c" "?c < SZ_PROC_QUEUE" using Suc.hyps(2) pq_list_length [OF inv] c by simp_all
  have "Suc (sq_first sd + ?c + (SZ_PROC_QUEUE - 1)) = sq_first sd + ?c + SZ_PROC_QUEUE" using N_pos by simp
  then have l: "pn_next (sq_node sd (sq_last sd)) = (sq_first sd + ?c) mod SZ_PROC_QUEUE"
    using pq_next_node [OF inv, of "sq_first sd + ?c + (SZ_PROC_QUEUE - 1)"] inv by (simp add: pq_inv_def)
  have ne: "(sq_first sd + k) mod SZ_PROC_QUEUE \<noteq> (sq_first sd + ?c) mod SZ_PROC_QUEUE"
    using add_mod_inj [of "sq_first sd" k SZ_PROC_QUEUE ?c] kc by auto
  have nx: "pn_next (sq_node sd ((sq_first sd + k) mod SZ_PROC_QUEUE)) = (sq_first sd + Suc k) mod SZ_PROC_QUEUE"
    using pq_next_node [OF inv, of "sq_first sd + k"] by simp
  have nd: "pq_list sd ! k = (pn_expID (sq_node sd ((sq_first sd + k) mod SZ_PROC_QUEUE)), pn_status (sq_node sd ((sq_first sd + k) mod SZ_PROC_QUEUE)))"
    using pq_list_nth [OF inv kc(1)] pq_ring_nth [OF inv, of k] kc by simp
  have dr: "drop k (pq_list sd) = pq_list sd ! k # drop (Suc k) (pq_list sd)" using kc(1) by (simp add: Cons_nth_drop_Suc)
  show ?case using Suc.hyps(1) [of "Suc k"] Suc.hyps(2) kc l ne nx nd
    by (subst get_stat_loop.simps) (auto simp: dr split: option.splits)
qed

text \<open>\<open>pqGetStat\<close> finds nothing in a full queue, because there the node behind the last is the
  first.\<close>

lemma pqGetStat_list:
  assumes inv: "pq_inv sd"
  shows "pqGetStat sd expID = Some (if length (pq_list sd) = SZ_PROC_QUEUE then 0
    else case first_index (\<lambda>(e, s). smcEqualExpID e expID) (pq_list sd) of None \<Rightarrow> 0 | Some j \<Rightarrow> snd (pq_list sd ! j))"
proof (cases "length (pq_list sd) = SZ_PROC_QUEUE")
  case True
  have f: "sq_first sd < SZ_PROC_QUEUE" using inv by (simp add: pq_inv_def)
  have "Suc (sq_first sd + SZ_PROC_QUEUE + (SZ_PROC_QUEUE - 1)) = sq_first sd + SZ_PROC_QUEUE + SZ_PROC_QUEUE" using N_pos by simp
  then have "pn_next (sq_node sd (sq_last sd)) = sq_first sd"
    using pq_next_node [OF inv, of "sq_first sd + SZ_PROC_QUEUE + (SZ_PROC_QUEUE - 1)"] inv True pq_list_length [OF inv] f
    by (simp add: pq_inv_def)
  then show ?thesis using True by (simp add: pqGetStat_def get_stat_loop.simps)
next
  case False
  then have "length (pq_list sd) < SZ_PROC_QUEUE" using pq_list_length [OF inv] inv by (auto simp: pq_inv_def)
  then show ?thesis using get_stat_walk [OF inv, of 0 expID] False inv by (auto simp: pqGetStat_def pq_inv_def split: option.splits)
qed

subsection \<open>The contract of the queue\<close>

text \<open>What \<open>pqSetStat\<close> promises: the status of the first entry with the identifier among the first
  \<open>SZ_PROC_QUEUE - 1\<close>; for \<open>PQ_DONE\<close> the first entry leaves.\<close>

definition pq_update :: "(cdouble \<times> int) list \<Rightarrow> cdouble \<Rightarrow> int \<Rightarrow> (cdouble \<times> int) list" where
  "pq_update es expID st =
     (case first_index (\<lambda>(e, s). smcEqualExpID e expID) (take (SZ_PROC_QUEUE - 1) es) of
        None \<Rightarrow> es
      | Some j \<Rightarrow> let es' = es[j := (fst (es ! j), st)] in if st = PQ_DONE then tl es' else es')"

text \<open>
  A queue of exposures as the handlers use it, seen through \<open>view\<close>.  The identifier of a real
  exposure is not taken for the 0 of a free node.
\<close>

locale exposure_queue =
  fixes inv :: "'q \<Rightarrow> bool" and view :: "'q \<Rightarrow> (cdouble \<times> int) list" and cap :: nat
    and add :: "string \<Rightarrow> 'q \<Rightarrow> cdouble \<Rightarrow> 'q option" and nxt :: "'q \<Rightarrow> cdouble"
    and set_stat :: "'q \<Rightarrow> cdouble \<Rightarrow> int \<Rightarrow> 'q option"
  assumes add_room: "inv q \<Longrightarrow> length now < SZ_PDATE \<Longrightarrow> length (view q) < cap \<Longrightarrow>
      \<exists>q'. add now q e = Some q' \<and> inv q' \<and> view q' = view q @ [(e, PQ_START)]"
    and add_full: "inv q \<Longrightarrow> length (view q) = cap \<Longrightarrow> add now q e = None"
    and view_bound: "inv q \<Longrightarrow> length (view q) \<le> cap"
    and nxt_view: "inv q \<Longrightarrow> nxt q = (case view q of (e, s) # _ \<Rightarrow> if s = PQ_READY then e else 0 | [] \<Rightarrow> 0)"
    and set_view: "inv q \<Longrightarrow> \<not> smcEqualExpID 0 e \<Longrightarrow> \<exists>q'. set_stat q e st = Some q' \<and> inv q' \<and> view q' = pq_update (view q) e st"
begin

lemma add_view:
  assumes "inv q" "length now < SZ_PDATE" "add now q e = Some q'"
  shows "inv q' \<and> view q' = view q @ [(e, PQ_START)]"
proof -
  have "length (view q) < cap" using assms add_full [of q now e] view_bound [of q] by (cases "length (view q) = cap") auto
  then show ?thesis using add_room [OF assms(1,2), of e] assms(3) by auto
qed

lemma set_view_Some: "inv q \<Longrightarrow> \<not> smcEqualExpID 0 e \<Longrightarrow> set_stat q e st = Some q' \<Longrightarrow> inv q' \<and> view q' = pq_update (view q) e st"
  using set_view [of q e st] by auto

lemma nxt_pos:
  assumes "inv q" "0 < nxt q"
  shows "\<exists>es. view q = (nxt q, PQ_READY) # es"
  using nxt_view [OF assms(1)] assms(2) by (auto split: list.splits prod.splits if_splits)

end

lemma pqSetStat_update:
  assumes "pq_inv sd" "\<not> smcEqualExpID 0 expID"
  shows "\<exists>sd'. pqSetStat sd expID st = Some sd' \<and> pq_inv sd' \<and> pq_list sd' = pq_update (pq_list sd) expID st"
  using pqSetStat_list [OF assms, of st] assms(1) by (auto simp: pq_update_def Let_def split: option.splits)

interpretation pq: exposure_queue pq_inv pq_list SZ_PROC_QUEUE pqAdd pqNext pqSetStat
proof unfold_locales
  fix q :: supQueue
  assume i: "pq_inv q"
  show "length (pq_list q) \<le> SZ_PROC_QUEUE" using i pq_list_length [OF i] by (auto simp: pq_inv_def)
  show "pqNext q = (case pq_list q of (e, s) # _ \<Rightarrow> if s = PQ_READY then e else 0 | [] \<Rightarrow> 0)" by (rule pqNext_list [OF i])
next
  fix q :: supQueue and e :: cdouble and st :: int
  assume "pq_inv q" "\<not> smcEqualExpID 0 e"
  then show "\<exists>q'. pqSetStat q e st = Some q' \<and> pq_inv q' \<and> pq_list q' = pq_update (pq_list q) e st" by (rule pqSetStat_update)
qed (auto intro: pqAdd_full pqAdd_list)

subsection \<open>Updates of a list of distinct exposures\<close>

definition ids_ok :: "cdouble list \<Rightarrow> bool" where
  "ids_ok es \<longleftrightarrow> (\<forall>e \<in> set es. EXPID_TOL \<le> e) \<and> (\<forall>i < length es. \<forall>j < length es. i \<noteq> j \<longrightarrow> \<not> smcEqualExpID (es ! i) (es ! j))"

lemma smcEqualExpID_refl: "smcEqualExpID e e"
  by (simp add: smcEqualExpID_def EXPID_TOL_def)

lemma smcEqualExpID_sym: "smcEqualExpID a b = smcEqualExpID b a"
  by (auto simp: smcEqualExpID_def)

lemma smcEqualExpID_zero: "EXPID_TOL \<le> e \<Longrightarrow> \<not> smcEqualExpID 0 e"
  by (auto simp: smcEqualExpID_def EXPID_TOL_def split: if_splits)

lemma ids_ok_eq:
  assumes "ids_ok es" "a \<in> set es" "b \<in> set es" "smcEqualExpID a b"
  shows "a = b"
  using assms unfolding ids_ok_def in_set_conv_nth by blast

lemma ids_ok_distinct: "ids_ok es \<Longrightarrow> distinct es"
  using smcEqualExpID_refl unfolding ids_ok_def distinct_conv_nth by metis

lemma ids_ok_snoc:
  assumes "ids_ok es" "EXPID_TOL \<le> e" "\<And>i. i \<in> set es \<Longrightarrow> \<not> smcEqualExpID i e"
  shows "ids_ok (es @ [e])"
proof -
  have "\<not> smcEqualExpID e (es ! i)" "\<not> smcEqualExpID (es ! i) e" if "i < length es" for i
    using assms(3) [of "es ! i"] that smcEqualExpID_sym [of e "es ! i"] by auto
  then show ?thesis using assms(1,2) by (auto simp: ids_ok_def nth_append less_Suc_eq)
qed

lemma pq_update_head: "smcEqualExpID e expID \<Longrightarrow> pq_update ((e, s) # es) expID st = (if st = PQ_DONE then es else (e, st) # es)"
  by (simp add: pq_update_def SZ_PROC_QUEUE_def)

lemma pq_update_absent: "(\<And>e s. (e, s) \<in> set es \<Longrightarrow> \<not> smcEqualExpID e expID) \<Longrightarrow> pq_update es expID st = es"
proof -
  assume "\<And>e s. (e, s) \<in> set es \<Longrightarrow> \<not> smcEqualExpID e expID"
  then have "first_index (\<lambda>(e, s). smcEqualExpID e expID) (take (SZ_PROC_QUEUE - 1) es) = None"
    by (auto simp: first_index_None dest: in_set_takeD)
  then show ?thesis by (simp add: pq_update_def)
qed

lemma pq_update_ids: "st \<noteq> PQ_DONE \<Longrightarrow> map fst (pq_update es expID st) = map fst es"
  by (auto simp: pq_update_def Let_def map_update split: option.splits intro!: list_update_same_conv [THEN iffD2] dest!: first_index_bound)

lemma pq_update_tail: "\<not> smcEqualExpID e expID \<Longrightarrow> st \<noteq> PQ_DONE \<Longrightarrow> hd (pq_update ((e, s) # es) expID st) = (e, s)"
  by (auto simp: pq_update_def Let_def SZ_PROC_QUEUE_def split: option.splits nat.splits)

subsection \<open>Reachable states of the supervisor\<close>

text \<open>The exposures whose processing was started and finished, in the order of the messages.\<close>

definition sup_msgs :: "string \<Rightarrow> supState \<Rightarrow> cdouble list" where
  "sup_msgs t sv = map (snd \<circ> snd) (filter (\<lambda>(w, t', e). w = ''SMCMgr'' \<and> t' = t) (sv_bcast sv))"

abbreviation sup_started :: "supState \<Rightarrow> cdouble list" where
  "sup_started sv \<equiv> sup_msgs ''process'' sv"

abbreviation sup_finished :: "supState \<Rightarrow> cdouble list" where
  "sup_finished sv \<equiv> sup_msgs ''ExpID'' sv"

text \<open>
  \<open>sup_reach sv0 ids sv\<close>: from \<open>sv0\<close>, before which nothing is queued, the supervisor came to \<open>sv\<close>
  while the trigger host opened the exposures \<open>ids\<close>.  An exposure is closed before it is processed;
  \<open>dca_done\<close> is sent once for a started exposure and \<open>clean done\<close> for finished ones only.  The
  identifiers of two exposures are at least \<open>EXPID_TOL\<close> apart.
\<close>

inductive sup_reach :: "supState \<Rightarrow> cdouble list \<Rightarrow> supState \<Rightarrow> bool" for sv0 :: supState where
  start: "length (sq_queue q) = SZ_PROC_QUEUE \<Longrightarrow> pn_expID (sq_node q (SZ_PROC_QUEUE - 1)) = 0 \<Longrightarrow>
      pn_status (sq_node q (SZ_PROC_QUEUE - 1)) = PQ_AVAILABLE \<Longrightarrow> sv_queue sv0 = pqInit q \<Longrightarrow> sv_bcast sv0 = [] \<Longrightarrow>
      sup_reach sv0 [] sv0"
| opened: "sup_reach sv0 ids sv \<Longrightarrow> length now < SZ_PDATE \<Longrightarrow> EXPID_TOL \<le> e \<Longrightarrow> (\<And>i. i \<in> set ids \<Longrightarrow> \<not> smcEqualExpID i e) \<Longrightarrow>
      sup_open_exp now True sv e = Some sv' \<Longrightarrow> sup_reach sv0 (ids @ [e]) sv'"
| opened_other: "sup_reach sv0 ids sv \<Longrightarrow> sup_open_exp now False sv e = Some sv' \<Longrightarrow> sup_reach sv0 ids sv'"
| closed: "sup_reach sv0 ids sv \<Longrightarrow> e \<in> set ids \<Longrightarrow> e \<notin> set (sup_started sv) \<Longrightarrow> sup_close_exp trig sv e = Some sv' \<Longrightarrow>
      sup_reach sv0 ids sv'"
| nextexp: "sup_reach sv0 ids sv \<Longrightarrow> supProcNext sv = Some sv' \<Longrightarrow> sup_reach sv0 ids sv'"
| finished: "sup_reach sv0 ids sv \<Longrightarrow> e \<in> set (sup_started sv) \<Longrightarrow> e \<notin> set (sup_finished sv) \<Longrightarrow> sup_dca_done sv e = Some sv' \<Longrightarrow>
      sup_reach sv0 ids sv'"
| cleaned: "sup_reach sv0 ids sv \<Longrightarrow> e \<in> set (sup_finished sv) \<Longrightarrow> sup_clean_done sv e = Some sv' \<Longrightarrow> sup_reach sv0 ids sv'"

text \<open>The arrivals are the finished exposures and then the queue, whose head may be in process.\<close>

definition sup_fifo :: "cdouble list \<Rightarrow> supState \<Rightarrow> bool" where
  "sup_fifo ids sv \<longleftrightarrow> pq_inv (sv_queue sv) \<and> ids_ok ids \<and> ids = sup_finished sv @ map fst (pq_list (sv_queue sv))
     \<and> (sup_started sv = sup_finished sv
        \<or> (\<exists>e es. pq_list (sv_queue sv) = (e, PQ_ACTIVE) # es \<and> sup_started sv = sup_finished sv @ [e]))"

lemma sup_msgs_update [simp]: "sup_msgs t (sv\<lparr>sv_queue := q\<rparr>) = sup_msgs t sv"
  by (simp add: sup_msgs_def)

lemma sup_fifoD: "sup_fifo ids sv \<Longrightarrow> ids_ok ids" "sup_fifo ids sv \<Longrightarrow> pq_inv (sv_queue sv)"
    "sup_fifo ids sv \<Longrightarrow> ids = sup_finished sv @ map fst (pq_list (sv_queue sv))"
  unfolding sup_fifo_def by blast+

lemma sup_fifo_cong:
  assumes "sup_fifo ids sv" "pq_inv (sv_queue sv')" "pq_list (sv_queue sv') = pq_list (sv_queue sv)"
    and "sup_started sv' = sup_started sv" "sup_finished sv' = sup_finished sv"
  shows "sup_fifo ids sv'"
  using assms(1) unfolding sup_fifo_def assms(3-5) using assms(2) by blast

lemma put_queue_Some: "put_queue sv q = Some sv' \<longleftrightarrow> (\<exists>q'. q = Some q' \<and> sv' = sv\<lparr>sv_queue := q'\<rparr>)"
  by (auto simp: put_queue_def)

lemma ids_ok_not_zero: "ids_ok ids \<Longrightarrow> e \<in> set ids \<Longrightarrow> \<not> smcEqualExpID 0 e"
  by (auto simp: ids_ok_def smcEqualExpID_zero)

lemma sup_fifo_opened:
  assumes "sup_fifo ids sv" "length now < SZ_PDATE" "EXPID_TOL \<le> e" "\<And>i. i \<in> set ids \<Longrightarrow> \<not> smcEqualExpID i e"
    and "sup_open_exp now True sv e = Some sv'"
  shows "sup_fifo (ids @ [e]) sv'"
proof -
  obtain q' where q: "pqAdd now (sv_queue sv) e = Some q'" "sv' = sv\<lparr>sv_queue := q'\<rparr>"
    using assms(5) by (auto simp: sup_open_exp_def put_queue_Some)
  have "pq_inv q'" "pq_list q' = pq_list (sv_queue sv) @ [(e, PQ_START)]"
    using pq.add_view [OF _ assms(2) q(1)] assms(1) by (auto simp: sup_fifo_def)
  moreover have "ids_ok (ids @ [e])" using sup_fifoD(1) [OF assms(1)] assms(3,4) by (intro ids_ok_snoc) blast+
  ultimately show ?thesis using assms(1) q(2) by (auto simp: sup_fifo_def)
qed

text \<open>A status other than \<open>PQ_DONE\<close> for an exposure that is not in process.\<close>

lemma sup_fifo_set:
  assumes "sup_fifo ids sv" "e \<in> set ids" "e \<notin> set (sup_started sv) \<or> e \<in> set (sup_finished sv)" "st \<noteq> PQ_DONE" 
    and "pqSetStat (sv_queue sv) e st = Some q'"
  shows "sup_fifo ids (sv\<lparr>sv_queue := q'\<rparr>)"
proof -
  let ?L = "pq_list (sv_queue sv)"
  have ok: "ids_ok ids" "pq_inv (sv_queue sv)" and ids: "ids = sup_finished sv @ map fst ?L"
    using sup_fifoD [OF assms(1)] by blast+
  have q: "pq_inv q'" "pq_list q' = pq_update ?L e st"
    using pq.set_view_Some [OF ok(2) ids_ok_not_zero [OF ok(1) assms(2)] assms(5)] by simp_all
  have "pq_list q' = (h, PQ_ACTIVE) # tl (pq_list q')" if h: "?L = (h, PQ_ACTIVE) # es" "sup_started sv = sup_finished sv @ [h]" for h es
  proof -
    have "e \<noteq> h" using assms(3) h ids ids_ok_distinct [OF ok(1)] by auto
    moreover have "h \<in> set ids" using ids h by simp
    ultimately have "\<not> smcEqualExpID h e" using ids_ok_eq [OF ok(1) _ assms(2)] by blast
    then have "hd (pq_update ?L e st) = (h, PQ_ACTIVE)" using pq_update_tail assms(4) h(1) by simp
    moreover have "pq_update ?L e st \<noteq> []" using pq_update_ids [OF assms(4), of ?L e] h(1) by auto
    ultimately show ?thesis using q(2) by (metis list.collapse)
  qed
  then show ?thesis using assms(1) q pq_update_ids [OF assms(4), of ?L e] by (fastforce simp: sup_fifo_def)
qed

lemma sup_fifo_closed:
  assumes "sup_fifo ids sv" "e \<in> set ids" "e \<notin> set (sup_started sv)" "sup_close_exp trig sv e = Some sv'"
  shows "sup_fifo ids sv'"
proof (cases trig)
  case True
  then obtain q where q: "pqSetStat (sv_queue sv) e PQ_READY = Some q" "sv' = sv\<lparr>sv_queue := q\<lparr>sq_sent := sq_sent q @ [''waiting 1'']\<rparr>\<rparr>"
    using assms(4) by (auto simp: sup_close_exp_def put_queue_Some)
  have "sup_fifo ids (sv\<lparr>sv_queue := q\<rparr>)" using sup_fifo_set [OF assms(1,2) _ _ q(1)] assms(3) by (simp add: PQ_READY_def PQ_DONE_def)
  then show ?thesis by (rule sup_fifo_cong) (use sup_fifoD(2) [OF \<open>sup_fifo ids (sv\<lparr>sv_queue := q\<rparr>)\<close>] in \<open>simp_all add: q(2) pq_inv_sent\<close>)
qed (use assms in \<open>auto simp: sup_close_exp_def\<close>)

lemma sup_fifo_cleaned:
  assumes "sup_fifo ids sv" "e \<in> set (sup_finished sv)" "sup_clean_done sv e = Some sv'"
  shows "sup_fifo ids sv'"
proof -
  obtain q where q: "pqSetStat (sv_queue sv) e PQ_AVAILABLE = Some q"
      "sv' = sv\<lparr>sv_queue := q, sv_bcast := sv_bcast sv @ [(''SMCMgr'', ''segList'', 0)], sv_dca_done := sv_dca_done sv + 1\<rparr>"
    using assms(3) by (auto simp: sup_clean_done_def put_queue_Some)
  have "e \<in> set ids" using assms(1,2) unfolding sup_fifo_def by force
  then have "sup_fifo ids (sv\<lparr>sv_queue := q\<rparr>)" using sup_fifo_set [OF assms(1) _ _ _ q(1)] assms(2) by (simp add: PQ_AVAILABLE_def PQ_DONE_def)
  then show ?thesis by (rule sup_fifo_cong) (use sup_fifoD(2) [OF \<open>sup_fifo ids (sv\<lparr>sv_queue := q\<rparr>)\<close>] in \<open>simp_all add: q(2) sup_msgs_def\<close>)
qed

lemma sup_fifo_nextexp:
  assumes "sup_fifo ids sv" "supProcNext sv = Some sv'"
  shows "sup_fifo ids sv'"
proof (cases "sv' = sv")
  case False
  let ?L = "pq_list (sv_queue sv)" and ?e = "pqNext (sv_queue sv)"
  have ok: "ids_ok ids" "pq_inv (sv_queue sv)" and ids: "ids = sup_finished sv @ map fst ?L"
    using sup_fifoD [OF assms(1)] by blast+
  have pos: "0 < ?e" using assms(2) False by (auto simp: supProcNext_def Let_def split: if_splits)
  obtain es where L: "?L = (?e, PQ_READY) # es" using pq.nxt_pos [OF ok(2) pos] by blast
  obtain q where q: "pqSetStat (sv_queue sv) ?e PQ_ACTIVE = Some q" "sv_queue sv' = q"
      "sup_started sv' = sup_started sv @ [?e]" "sup_finished sv' = sup_finished sv"
    using assms(2) False by (auto simp: supProcNext_def Let_def sup_msgs_def split: if_splits option.splits)
  have "?e \<in> set ids" using ids L by simp
  then have "pq_inv q" "pq_list q = (?e, PQ_ACTIVE) # es"
    using pq.set_view_Some [OF ok(2) ids_ok_not_zero [OF ok(1)] q(1)] pq_update_head [OF smcEqualExpID_refl] L
    by (simp_all add: PQ_ACTIVE_def PQ_DONE_def)
  moreover have "sup_started sv = sup_finished sv" using assms(1) L by (auto simp: sup_fifo_def PQ_READY_def PQ_ACTIVE_def)
  ultimately show ?thesis using ok ids L q by (simp add: sup_fifo_def)
qed (use assms(1) in simp)

lemma sup_fifo_finished:
  assumes "sup_fifo ids sv" "e \<in> set (sup_started sv)" "e \<notin> set (sup_finished sv)" "sup_dca_done sv e = Some sv'"
  shows "sup_fifo ids sv'"
proof -
  let ?L = "pq_list (sv_queue sv)"
  have ok: "ids_ok ids" "pq_inv (sv_queue sv)" and ids: "ids = sup_finished sv @ map fst ?L"
    using sup_fifoD [OF assms(1)] by blast+
  obtain es where L: "?L = (e, PQ_ACTIVE) # es" "sup_started sv = sup_finished sv @ [e]"
    using assms(1-3) unfolding sup_fifo_def by force
  obtain q where q: "pqSetStat (sv_queue sv) e PQ_DONE = Some q" "sv_queue sv' = q"
      "sup_started sv' = sup_started sv" "sup_finished sv' = sup_finished sv @ [e]"
    using assms(4) by (auto simp: sup_dca_done_def put_queue_Some sup_msgs_def)
  have "e \<in> set ids" using ids L by simp
  then have "pq_inv q" "pq_list q = es"
    using pq.set_view_Some [OF ok(2) ids_ok_not_zero [OF ok(1)] q(1)] pq_update_head [OF smcEqualExpID_refl] L by simp_all
  then show ?thesis using ok ids L q by (simp add: sup_fifo_def)
qed

lemma sup_reach_fifo: "sup_reach sv0 ids sv \<Longrightarrow> sup_fifo ids sv"
proof (induction rule: sup_reach.induct)
  case (start q)
  then show ?case using pqInit_empty [of q] by (simp add: sup_fifo_def ids_ok_def sup_msgs_def)
next
  case (opened_other ids sv now e sv')
  then show ?case by (simp add: sup_open_exp_def)
qed (blast intro: sup_fifo_opened sup_fifo_closed sup_fifo_nextexp sup_fifo_finished sup_fifo_cleaned)+

text \<open>C4.  The supervisor starts the exposures in the order in which the trigger host opened them, none
  twice, and never more than one at a time: the started exposures are a prefix of the arrivals,
  and at most one of them is not finished.\<close>

theorem supervisor_fifo:
  assumes "sup_reach sv0 ids sv"
  shows "sup_started sv = take (length (sup_started sv)) ids \<and> distinct (sup_started sv)
    \<and> sup_finished sv = take (length (sup_finished sv)) (sup_started sv)
    \<and> length (sup_started sv) \<le> Suc (length (sup_finished sv))"
proof -
  have f: "sup_fifo ids sv" by (rule sup_reach_fifo [OF assms])
  then have "distinct ids" using ids_ok_distinct unfolding sup_fifo_def by blast
  then show ?thesis using f by (auto simp: sup_fifo_def)
qed

definition sup_sample :: supState where
  "sup_sample = \<lparr>sv_queue = pqInit \<lparr>sq_queue = replicate SZ_PROC_QUEUE \<lparr>pn_expID = 0, pn_status = PQ_AVAILABLE, pn_t_in = [],
       pn_t_out = [], pn_t_done = [], pn_next = 0\<rparr>, sq_first = 0, sq_last = 0, sq_count = 0, sq_sent = []\<rparr>,
     sv_dca_done = - 999, sv_numProcMgrs = 2, sv_imgSeqNo = 0, sv_transStat = [], sv_bcast = []\<rparr>"

lemma sup_sample_open:
  assumes "sup_reach sv0 ids sv" "pq_list (sv_queue sv) = es" "length es < SZ_PROC_QUEUE" "EXPID_TOL \<le> e"
    and "\<And>i. i \<in> set ids \<Longrightarrow> \<not> smcEqualExpID i e"
  shows "\<exists>q. sup_reach sv0 (ids @ [e]) (sv\<lparr>sv_queue := q\<rparr>) \<and> pq_list q = es @ [(e, PQ_START)]"
proof -
  have i: "pq_inv (sv_queue sv)" using sup_fifoD(2) [OF sup_reach_fifo [OF assms(1)]] .
  obtain q where q: "pqAdd ''12:00:00'' (sv_queue sv) e = Some q" "pq_list q = es @ [(e, PQ_START)]"
    using pq.add_room [OF i, of "''12:00:00''" e] assms(2,3) by (auto simp: SZ_PDATE_def)
  have "sup_reach sv0 (ids @ [e]) (sv\<lparr>sv_queue := q\<rparr>)"
    using q(1) by (intro sup_reach.opened [OF assms(1), of "''12:00:00''"] assms(4,5)) (simp_all add: sup_open_exp_def put_queue_def SZ_PDATE_def)
  then show ?thesis using q(2) by blast
qed

lemma sup_sample_run:
  "\<exists>sv. sup_reach sup_sample [1, 2] sv \<and> pq_list (sv_queue sv) = [(1, PQ_ACTIVE), (2, PQ_START)] \<and> sup_started sv = [1] \<and> sup_finished sv = []"
proof -
  have r0: "sup_reach sup_sample [] sup_sample"
    by (rule sup_reach.start [of "\<lparr>sq_queue = replicate SZ_PROC_QUEUE \<lparr>pn_expID = 0, pn_status = PQ_AVAILABLE, pn_t_in = [],
       pn_t_out = [], pn_t_done = [], pn_next = 0\<rparr>, sq_first = 0, sq_last = 0, sq_count = 0, sq_sent = []\<rparr>"])
      (simp_all add: sup_sample_def N_pos)
  have l0: "pq_list (sv_queue sup_sample) = []" unfolding sup_sample_def supState.simps by (rule pqInit_empty) (simp_all add: N_pos)
  obtain q1 where r1: "sup_reach sup_sample [1] (sup_sample\<lparr>sv_queue := q1\<rparr>)" "pq_list q1 = [(1, PQ_START)]"
    using sup_sample_open [OF r0 l0, of 1] by (auto simp: SZ_PROC_QUEUE_def EXPID_TOL_def)
  obtain q2 where r2: "sup_reach sup_sample [1, 2] (sup_sample\<lparr>sv_queue := q2\<rparr>)" "pq_list q2 = [(1, PQ_START), (2, PQ_START)]"
    using sup_sample_open [OF r1(1), of "[(1, PQ_START)]" 2] r1(2) by (auto simp: SZ_PROC_QUEUE_def EXPID_TOL_def smcEqualExpID_def)
  have z: "\<not> smcEqualExpID 0 (1::rat)" by (simp add: smcEqualExpID_def EXPID_TOL_def)
  have i2: "pq_inv q2" using sup_fifoD(2) [OF sup_reach_fifo [OF r2(1)]] by simp
  obtain q3 where q3: "pqSetStat q2 1 PQ_READY = Some q3" "pq_inv q3" "pq_list q3 = [(1, PQ_READY), (2, PQ_START)]"
    using pq.set_view [OF i2 z, of PQ_READY] pq_update_head [OF smcEqualExpID_refl] r2(2) by (auto simp: PQ_READY_def PQ_DONE_def)
  define q4 where "q4 = q3\<lparr>sq_sent := sq_sent q3 @ [''waiting 1'']\<rparr>"
  have r3: "sup_reach sup_sample [1, 2] (sup_sample\<lparr>sv_queue := q4\<rparr>)"
    by (rule sup_reach.closed [OF r2(1), where e = 1 and trig = True])
      (simp_all add: sup_msgs_def sup_sample_def sup_close_exp_def put_queue_def q3(1) q4_def)
  have q4: "pq_inv q4" "pq_list q4 = [(1, PQ_READY), (2, PQ_START)]" using q3 by (simp_all add: q4_def pq_inv_sent)
  obtain q5 where q5: "pqSetStat q4 1 PQ_ACTIVE = Some q5" "pq_list q5 = [(1, PQ_ACTIVE), (2, PQ_START)]"
    using pq.set_view [OF q4(1) z, of PQ_ACTIVE] pq_update_head [OF smcEqualExpID_refl] q4(2) by (auto simp: PQ_ACTIVE_def PQ_DONE_def)
  have n: "pqNext q4 = 1" using pq.nxt_view [OF q4(1)] q4(2) by simp
  have "\<exists>sv'. supProcNext (sup_sample\<lparr>sv_queue := q4\<rparr>) = Some sv' \<and> sv_queue sv' = q5 \<and> sup_started sv' = [1] \<and> sup_finished sv' = []"
    by (simp add: supProcNext_def Let_def n q5(1) sup_sample_def sup_msgs_def)
  then show ?thesis using sup_reach.nextexp [OF r3] q5(2) by blast
qed

theorem supervisor_fifo_witness:
  "\<exists>sv. sup_reach sup_sample [1, 2] sv \<and> sup_started sv = [1] \<and> sup_started sv = take (length (sup_started sv)) [1, 2]
     \<and> length (sup_started sv) \<le> Suc (length (sup_finished sv))"
  using sup_sample_run supervisor_fifo by blast

text \<open>\<open>PQ_DONE\<close> for an exposure that is not the first of the queue takes the first one off, which
  is then never processed, while the exposure itself stays behind as done and the queue does not
  go on: \<open>pqNext\<close> returns 0.\<close>

lemma pqSetStat_done_drops_first:
  assumes "pq_inv sd" "pq_list sd = [(a, PQ_READY), (b, PQ_ACTIVE)]" "EXPID_TOL \<le> b" "\<not> smcEqualExpID a b"
  shows "\<exists>sd'. pqSetStat sd b PQ_DONE = Some sd' \<and> pq_list sd' = [(b, PQ_DONE)] \<and> pqNext sd' = 0"
proof -
  have "pq_update [(a, PQ_READY), (b, PQ_ACTIVE)] b PQ_DONE = [(b, PQ_DONE)]"
    using assms(4) smcEqualExpID_refl by (simp add: pq_update_def SZ_PROC_QUEUE_def)
  then obtain sd' where "pqSetStat sd b PQ_DONE = Some sd'" "pq_inv sd'" "pq_list sd' = [(b, PQ_DONE)]"
    using pq.set_view [OF assms(1) smcEqualExpID_zero [OF assms(3)], of PQ_DONE] assms(2) by auto
  then show ?thesis using pq.nxt_view [of sd'] by (auto simp: PQ_DONE_def PQ_READY_def)
qed

text \<open>C19.  The ring of nodes implements a bounded list of exposures: through \<open>pq_list\<close>, \<open>pqAdd\<close> appends
  until the capacity is reached and then exits, \<open>pqNext\<close> and \<open>pqDataWaiting\<close> look at the first
  entry, \<open>pqSetStat\<close> is \<open>pq_update\<close>, and each of them keeps the ring.\<close>

theorem pq_refines_list:
  assumes "pq_inv sd" "length now < SZ_PDATE" "EXPID_TOL \<le> e"
  shows "(case pqAdd now sd e of None \<Rightarrow> length (pq_list sd) = SZ_PROC_QUEUE
      | Some sd' \<Rightarrow> length (pq_list sd) < SZ_PROC_QUEUE \<and> pq_inv sd' \<and> pq_list sd' = pq_list sd @ [(e, PQ_START)])
    \<and> pqNext sd = (case pq_list sd of (i, s) # _ \<Rightarrow> if s = PQ_READY then i else 0 | [] \<Rightarrow> 0)
    \<and> (pqDataWaiting sd = 1) = (\<exists>i es. pq_list sd = (i, PQ_READY) # es)
    \<and> (\<exists>sd'. pqSetStat sd e st = Some sd' \<and> pq_inv sd' \<and> pq_list sd' = pq_update (pq_list sd) e st)"
proof (intro conjI)
  show "case pqAdd now sd e of None \<Rightarrow> length (pq_list sd) = SZ_PROC_QUEUE
      | Some sd' \<Rightarrow> length (pq_list sd) < SZ_PROC_QUEUE \<and> pq_inv sd' \<and> pq_list sd' = pq_list sd @ [(e, PQ_START)]"
    using pq.add_room [OF assms(1,2), of e] pq.add_full [OF assms(1), of now e] pq.view_bound [OF assms(1)]
    by (cases "length (pq_list sd) = SZ_PROC_QUEUE") auto
  show "(pqDataWaiting sd = 1) = (\<exists>i es. pq_list sd = (i, PQ_READY) # es)"
    by (auto simp: pqDataWaiting_list [OF assms(1)] split: list.splits)
qed (use pq.nxt_view [OF assms(1)] pq.set_view [OF assms(1) smcEqualExpID_zero [OF assms(3)]] in blast)+

theorem pq_refines_list_witness:
  "pq_inv (sv_queue sup_sample) \<and> (case pqAdd ''12:00:00'' (sv_queue sup_sample) 3 of None \<Rightarrow> False
     | Some sd' \<Rightarrow> pq_list sd' = [(3, PQ_START)]) \<and> pqNext (sv_queue sup_sample) = 0"
proof -
  have i: "pq_inv (sv_queue sup_sample)" "pq_list (sv_queue sup_sample) = []"
    unfolding sup_sample_def supState.simps by (rule pqInit_empty; simp add: N_pos)+
  show ?thesis using pq_refines_list [OF i(1), of "''12:00:00''" 3 PQ_READY] i
    by (auto simp: SZ_PDATE_def EXPID_TOL_def SZ_PROC_QUEUE_def split: option.splits)
qed

end
