(* ===== verification/SupProc.thy ===== *)
theory SupProc
  imports ProcQueue
begin

section \<open>The supervisor's process table (dhssup/supProc.c, dhssup/supPanHandler.c)\<close>

text \<open>
  The table of client processes, the connections between PANs and collectors, and the handlers for
  the messages of a PAN about an exposure.  A pointer into the process table is the index of the
  entry, \<open>None\<close> the null pointer.  The messages to the GUI are collected in \<open>st_gui\<close>.  \<open>None\<close> as a
  result is an access outside a table, a buffer or a string.  The time stamp, the host name and
  the handler's arguments are parameters.
\<close>

definition SZ_PNAME :: nat where "SZ_PNAME = 12"
definition SZ_PHOST :: nat where "SZ_PHOST = 32"
definition SZ_PSTAT :: nat where "SZ_PSTAT = 32"
definition SZ_PROCTABLE :: nat where "SZ_PROCTABLE = 128"

record clientProc =
  cp_name :: string
  cp_host :: string
  cp_pid :: int
  cp_port :: int
  cp_tid :: int
  cp_colID :: string
  cp_date :: string
  cp_status :: string
  cp_datain :: int
  cp_connected :: int
  cp_active :: int

record panConn =
  pc_pan :: "nat option"
  pc_collector :: "nat option"
  pc_inUse :: int
  pc_bytesTransferred :: xlong
  pc_bytesTotal :: cdouble
  pc_timestamp :: string
  pc_obsSetID :: string

record panPair =
  pp_phost :: string
  pp_chost :: string
  pp_socket :: int

record supTab =
  st_procTable :: "clientProc list"
  st_numClients :: nat
  st_connTable :: "panConn list"
  st_numPanConns :: nat
  st_pairTable :: "panPair list"
  st_triggerHost :: string
  st_showActivity :: bool
  st_stat_enable :: bool
  st_verbose :: bool
  st_gui :: "(string \<times> string) list"

definition zero_proc :: clientProc where
  "zero_proc = \<lparr>cp_name = [], cp_host = [], cp_pid = 0, cp_port = 0, cp_tid = 0, cp_colID = [], cp_date = [],
     cp_status = [], cp_datain = 0, cp_connected = 0, cp_active = 0\<rparr>"

definition sup_message :: "supTab \<Rightarrow> string \<Rightarrow> string \<Rightarrow> supTab" where
  "sup_message st obj msg = st\<lparr>st_gui := st_gui st @ [(obj, msg)]\<rparr>"

definition put_proc :: "nat \<Rightarrow> (clientProc \<Rightarrow> clientProc) \<Rightarrow> supTab \<Rightarrow> supTab" where
  "put_proc i f st = st\<lparr>st_procTable := (st_procTable st)[i := f (st_procTable st ! i)]\<rparr>"

definition strcasecmp_eq :: "string \<Rightarrow> string \<Rightarrow> bool" where
  "strcasecmp_eq s t \<longleftrightarrow> map c_tolower s = map c_tolower t"

definition strncasecmp_eq :: "string \<Rightarrow> string \<Rightarrow> nat \<Rightarrow> bool" where
  "strncasecmp_eq s t n \<longleftrightarrow> strcasecmp_eq (take n s) (take n t)"

text \<open>The string that starts at \<open>&s[n]\<close>.\<close>

definition str_from :: "nat \<Rightarrow> string \<Rightarrow> string option" where
  "str_from n s = (if n \<le> length s then Some (drop n s) else None)"

subsection \<open>Host names\<close>

text \<open>
  \<open>supNeuter\<close> returns the neutral name and leaves the caller's string cut off at the first dot; it
  copies a character before it looks whether it is the dot.
\<close>

definition name_extns :: "string list" where
  "name_extns = [''-cr'', ''-fr'', ''-4m'']"

fun strip_extn :: "string \<Rightarrow> string" where
  "strip_extn [] = []"
| "strip_extn (c # cs) =
     (if c = CHR ''-'' \<and> (\<exists>e \<in> set name_extns. strncasecmp_eq e (c # cs) (length e)) then [] else c # strip_extn cs)"

definition supNeuter :: "string \<Rightarrow> (string \<times> string) option" where
  "supNeuter name =
     (let hcut = takeWhile (\<lambda>c. c \<noteq> CHR ''.'') name;
          host = (if CHR ''.'' \<in> set name then hcut @ ''.'' else hcut)
      in if SZ_FNAME \<le> length host then None else Some (strip_extn host, hcut))"

subsection \<open>The display\<close>

definition pad_right :: "nat \<Rightarrow> string \<Rightarrow> string" where
  "pad_right n s = s @ replicate (n - length s) (CHR '' '')"

definition pad_left :: "nat \<Rightarrow> string \<Rightarrow> string" where
  "pad_left n s = replicate (n - length s) (CHR '' '') @ s"

definition show_id :: "nat \<Rightarrow> int \<Rightarrow> string" where
  "show_id n i = (if 0 < i \<and> i \<noteq> 999 then pad_right n (show_int i) else ''N/A'')"

definition proc_line :: "clientProc \<Rightarrow> string option" where
  "proc_line cp =
     (let tid = show_id 6 (cp_tid cp); port = show_id 4 (cp_port cp);
          line = '' {  '' @ pad_right 10 (take 10 (cp_name cp)) @ '' '' @ pad_right 11 (take 11 (cp_host cp)) @ '' ''
            @ pad_right 6 (show_int (cp_pid cp)) @ '' '' @ pad_right 6 tid @ '' '' @ pad_right 4 port @ '' ''
            @ pad_left 8 (cp_date cp) @ '' '' @ cp_status cp @ '' } ''
      in if 10 \<le> length tid \<or> 10 \<le> length port \<or> 160 \<le> length line then None else Some line)"

text \<open>The loop over the clients: the buffer and the list of the active ones.\<close>

primrec proc_lines :: "clientProc list \<Rightarrow> nat \<Rightarrow> string \<Rightarrow> nat list \<Rightarrow> (string \<times> nat list) option" where
  "proc_lines [] i buf active = Some (buf, active)"
| "proc_lines (cp # cps) i buf active =
     (case proc_line cp of None \<Rightarrow> None
      | Some line \<Rightarrow>
          if SZ_PROCTABLE * 80 \<le> length (buf @ line) then None
          else proc_lines cps (Suc i) (buf @ line) (if cp_active cp \<noteq> 0 then active @ [i] else active))"

definition procUpdateProcessTable :: "supTab \<Rightarrow> supTab option" where
  "procUpdateProcessTable st =
     (case proc_lines (take (st_numClients st) (st_procTable st)) 0 [] [] of
        None \<Rightarrow> None
      | Some (buf, active) \<Rightarrow>
          let st1 = sup_message st ''procTab'' buf
          in Some (if st_showActivity st1 then fold (\<lambda>i s. sup_message s ''procActive'' (show_int (int i))) active st1
                   else st1))"

definition update_if :: "bool \<Rightarrow> supTab \<Rightarrow> supTab option" where
  "update_if update st = (if update then procUpdateProcessTable st else Some st)"

subsection \<open>Operations on the table\<close>

text \<open>The pairing of a new PAN: when no pair names its host the last one stays in \<open>pp\<close>, and without
  pairs \<open>pp\<close> is not set.\<close>

definition find_pair :: "panPair list \<Rightarrow> string \<Rightarrow> panPair option" where
  "find_pair pairs host =
     (case first_index (\<lambda>pp. strcasecmp_eq host (pp_phost pp)) pairs of
        Some i \<Rightarrow> Some (pairs ! i)
      | None \<Rightarrow> if pairs = [] then None else Some (last pairs))"

text \<open>The loop over the connections from \<open>i\<close>, with \<open>cp\<close> the new client.\<close>

function pair_loop :: "supTab \<Rightarrow> panPair option \<Rightarrow> nat \<Rightarrow> nat \<Rightarrow> supTab option" where
  "pair_loop st pp cp i =
     (if i < st_numPanConns st then
        (let pc = st_connTable st ! i in
         if 0 < pc_inUse pc then pair_loop st pp cp (Suc i)
         else case (pp, pc_collector pc) of
             (Some p, Some k) \<Rightarrow>
               let pcp = st_procTable st ! k in
               if strcasecmp_eq (cp_host pcp) (pp_chost p) \<and> pp_socket p = cp_port pcp
               then Some (st\<lparr>st_connTable := (st_connTable st)[i := pc\<lparr>pc_pan := Some cp\<rparr>]\<rparr>)
               else pair_loop st pp cp (Suc i)
           | _ \<Rightarrow> None)
      else Some st)"
  by pat_completeness auto
termination by (relation "measure (\<lambda>(st, pp, cp, i). st_numPanConns st - i)") auto

declare pair_loop.simps [simp del]

definition new_client :: "string \<Rightarrow> int option \<Rightarrow> string \<Rightarrow> string \<Rightarrow> int \<Rightarrow> int \<Rightarrow> int \<Rightarrow> string \<Rightarrow> clientProc" where
  "new_client now chan name host port tid pid status =
     zero_proc\<lparr>cp_name := name, cp_host := host, cp_port := port, cp_tid := tid, cp_pid := pid,
       cp_datain := (case chan of None \<Rightarrow> 0 | Some fd \<Rightarrow> fd), cp_date := now, cp_status := status, cp_connected := 0\<rparr>"

definition procAddClient ::
  "string \<Rightarrow> supTab \<Rightarrow> int option \<Rightarrow> string \<Rightarrow> string \<Rightarrow> int \<Rightarrow> int \<Rightarrow> int \<Rightarrow> string \<Rightarrow> bool \<Rightarrow> (int \<times> supTab) option" where
  "procAddClient now st chan name host port tid pid status update =
     (if name = ''CMD_Test'' then Some (OK, st)
      else if st_numClients st = SZ_PROCTABLE then Some (ERR, st)
      else case supNeuter host of None \<Rightarrow> None
      | Some (nhost, hcut) \<Rightarrow>
          if SZ_PNAME \<le> length name \<or> SZ_PHOST \<le> length nhost \<or> SZ_PDATE \<le> length now \<or> SZ_PSTAT \<le> length status then None
          else
            let cp = st_numClients st;
                st1 = (put_proc cp (\<lambda>_. new_client now chan name nhost port tid pid status) st)\<lparr>st_numClients := Suc cp\<rparr>
            in case (if strncasecmp_eq name ''collector'' 9 then
                       (if SZ_PROCTABLE \<le> st_numPanConns st1 then None
                        else Some (st1\<lparr>st_connTable := (st_connTable st1)[st_numPanConns st1 :=
                                 (st_connTable st1 ! st_numPanConns st1)\<lparr>pc_collector := Some cp, pc_inUse := 0\<rparr>],
                               st_numPanConns := Suc (st_numPanConns st1)\<rparr>))
                     else if strncasecmp_eq name ''pan'' 3 then
                       (case supNeuter hcut of None \<Rightarrow> None
                        | Some (nh, _) \<Rightarrow> pair_loop st1 (find_pair (st_pairTable st1) nh) cp 0)
                     else Some st1) of
                 None \<Rightarrow> None
               | Some st2 \<Rightarrow> map_option (Pair OK) (update_if update st2))"

text \<open>The table behind a deleted client moves down by one.\<close>

function shift_table :: "nat \<Rightarrow> nat \<Rightarrow> 'a list \<Rightarrow> 'a list" where
  "shift_table i n tab = (if Suc i < n then shift_table (Suc i) n (tab[i := tab ! Suc i]) else tab)"
  by pat_completeness auto
termination by (relation "measure (\<lambda>(i, n, tab). n - i)") auto

declare shift_table.simps [simp del]

definition procDelClient :: "supTab \<Rightarrow> nat \<Rightarrow> bool \<Rightarrow> (int \<times> supTab) option" where
  "procDelClient st clid update =
     (if SZ_PROCTABLE \<le> clid then None
      else if cp_connected (st_procTable st ! clid) \<noteq> 0 then Some (ERR, st)
      else
        let n = st_numClients st; tab = shift_table clid n (st_procTable st) in
        if SZ_PROCTABLE \<le> n then None
        else map_option (Pair OK) (update_if update (st\<lparr>st_procTable := tab[n := zero_proc], st_numClients := n - 1\<rparr>)))"

definition procFindClient :: "supTab \<Rightarrow> int \<Rightarrow> int \<Rightarrow> int" where
  "procFindClient st port tid =
     (case first_index (\<lambda>cp. cp_port cp = port \<and> cp_tid cp = tid \<or> cp_port cp = port \<and> tid \<le> 0 \<or> port \<le> 0 \<and> cp_tid cp = tid)
             (take (st_numClients st) (st_procTable st)) of
        Some i \<Rightarrow> int i | None \<Rightarrow> -1)"

definition procFindBySocket :: "supTab \<Rightarrow> int \<Rightarrow> int" where
  "procFindBySocket st socket_fd =
     (case first_index (\<lambda>cp. cp_datain cp = socket_fd) (take (st_numClients st) (st_procTable st)) of
        Some i \<Rightarrow> int i | None \<Rightarrow> -1)"

definition procDisconnect :: "string \<Rightarrow> supTab \<Rightarrow> int \<Rightarrow> supTab option" where
  "procDisconnect now st clid =
     (if clid < 0 then Some st
      else if int SZ_PROCTABLE \<le> clid \<or> SZ_PDATE \<le> length now then None
      else procUpdateProcessTable (put_proc (nat clid)
             (\<lambda>cp. cp\<lparr>cp_port := -1, cp_tid := -1, cp_connected := 0, cp_date := now, cp_status := ''Disconnected''\<rparr>) st))"

lemma procDelClient_count: "procDelClient st i False = Some (r, st') \<Longrightarrow> cp_connected (st_procTable st ! i) = 0 \<Longrightarrow>
    st_numClients st' = st_numClients st - 1"
  by (auto simp: procDelClient_def update_if_def Let_def split: if_splits)

function clean_loop :: "nat \<Rightarrow> supTab \<Rightarrow> supTab option" where
  "clean_loop i st =
     (if i < st_numClients st then
        (let cp = st_procTable st ! i in
         if \<not> strcasecmp_eq (cp_name cp) ''Supervisor'' \<and> cp_connected cp = 0 \<and> 1 < st_numClients st then
           (case procDelClient st i False of None \<Rightarrow> None | Some (r, st') \<Rightarrow> clean_loop i st')
         else clean_loop (Suc i) st)
      else Some st)"
  by pat_completeness auto
termination by (relation "measure (\<lambda>(i, st). st_numClients st - i)") (auto dest: procDelClient_count)

declare clean_loop.simps [simp del]

definition procCleanTable :: "supTab \<Rightarrow> supTab option" where
  "procCleanTable st = (case clean_loop 0 st of None \<Rightarrow> None | Some st' \<Rightarrow> procUpdateProcessTable st')"

definition procUpdateStatus :: "string \<Rightarrow> supTab \<Rightarrow> int \<Rightarrow> string \<Rightarrow> bool \<Rightarrow> (int \<times> supTab) option" where
  "procUpdateStatus now st clid status update =
     (if clid < 0 then Some (ERR, st)
      else case
        (if strncmp_eq status ''trans'' 5 then map_option (sup_message st ''transTab'') (str_from 6 status)
         else if strncmp_eq status ''file'' 4 then map_option (sup_message st ''filesTab'') (str_from 5 status)
         else if strncmp_eq status ''dca'' 3 then map_option (sup_message st ''dcaTransStat'') (str_from 3 status)
         else if int SZ_PROCTABLE \<le> clid then None
         else if strncmp_eq status ''active'' 6 then Some (put_proc (nat clid) (\<lambda>cp. cp\<lparr>cp_active := 1\<rparr>) st)
         else if strncmp_eq status ''inactive'' 8 then Some (put_proc (nat clid) (\<lambda>cp. cp\<lparr>cp_active := 0\<rparr>) st)
         else case (if strncmp_eq status ''proc'' 4 then str_from 5 status else Some status) of
             None \<Rightarrow> None
           | Some s \<Rightarrow> if SZ_PSTAT \<le> length s \<or> SZ_PDATE \<le> length now then None
                       else Some (put_proc (nat clid) (\<lambda>cp. cp\<lparr>cp_date := now, cp_status := s\<rparr>) st)) of
          None \<Rightarrow> None
        | Some st1 \<Rightarrow> map_option (Pair OK) (update_if update st1))"

text \<open>The conversion \<open>%.2f\<close>: to the nearest hundredth, a tie to the even one.\<close>

definition round_even :: "cdouble \<Rightarrow> int" where
  "round_even x = (let f = \<lfloor>x\<rfloor>; d = x - of_int f in if 1 / 2 < d \<or> d = 1 / 2 \<and> odd f then f + 1 else f)"

definition show_fixed2 :: "cdouble \<Rightarrow> string" where
  "show_fixed2 x =
     (let n = nat (round_even (\<bar>x\<bar> * 100))
      in (if x < 0 then ''-'' else []) @ show_nat (n div 100) @ ''.'' @ [digit_char (n div 10 mod 10), digit_char (n mod 10)])"

text \<open>The counter of a connection is an \<open>int\<close> in this program (\<open>XLONG\<close> of \<^verbatim>\<open>super.h\<close>).\<close>

definition trans_line :: "supTab \<Rightarrow> panConn \<Rightarrow> string option" where
  "trans_line st pc =
     (case (pc_pan pc, pc_collector pc) of
        (Some p, Some k) \<Rightarrow>
          let pan = st_procTable st ! p; col = st_procTable st ! k;
              line = '' {'' @ pad_left 10 (cp_host pan) @ '':'' @ pad_right 6 (show_int (cp_pid pan)) @ ''->''
                @ pad_left 10 (cp_host col) @ '':'' @ pad_right 6 (show_int (cp_pid col)) @ '' ''
                @ show_fixed2 (of_int (sint (pc_bytesTransferred pc)) / (1024 * 1024)) @ '' / '' @ show_fixed2 (pc_bytesTotal pc)
                @ (if st_verbose st then '' '' @ pc_timestamp pc @ '' '' @ pc_obsSetID pc else []) @ ''} ''
          in if 160 \<le> length line then None else Some line
      | _ \<Rightarrow> Some [])"

primrec trans_lines :: "supTab \<Rightarrow> panConn list \<Rightarrow> string \<Rightarrow> string option" where
  "trans_lines st [] buf = Some buf"
| "trans_lines st (pc # pcs) buf =
     (case trans_line st pc of None \<Rightarrow> None
      | Some line \<Rightarrow> if SZ_PROCTABLE * 80 \<le> length (buf @ line) then None else trans_lines st pcs (buf @ line))"

definition procUpdateTransferTable :: "supTab \<Rightarrow> supTab option" where
  "procUpdateTransferTable st =
     map_option (sup_message st ''transTab'') (trans_lines st (take (st_numPanConns st) (st_connTable st)) [])"

text \<open>\<open>sscanf (msg, "port %d %s", \<dots>)\<close>: a conversion that does not match leaves the rest unset.\<close>

definition scan_port :: "string \<Rightarrow> clientProc \<Rightarrow> clientProc option" where
  "scan_port msg cp =
     (let s = dropWhile c_isspace (drop 4 msg);
          sgn = (if s \<noteq> [] \<and> (hd s = CHR ''-'' \<or> hd s = CHR ''+'') then take 1 s else []);
          ds = takeWhile c_isdigit (drop (length sgn) s);
          t = takeWhile (\<lambda>c. \<not> c_isspace c) (dropWhile c_isspace (drop (length sgn + length ds) s))
      in if ds = [] then Some cp
         else if t = [] then Some (cp\<lparr>cp_port := atoi (sgn @ ds)\<rparr>)
         else if SZ_PNAME \<le> length t then None
         else Some (cp\<lparr>cp_port := atoi (sgn @ ds), cp_colID := t\<rparr>))"

definition count_transfer :: "string \<Rightarrow> nat \<Rightarrow> int \<Rightarrow> panConn \<Rightarrow> panConn" where
  "count_transfer now cp ival pc =
     (if pc_collector pc = Some cp
      then pc\<lparr>pc_bytesTransferred := pc_bytesTransferred pc + word_of_int ival,
              pc_bytesTotal := pc_bytesTotal pc + of_int ival / (1024 * 1024 * 1024), pc_timestamp := now\<rparr>
      else pc)"

text \<open>The message for the display about each connection of a collector, through its PAN.\<close>

primrec connect_msgs :: "nat \<Rightarrow> int \<Rightarrow> panConn list \<Rightarrow> supTab \<Rightarrow> supTab option" where
  "connect_msgs cp ival [] st = Some st"
| "connect_msgs cp ival (pc # pcs) st =
     (if pc_collector pc = Some cp then
        (case pc_pan pc of None \<Rightarrow> None
         | Some p \<Rightarrow> connect_msgs cp ival pcs (sup_message st ''conStat'' (cp_host (st_procTable st ! p) @ '' '' @ show_int ival)))
      else connect_msgs cp ival pcs st)"

definition procSetValue :: "string \<Rightarrow> supTab \<Rightarrow> int \<Rightarrow> string \<Rightarrow> bool \<Rightarrow> (int \<times> supTab) option" where
  "procSetValue now st clid msg update =
     (if clid < 0 then Some (ERR, st)
      else if int SZ_PROCTABLE \<le> clid then None
      else
        let cp = nat clid in
        map_option (Pair OK)
          (if strncmp_eq msg ''port'' 4 then
             map_option (\<lambda>c. put_proc cp (\<lambda>_. c) st) (scan_port msg (st_procTable st ! cp))
           else if strncmp_eq msg ''transfer'' 8 then
             (case str_from 9 msg of None \<Rightarrow> None
              | Some s \<Rightarrow>
                  if SZ_PDATE \<le> length now then None
                  else
                    let n = st_numPanConns st;
                        st1 = st\<lparr>st_connTable := map (count_transfer now cp (atoi s)) (take n (st_connTable st)) @ drop n (st_connTable st)\<rparr>
                    in if update then procUpdateTransferTable st1 else Some st1)
           else if strncmp_eq msg ''connected'' 9 then
             (case str_from 10 msg of None \<Rightarrow> None
              | Some s \<Rightarrow>
                  let st1 = put_proc cp (\<lambda>c. c\<lparr>cp_connected := atoi s\<rparr>) st in
                  case connect_msgs cp (atoi s) (take (st_numPanConns st1) (st_connTable st1)) st1 of
                    None \<Rightarrow> None
                  | Some st2 \<Rightarrow> update_if update st2)
           else Some st))"

subsection \<open>Client identifiers\<close>

text \<open>
  \<open>procBreakoutClientID\<close> writes into two buffers of the caller, here lists of all their characters.
  Only \<open>strcpy\<close> and the skipped domain write a terminating NUL.
\<close>

definition over_write :: "string \<Rightarrow> string \<Rightarrow> string option" where
  "over_write s buf = (if length s \<le> length buf then Some (s @ drop (length s) buf) else None)"

definition c_string :: "string \<Rightarrow> string" where
  "c_string buf = takeWhile (\<lambda>c. c \<noteq> NUL) buf"

definition breakout_host :: "string \<Rightarrow> string \<times> string \<times> string" where
  "breakout_host ip =
     (let h = takeWhile (\<lambda>c. c \<noteq> CHR '':'' \<and> c \<noteq> CHR ''.'') ip; rest = drop (length h) ip
      in if rest \<noteq> [] \<and> hd rest = CHR ''.'' then (h, h @ [NUL], dropWhile (\<lambda>c. c \<noteq> CHR '':'') rest)
         else (h, h, rest))"

definition procBreakoutClientID :: "string option \<Rightarrow> string \<Rightarrow> string \<Rightarrow> (string \<times> string \<times> int) option" where
  "procBreakoutClientID cid name host =
     (case cid of
        None \<Rightarrow> (case (over_write (''unknown'' @ [NUL]) name, over_write (''unknown'' @ [NUL]) host) of
                  (Some n, Some h) \<Rightarrow> Some (n, h, 0) | _ \<Rightarrow> None)
      | Some s \<Rightarrow>
          let nm = takeWhile (\<lambda>c. c \<noteq> CHR ''@'') s; rest = drop (length nm) s in
          case over_write (if nm = [] then ''unknown'' @ [NUL] else nm) name of
            None \<Rightarrow> None
          | Some name1 \<Rightarrow>
              if rest = [] then None
              else case breakout_host (tl rest) of (h, written, rest2) \<Rightarrow>
                case (over_write written host, if h = [] then over_write (''unknown'' @ [NUL]) name1 else Some name1) of
                  (Some host1, Some name2) \<Rightarrow> if rest2 = [] then None else Some (name2, host1, atoi (tl rest2))
                | _ \<Rightarrow> None)"

subsection \<open>Messages of a PAN about an exposure\<close>

definition isTriggerHost :: "string \<Rightarrow> supTab \<Rightarrow> nat \<Rightarrow> bool" where
  "isTriggerHost hostname st clid =
     (let host = takeWhile (\<lambda>c. c \<noteq> CHR ''.'') hostname; cp = st_procTable st ! clid
      in strcasecmp_eq (st_triggerHost st) ''localhost'' \<and> strcasecmp_eq host (cp_host cp)
         \<or> strcasecmp_eq (st_triggerHost st) (cp_host cp))"

text \<open>The transfer count of the PAN's connection.\<close>

definition reset_transfer :: "nat \<Rightarrow> supTab \<Rightarrow> supTab" where
  "reset_transfer cp st =
     (case first_index (\<lambda>pc. pc_pan pc = Some cp) (take (st_numPanConns st) (st_connTable st)) of
        None \<Rightarrow> st
      | Some i \<Rightarrow> st\<lparr>st_connTable := (st_connTable st)[i := (st_connTable st ! i)\<lparr>pc_bytesTransferred := 0\<rparr>]\<rparr>)"

definition pan_open_exp :: "string \<Rightarrow> string \<Rightarrow> supTab \<times> supState \<Rightarrow> int \<Rightarrow> cdouble \<Rightarrow> (supTab \<times> supState) option" where
  "pan_open_exp now hostname s socket expnum =
     (case s of (st, sv) \<Rightarrow>
        let clid = procFindBySocket st socket in
        if clid < 0 then Some (st, sv)
        else let cp = nat clid in
          case procUpdateStatus now st clid ''active'' True of
            None \<Rightarrow> None
          | Some (_, st1) \<Rightarrow>
              let st2 = sup_message st1 ''expStat'' (cp_host (st_procTable st1 ! cp) @ '' 1'');
                  st3 = reset_transfer cp st2
              in case sup_open_exp now (isTriggerHost hostname st3 cp) sv expnum of
                   None \<Rightarrow> None
                 | Some sv1 \<Rightarrow> Some (sup_message st3 ''rtdStat'' (if st_stat_enable st3 then ''clear'' else ''sclear''), sv1))"

definition pan_close_exp :: "string \<Rightarrow> string \<Rightarrow> supTab \<times> supState \<Rightarrow> int \<Rightarrow> cdouble \<Rightarrow> (supTab \<times> supState) option" where
  "pan_close_exp now hostname s socket expnum =
     (case s of (st, sv) \<Rightarrow>
        let clid = procFindBySocket st socket in
        if clid < 0 then Some (st, sv)
        else let cp = nat clid in
          case procUpdateStatus now st clid ''inactive'' True of
            None \<Rightarrow> None
          | Some (_, st1) \<Rightarrow>
              case sup_close_exp (isTriggerHost hostname st1 cp) sv expnum of
                None \<Rightarrow> None
              | Some sv1 \<Rightarrow> Some (sup_message st1 ''expStat'' (cp_host (st_procTable st1 ! cp) @ '' 0''), sv1))"

subsection \<open>The clients in the table\<close>

definition proc_ok :: "clientProc \<Rightarrow> bool" where
  "proc_ok cp \<longleftrightarrow> length (cp_name cp) < SZ_PNAME \<and> length (cp_host cp) < SZ_PHOST \<and> length (cp_colID cp) < SZ_PNAME
     \<and> length (cp_date cp) < SZ_PDATE \<and> length (cp_status cp) < SZ_PSTAT"

definition ptr_ok :: "nat option \<Rightarrow> bool" where
  "ptr_ok p \<longleftrightarrow> (case p of None \<Rightarrow> True | Some k \<Rightarrow> k < SZ_PROCTABLE)"

text \<open>The tables have their sizes, the strings fit their fields and a connection in use has its
  collector.\<close>

definition tab_ok :: "supTab \<Rightarrow> bool" where
  "tab_ok st \<longleftrightarrow> length (st_procTable st) = SZ_PROCTABLE \<and> st_numClients st \<le> SZ_PROCTABLE
     \<and> (\<forall>cp \<in> set (st_procTable st). proc_ok cp)
     \<and> length (st_connTable st) = SZ_PROCTABLE \<and> st_numPanConns st \<le> SZ_PROCTABLE
     \<and> (\<forall>i < st_numPanConns st. pc_collector (st_connTable st ! i) \<noteq> None)
     \<and> (\<forall>pc \<in> set (st_connTable st). ptr_ok (pc_pan pc) \<and> ptr_ok (pc_collector pc))"

definition st_clients :: "supTab \<Rightarrow> clientProc list" where
  "st_clients st = take (st_numClients st) (st_procTable st)"

lemma sup_message_simps [simp]:
  "st_procTable (sup_message st a m) = st_procTable st" "st_numClients (sup_message st a m) = st_numClients st"
  "st_connTable (sup_message st a m) = st_connTable st" "st_numPanConns (sup_message st a m) = st_numPanConns st"
  "st_pairTable (sup_message st a m) = st_pairTable st" "st_showActivity (sup_message st a m) = st_showActivity st"
  "tab_ok (sup_message st a m) = tab_ok st" "st_clients (sup_message st a m) = st_clients st"
  by (simp_all add: sup_message_def tab_ok_def st_clients_def)

text \<open>The display changes nothing but the list of messages.\<close>

definition same_tables :: "supTab \<Rightarrow> supTab \<Rightarrow> bool" where
  "same_tables st st' \<longleftrightarrow> (\<exists>m. st' = st\<lparr>st_gui := m\<rparr>)"

lemma same_tables_refl [simp]: "same_tables st st"
  unfolding same_tables_def by (rule exI [of _ "st_gui st"]) simp

lemma same_tables_message [simp]: "same_tables st (sup_message st' a m) = same_tables st st'"
proof
  assume "same_tables st (sup_message st' a m)"
  then obtain g where g: "st'\<lparr>st_gui := st_gui st' @ [(a, m)]\<rparr> = st\<lparr>st_gui := g\<rparr>" by (auto simp: same_tables_def sup_message_def)
  have "st' = (st'\<lparr>st_gui := st_gui st' @ [(a, m)]\<rparr>)\<lparr>st_gui := st_gui st'\<rparr>" by simp
  also have "\<dots> = st\<lparr>st_gui := st_gui st'\<rparr>" unfolding g by simp
  finally show "same_tables st st'" unfolding same_tables_def by blast
qed (auto simp: same_tables_def sup_message_def)

lemma same_tables_fold: "same_tables st (fold (\<lambda>i s. sup_message s a (f i)) xs st') = same_tables st st'"
  by (induction xs arbitrary: st') simp_all

lemma same_tablesD:
  assumes "same_tables st st'"
  shows "st_procTable st' = st_procTable st" "st_numClients st' = st_numClients st" "st_connTable st' = st_connTable st"
    "st_numPanConns st' = st_numPanConns st" "st_pairTable st' = st_pairTable st" "tab_ok st' = tab_ok st" "st_clients st' = st_clients st"
    "st_triggerHost st' = st_triggerHost st" "st_stat_enable st' = st_stat_enable st"
  using assms by (auto simp: same_tables_def tab_ok_def st_clients_def)

lemma procUpdateProcessTable_same: "procUpdateProcessTable st = Some st' \<Longrightarrow> same_tables st st'"
  by (auto simp: procUpdateProcessTable_def Let_def same_tables_fold split: option.splits)

lemma update_if_same: "update_if u st = Some st' \<Longrightarrow> same_tables st st'"
  by (auto simp: update_if_def procUpdateProcessTable_same split: if_splits)

text \<open>The display fits its buffers for a hundred clients.\<close>

definition disp_ok :: "clientProc \<Rightarrow> bool" where
  "disp_ok cp \<longleftrightarrow> cp_tid cp < 10 ^ 9 \<and> cp_port cp < 10 ^ 9 \<and> - (10 ^ 10) < cp_pid cp \<and> cp_pid cp < 10 ^ 10"

lemma show_int_length:
  assumes "- (10 ^ Suc k) < i" "i < 10 ^ Suc k"
  shows "length (show_int i) \<le> (if i < 0 then Suc (Suc k) else Suc k)"
proof -
  have "nat \<bar>i\<bar> < 10 ^ Suc k"
  proof -
    have "\<bar>i\<bar> < 10 ^ Suc k" using assms by linarith
    then have "nat \<bar>i\<bar> < nat (10 ^ Suc k)" by simp
    then show ?thesis by (simp add: nat_power_eq nat_mult_distrib)
  qed
  then show ?thesis using show_nat_length [of "nat \<bar>i\<bar>" k] by (auto simp: show_int_def)
qed

lemma show_id_length: "i < 10 ^ 9 \<Longrightarrow> n \<le> 9 \<Longrightarrow> length (show_id n i) \<le> 9"
proof -
  assume i: "i < 10 ^ 9" and n: "n \<le> 9"
  show ?thesis
  proof (cases "0 < i \<and> i \<noteq> 999")
    case True
    have "length (show_int i) \<le> 9" using show_int_length [of 8 i] True i by simp
    then show ?thesis using True n by (simp add: show_id_def pad_right_def)
  next
    case False
    then show ?thesis by (auto simp: show_id_def)
  qed
qed

lemma pad_length: "length (pad_right n s) = max n (length s)" "length (pad_left n s) = max n (length s)"
  by (auto simp: pad_right_def pad_left_def)

lemma proc_line_fits:
  assumes "proc_ok cp" "disp_ok cp"
  shows "\<exists>line. proc_line cp = Some line \<and> length line \<le> 102"
proof -
  have p: "length (show_int (cp_pid cp)) \<le> 11" using show_int_length [of 9 "cp_pid cp"] assms(2) by (auto simp: disp_ok_def split: if_splits)
  have t: "length (show_id 6 (cp_tid cp)) \<le> 9" "length (show_id 4 (cp_port cp)) \<le> 9"
    using assms(2) by (auto simp: disp_ok_def intro!: show_id_length)
  have s: "length (cp_date cp) \<le> 8" "length (cp_status cp) \<le> 31" using assms(1) by (auto simp: proc_ok_def SZ_PDATE_def SZ_PSTAT_def)
  show ?thesis using p t s by (auto simp: proc_line_def Let_def pad_length)
qed

lemma proc_lines_fits:
  assumes "\<forall>cp \<in> set cps. proc_ok cp \<and> disp_ok cp" "length buf + 102 * length cps < SZ_PROCTABLE * 80"
  shows "\<exists>r. proc_lines cps i buf active = Some r"
  using assms
proof (induction cps arbitrary: i buf active)
  case (Cons cp cps)
  obtain line where l: "proc_line cp = Some line" "length line \<le> 102" using proc_line_fits [of cp] Cons.prems(1) by auto
  then show ?case using Cons.IH [of "buf @ line" "Suc i"] Cons.prems by simp
qed simp

lemma procUpdateProcessTable_fits:
  assumes "tab_ok st" "st_numClients st \<le> 100" "\<forall>cp \<in> set (st_clients st). disp_ok cp"
  shows "\<exists>st'. procUpdateProcessTable st = Some st' \<and> same_tables st st'"
proof -
  have "\<forall>cp \<in> set (st_clients st). proc_ok cp \<and> disp_ok cp"
    using assms(1,3) by (auto simp: tab_ok_def st_clients_def dest: in_set_takeD)
  moreover have "length (st_clients st) \<le> 100" using assms(2) by (simp add: st_clients_def)
  ultimately obtain r where "proc_lines (st_clients st) 0 [] [] = Some r"
    using proc_lines_fits [of "st_clients st" "[]" 0 "[]"] by (auto simp: SZ_PROCTABLE_def)
  then have "\<exists>st'. procUpdateProcessTable st = Some st'" by (cases r) (simp add: procUpdateProcessTable_def st_clients_def Let_def)
  then show ?thesis using procUpdateProcessTable_same by blast
qed

subsection \<open>Deleting and cleaning\<close>

lemma shift_table_length [simp]: "length (shift_table i n tab) = length tab"
  by (induction i n tab rule: shift_table.induct) (subst shift_table.simps, simp)

lemma shift_table_nth:
  assumes "n \<le> length tab" "k < length tab"
  shows "shift_table i n tab ! k = (if i \<le> k \<and> Suc k < n then tab ! Suc k else tab ! k)"
  using assms
proof (induction i n tab rule: shift_table.induct)
  case (1 i n tab)
  show ?case
  proof (cases "Suc i < n")
    case True
    then show ?thesis using 1 by (subst shift_table.simps) (auto simp: nth_list_update)
  next
    case False
    then show ?thesis by (subst shift_table.simps) auto
  qed
qed

lemma take_shift_table:
  assumes "i < n" "n \<le> length tab"
  shows "take (n - 1) (shift_table i n tab) = take i (take n tab) @ drop (Suc i) (take n tab)"
proof (rule nth_equalityI)
  fix k assume "k < length (take (n - 1) (shift_table i n tab))"
  then have k: "k < n - 1" by simp
  have l: "length (take i (take n tab)) = i" using assms by simp
  show "take (n - 1) (shift_table i n tab) ! k = (take i (take n tab) @ drop (Suc i) (take n tab)) ! k"
    using k assms shift_table_nth [of n tab k i] unfolding nth_append l by auto
qed (use assms in auto)

lemma tab_ok_delete:
  assumes "tab_ok st" "i < st_numClients st" "st_numClients st < SZ_PROCTABLE" 
  defines "st' \<equiv> st\<lparr>st_procTable := (shift_table i (st_numClients st) (st_procTable st))[st_numClients st := zero_proc], st_numClients := st_numClients st - 1\<rparr>"
  shows "tab_ok st'" "st_clients st' = take i (st_clients st) @ drop (Suc i) (st_clients st)"
proof -
  have l: "length (st_procTable st) = SZ_PROCTABLE" using assms(1) by (simp add: tab_ok_def)
  have "set (shift_table i (st_numClients st) (st_procTable st)) \<subseteq> set (st_procTable st)"
  proof
    fix x assume "x \<in> set (shift_table i (st_numClients st) (st_procTable st))"
    then obtain k where "k < length (st_procTable st)" "x = shift_table i (st_numClients st) (st_procTable st) ! k"
      by (auto simp: in_set_conv_nth)
    then show "x \<in> set (st_procTable st)" using l assms(3) by (simp add: shift_table_nth)
  qed
  moreover have "proc_ok zero_proc" by (simp add: proc_ok_def zero_proc_def SZ_PNAME_def SZ_PHOST_def SZ_PDATE_def SZ_PSTAT_def)
  ultimately have "\<forall>cp \<in> set (st_procTable st'). proc_ok cp"
    using assms(1) by (auto simp: st'_def tab_ok_def dest!: set_update_subset_insert [THEN subsetD])
  then show "tab_ok st'" using assms(1,3) by (auto simp: tab_ok_def st'_def)
  show "st_clients st' = take i (st_clients st) @ drop (Suc i) (st_clients st)"
    using take_shift_table [OF assms(2), of "st_procTable st"] assms(3) l by (simp add: st_clients_def st'_def)
qed

lemma procDelClient_removes:
  assumes "tab_ok st" "i < st_numClients st" "st_numClients st < SZ_PROCTABLE" "cp_connected (st_procTable st ! i) = 0"
  shows "\<exists>st'. procDelClient st i False = Some (OK, st') \<and> tab_ok st' \<and> st_clients st' = take i (st_clients st) @ drop (Suc i) (st_clients st)
    \<and> st_numClients st' = st_numClients st - 1 \<and> st_connTable st' = st_connTable st \<and> st_numPanConns st' = st_numPanConns st
    \<and> (\<forall>k. i \<le> k \<longrightarrow> Suc k < st_numClients st \<longrightarrow> st_procTable st' ! k = st_procTable st ! Suc k)"
proof -
  let ?st = "st\<lparr>st_procTable := (shift_table i (st_numClients st) (st_procTable st))[st_numClients st := zero_proc], st_numClients := st_numClients st - 1\<rparr>"
  have "procDelClient st i False = Some (OK, ?st)" using assms(2-4) by (simp add: procDelClient_def update_if_def Let_def)
  moreover have "st_procTable ?st ! k = st_procTable st ! Suc k" if "i \<le> k" "Suc k < st_numClients st" for k
    using that shift_table_nth [of "st_numClients st" "st_procTable st" k i] assms(1,3) by (simp add: tab_ok_def)
  ultimately show ?thesis using tab_ok_delete [OF assms(1-3)] by fastforce
qed

text \<open>What stays in the table.\<close>

definition stays :: "clientProc \<Rightarrow> bool" where
  "stays cp \<longleftrightarrow> strcasecmp_eq (cp_name cp) ''Supervisor'' \<or> cp_connected cp \<noteq> 0"

lemma clean_step:
  assumes "cs = take i cs @ x # drop (Suc i) cs" "\<not> stays x" "\<forall>c \<in> set (take i cs). stays c" "1 < length cs"
  defines "ds \<equiv> take i cs @ drop (Suc i) cs"
  shows "(if \<exists>c \<in> set ds. stays c then filter stays ds else if ds = [] then [] else [last ds])
    = (if \<exists>c \<in> set cs. stays c then filter stays cs else if cs = [] then [] else [last cs])"
proof -
  have ex: "(\<exists>c \<in> set ds. stays c) = (\<exists>c \<in> set cs. stays c)"
    using assms(2) arg_cong [OF assms(1), of set] by (auto simp: ds_def)
  have fl: "filter stays ds = filter stays cs" using assms(2) arg_cong [OF assms(1), of "filter stays"] by (simp add: ds_def)
  have "[last ds] = [last cs] \<and> ds \<noteq> [] \<and> cs \<noteq> []" if "\<not> (\<exists>c \<in> set cs. stays c)"
  proof -
    have t: "take i cs = []" using assms(3) that by (metis in_set_takeD list.set_intros(1) neq_Nil_conv)
    have cs: "cs = x # drop (Suc i) cs" using assms(1) t by simp
    moreover have ds: "ds = drop (Suc i) cs" by (simp add: ds_def t)
    ultimately have "cs = x # ds" by simp
    then show ?thesis using assms(4) by (cases ds) auto
  qed
  then show ?thesis using ex fl by auto
qed

lemma clean_loop_filter:
  assumes "tab_ok st" "st_numClients st < SZ_PROCTABLE" "i \<le> st_numClients st" "\<forall>cp \<in> set (take i (st_clients st)). stays cp"
  shows "\<exists>st'. clean_loop i st = Some st' \<and> tab_ok st' \<and> st_numClients st' \<le> st_numClients st \<and> st_connTable st' = st_connTable st \<and> st_numPanConns st' = st_numPanConns st
    \<and> st_clients st' = (if \<exists>cp \<in> set (st_clients st). stays cp then filter stays (st_clients st)
        else if st_clients st = [] then [] else [last (st_clients st)])"
  using assms
proof (induction "st_numClients st - i" arbitrary: i st rule: less_induct)
  case less
  let ?cs = "st_clients st" and ?cp = "st_procTable st ! i"
  note p = less.prems
  have len: "length ?cs = st_numClients st" using p(1) by (simp add: st_clients_def tab_ok_def)
  show ?case
  proof (cases "i < st_numClients st")
    case False
    then have t: "take i ?cs = ?cs" using len by simp
    have "filter stays ?cs = ?cs" using p(4) unfolding t by (simp add: filter_id_conv)
    moreover have "clean_loop i st = Some st" using False by (subst clean_loop.simps) simp
    ultimately show ?thesis using p(1,4) t by (cases ?cs) auto
  next
    case True
    have cp: "?cp = ?cs ! i" using True by (simp add: st_clients_def)
    have sp: "?cs = take i ?cs @ ?cs ! i # drop (Suc i) ?cs" using True len by (simp add: id_take_nth_drop)
    consider "\<not> stays ?cp" "1 < st_numClients st" | "stays ?cp" | "\<not> stays ?cp" "i = 0" "st_numClients st = 1"
      using True by fastforce
    then show ?thesis
    proof cases
      case 1
      then have d: "cp_connected ?cp = 0" "\<not> strcasecmp_eq (cp_name ?cp) ''Supervisor''" by (simp_all add: stays_def)
      obtain st' where st': "procDelClient st i False = Some (OK, st')" "tab_ok st'" "st_clients st' = take i ?cs @ drop (Suc i) ?cs"
          "st_numClients st' = st_numClients st - 1" "st_connTable st' = st_connTable st" "st_numPanConns st' = st_numPanConns st"
        using procDelClient_removes [OF p(1) True p(2) d(1)] by blast
      have e: "clean_loop i st = clean_loop i st'" using True 1(2) d st'(1) by (subst clean_loop.simps) (simp add: Let_def)
      have m: "st_numClients st' - i < st_numClients st - i" "st_numClients st' < SZ_PROCTABLE" "i \<le> st_numClients st'"
          "\<forall>cp \<in> set (take i (st_clients st')). stays cp"
        using p(2,4) st'(3,4) True len by simp_all
      obtain st'' where st'': "clean_loop i st' = Some st''" "tab_ok st''" "st_numClients st'' \<le> st_numClients st'" "st_connTable st'' = st_connTable st'" "st_numPanConns st'' = st_numPanConns st'"
          "st_clients st'' = (if \<exists>cp \<in> set (st_clients st'). stays cp then filter stays (st_clients st')
            else if st_clients st' = [] then [] else [last (st_clients st')])"
        using less.hyps [OF m(1) st'(2) m(2-4)] by blast
      have "st_clients st'' = (if \<exists>cp \<in> set ?cs. stays cp then filter stays ?cs else if ?cs = [] then [] else [last ?cs])"
        unfolding st''(6) st'(3) by (rule clean_step) (use sp cp 1 p(4) len in simp_all)
      then show ?thesis using e st'' st'(4-6) by auto
    next
      case 2
      have e: "clean_loop i st = clean_loop (Suc i) st" using True 2 by (subst clean_loop.simps) (auto simp: Let_def stays_def)
      have "\<forall>c \<in> set (take (Suc i) ?cs). stays c" using p(4) 2 cp True len by (auto simp: take_Suc_conv_app_nth)
      moreover have "st_numClients st - Suc i < st_numClients st - i" "Suc i \<le> st_numClients st" using True by simp_all
      ultimately show ?thesis unfolding e using less.hyps [of st "Suc i"] p(1,2) by blast
    next
      case 3
      have "clean_loop i st = Some st" using 3 by (subst clean_loop.simps, simp add: Let_def stays_def, subst clean_loop.simps, simp)
      moreover have "?cs = [?cp]" using len 3 cp by (cases ?cs) auto
      ultimately show ?thesis using 3 p(1) by simp
    qed
  qed
qed

lemma procCleanTable_result:
  assumes "tab_ok st" "st_numClients st \<le> 100" "\<forall>cp \<in> set (st_clients st). disp_ok cp"
  shows "\<exists>st'. procCleanTable st = Some st' \<and> tab_ok st' \<and> st_connTable st' = st_connTable st \<and> st_numPanConns st' = st_numPanConns st
    \<and> st_clients st' = (if \<exists>cp \<in> set (st_clients st). stays cp then filter stays (st_clients st)
        else if st_clients st = [] then [] else [last (st_clients st)])"
proof -
  have n: "st_numClients st < SZ_PROCTABLE" using assms(2) by (simp add: SZ_PROCTABLE_def)
  obtain st1 where st1: "clean_loop 0 st = Some st1" "tab_ok st1" "st_numClients st1 \<le> st_numClients st" "st_connTable st1 = st_connTable st"
      "st_numPanConns st1 = st_numPanConns st"
      "st_clients st1 = (if \<exists>cp \<in> set (st_clients st). stays cp then filter stays (st_clients st)
        else if st_clients st = [] then [] else [last (st_clients st)])"
    using clean_loop_filter [OF assms(1) n, of 0] by auto
  have "set (st_clients st1) \<subseteq> set (st_clients st)" unfolding st1(6) by auto
  then obtain st2 where "procUpdateProcessTable st1 = Some st2" "same_tables st1 st2"
    using procUpdateProcessTable_fits [OF st1(2)] st1(3) assms(2,3) by fastforce
  then show ?thesis using st1 same_tablesD [of st1 st2] by (auto simp: procCleanTable_def same_tables_def)
qed

text \<open>C21.  \<open>procCleanTable\<close> returns and leaves in the table, in their order, exactly the clients that are
  connected or named Supervisor; if there is none, the last client.  The table of connections
  stays as it was.\<close>

theorem procCleanTable_filters:
  assumes "tab_ok st" "st_numClients st \<le> 100" "\<forall>cp \<in> set (st_clients st). disp_ok cp"
  shows "\<exists>st'. procCleanTable st = Some st' \<and> tab_ok st' \<and> st_connTable st' = st_connTable st
    \<and> st_clients st' = (if \<exists>cp \<in> set (st_clients st). stays cp then filter stays (st_clients st)
        else if st_clients st = [] then [] else [last (st_clients st)])"
  using procCleanTable_result [OF assms] by blast

text \<open>After the deletion of a client the connections still hold the old addresses: one whose
  collector is behind the deleted client refers to the client after that collector.\<close>

theorem procDelClient_stale_connection:
  assumes "tab_ok st" "st_numClients st < SZ_PROCTABLE" "i < st_numClients st" "cp_connected (st_procTable st ! i) = 0"
    and "pc_collector (st_connTable st ! j) = Some k" "i \<le> k" "Suc k < st_numClients st"
  shows "\<exists>st'. procDelClient st i False = Some (OK, st') \<and> st_clients st' = take i (st_clients st) @ drop (Suc i) (st_clients st)
    \<and> pc_collector (st_connTable st' ! j) = Some k \<and> st_procTable st' ! k = st_procTable st ! Suc k"
  using procDelClient_removes [OF assms(1,3,2,4)] assms(5-7) by auto

subsection \<open>The invariant\<close>

lemma proc_ok_zero: "proc_ok zero_proc"
  by (simp add: proc_ok_def zero_proc_def SZ_PNAME_def SZ_PHOST_def SZ_PDATE_def SZ_PSTAT_def)

lemma tab_ok_put:
  assumes "tab_ok st" "\<And>cp. proc_ok cp \<Longrightarrow> proc_ok (f cp)" "i < SZ_PROCTABLE"
  shows "tab_ok (put_proc i f st)"
proof -
  have "proc_ok (f (st_procTable st ! i))" using assms by (simp add: tab_ok_def)
  then show ?thesis using assms(1)
    by (auto simp: tab_ok_def put_proc_def dest!: set_update_subset_insert [THEN subsetD])
qed

lemma tab_ok_conn:
  assumes "tab_ok st" "i < SZ_PROCTABLE" "ptr_ok (pc_pan pc)" "ptr_ok (pc_collector pc)" "pc_collector pc \<noteq> None" "n \<le> SZ_PROCTABLE"
    and "\<And>j. j < n \<Longrightarrow> j \<noteq> i \<Longrightarrow> j < st_numPanConns st"
  shows "tab_ok (st\<lparr>st_connTable := (st_connTable st)[i := pc], st_numPanConns := n\<rparr>)"
  using assms by (auto simp: tab_ok_def nth_list_update dest!: set_update_subset_insert [THEN subsetD])

lemma pair_loop_ok:
  assumes "tab_ok st" "cp < SZ_PROCTABLE" "pair_loop st pp cp i = Some st'"
  shows "tab_ok st' \<and> st_procTable st' = st_procTable st \<and> st_numClients st' = st_numClients st"
  using assms
proof (induction st pp cp i rule: pair_loop.induct)
  case (1 st pp cp i)
  show ?case
  proof (cases "i < st_numPanConns st")
    case True
    let ?pc = "st_connTable st ! i"
    have i: "i < SZ_PROCTABLE" using True "1.prems"(1) by (simp add: tab_ok_def)
    have pc: "ptr_ok (pc_collector ?pc)" "pc_collector ?pc \<noteq> None" "st_numPanConns st \<le> SZ_PROCTABLE"
      using "1.prems"(1) True i by (simp_all add: tab_ok_def)
    have n: "tab_ok (st\<lparr>st_connTable := (st_connTable st)[i := ?pc\<lparr>pc_pan := Some cp\<rparr>]\<rparr>)"
      using tab_ok_conn [OF "1.prems"(1) i, of "?pc\<lparr>pc_pan := Some cp\<rparr>" "st_numPanConns st"] pc "1.prems"(2) True
      by (simp add: ptr_ok_def)
    show ?thesis using "1.prems" "1.IH" True n by (subst (asm) (1) pair_loop.simps) (auto simp: Let_def split: if_splits option.splits)
  next
    case False
    then show ?thesis using "1.prems" by (subst (asm) pair_loop.simps) simp
  qed
qed

lemma update_after:
  "(case x of None \<Rightarrow> None | Some st2 \<Rightarrow> map_option (Pair OK) (update_if u st2)) = Some (r, st') \<Longrightarrow>
    \<exists>st2. x = Some st2 \<and> same_tables st2 st'"
  using update_if_same by (auto split: option.splits)

lemma procAddClient_ok:
  assumes "tab_ok st" "procAddClient now st chan name host port tid pid status update = Some (r, st')"
  shows "tab_ok st'"
proof (cases "name = ''CMD_Test'' \<or> st_numClients st = SZ_PROCTABLE")
  case True
  then have "procAddClient now st chan name host port tid pid status update = Some (if name = ''CMD_Test'' then OK else ERR, st)"
    unfolding procAddClient_def by (cases "name = ''CMD_Test''") simp_all
  then show ?thesis using assms by simp
next
  case False
  let ?cp = "st_numClients st"
  have cp: "?cp < SZ_PROCTABLE" using assms(1) False by (auto simp: tab_ok_def)
  obtain nhost hcut where h: "supNeuter host = Some (nhost, hcut)" "length name < SZ_PNAME" "length nhost < SZ_PHOST" "length now < SZ_PDATE" "length status < SZ_PSTAT"
    using assms(2) False by (auto simp: procAddClient_def split: option.splits if_splits)
  define st1 where "st1 = (put_proc ?cp (\<lambda>_. new_client now chan name nhost port tid pid status) st)\<lparr>st_numClients := Suc ?cp\<rparr>"
  have "proc_ok (new_client now chan name nhost port tid pid status)"
    using h proc_ok_zero by (simp add: proc_ok_def new_client_def)
  then have "tab_ok (put_proc ?cp (\<lambda>_. new_client now chan name nhost port tid pid status) st)" by (intro tab_ok_put assms(1) cp)
  then have ok1: "tab_ok st1" using cp by (simp add: tab_ok_def st1_def)
  let ?X = "if strncasecmp_eq name ''collector'' 9 then
         (if SZ_PROCTABLE \<le> st_numPanConns st1 then None
          else Some (st1\<lparr>st_connTable := (st_connTable st1)[st_numPanConns st1 :=
                   (st_connTable st1 ! st_numPanConns st1)\<lparr>pc_collector := Some ?cp, pc_inUse := 0\<rparr>],
                 st_numPanConns := Suc (st_numPanConns st1)\<rparr>))
       else if strncasecmp_eq name ''pan'' 3 then
         (case supNeuter hcut of None \<Rightarrow> None | Some (nh, _) \<Rightarrow> pair_loop st1 (find_pair (st_pairTable st1) nh) ?cp 0)
       else Some st1"
  have "(case ?X of None \<Rightarrow> None | Some st2 \<Rightarrow> map_option (Pair OK) (update_if update st2)) = Some (r, st')"
    using assms(2) False h unfolding procAddClient_def Let_def st1_def by simp
  then obtain st2 where st2: "?X = Some st2" "same_tables st2 st'" using update_after by blast
  have "tab_ok (st1\<lparr>st_connTable := (st_connTable st1)[st_numPanConns st1 :=
                   (st_connTable st1 ! st_numPanConns st1)\<lparr>pc_collector := Some ?cp, pc_inUse := 0\<rparr>],
                 st_numPanConns := Suc (st_numPanConns st1)\<rparr>)" if "st_numPanConns st1 < SZ_PROCTABLE"
    using that ok1 cp by (intro tab_ok_conn) (auto simp: tab_ok_def ptr_ok_def)
  then have "tab_ok st2" using st2(1) ok1 pair_loop_ok [OF ok1 cp] by (auto split: if_splits option.splits)
  then show ?thesis using same_tablesD(6) [OF st2(2)] by simp
qed

subsection \<open>Collectors that come and go\<close>

lemma procAddClient_collector:
  assumes t: "tab_ok st" "st_numClients st < 100" "\<forall>cp \<in> set (st_clients st). disp_ok cp" "st_numPanConns st < SZ_PROCTABLE"
    and name: "strncasecmp_eq name ''collector'' 9" "name \<noteq> ''CMD_Test''" "length name < SZ_PNAME"
    and host: "supNeuter host = Some (nhost, hcut)" "length nhost < SZ_PHOST" "length now < SZ_PDATE" "length status < SZ_PSTAT"
    and new: "new = new_client now chan name nhost port tid pid status" "disp_ok new"
  shows "\<exists>st'. procAddClient now st chan name host port tid pid status True = Some (OK, st') \<and> tab_ok st' \<and> st_clients st' = st_clients st @ [new]
    \<and> st_numClients st' = Suc (st_numClients st) \<and> st_numPanConns st' = Suc (st_numPanConns st)
    \<and> pc_collector (st_connTable st' ! st_numPanConns st) = Some (st_numClients st)"
proof -
  let ?n = "st_numClients st" and ?k = "st_numPanConns st"
  have n: "?n < SZ_PROCTABLE" "length (st_procTable st) = SZ_PROCTABLE" "length (st_connTable st) = SZ_PROCTABLE" using t by (simp_all add: tab_ok_def SZ_PROCTABLE_def)
  define st1 where "st1 = (put_proc ?n (\<lambda>_. new) st)\<lparr>st_numClients := Suc ?n\<rparr>"
  define st2 where "st2 = st1\<lparr>st_connTable := (st_connTable st1)[?k := (st_connTable st1 ! ?k)\<lparr>pc_collector := Some ?n, pc_inUse := 0\<rparr>], st_numPanConns := Suc ?k\<rparr>"
  have add: "procAddClient now st chan name host port tid pid status True = map_option (Pair OK) (update_if True st2)"
    using t(4) n(1) name host new(1) unfolding procAddClient_def by (simp add: Let_def st2_def st1_def put_proc_def)
  have "procAddClient now st chan name host port tid pid status False = Some (OK, st2)"
    using t(4) n(1) name host new(1) unfolding procAddClient_def by (simp add: Let_def st2_def st1_def put_proc_def update_if_def)
  then have ok: "tab_ok st2" by (rule procAddClient_ok [OF t(1)])
  have cs: "st_clients st2 = st_clients st @ [new]"
    using n(1,2) by (simp add: st2_def st1_def st_clients_def put_proc_def take_Suc_conv_app_nth)
  have d: "\<forall>cp \<in> set (st_clients st2). disp_ok cp" "st_numClients st2 \<le> 100" using cs t(2,3) new(2) by (auto simp: st2_def st1_def)
  obtain st3 where "procUpdateProcessTable st2 = Some st3" "same_tables st2 st3" using procUpdateProcessTable_fits [OF ok d(2,1)] by blast
  then show ?thesis using add ok cs n t(4) same_tablesD [of st2 st3]
    by (auto simp: update_if_def same_tables_def st2_def st1_def put_proc_def st_clients_def)
qed

text \<open>A collector registers, goes, and the table is cleaned, \<open>n\<close> times.\<close>

primrec come_and_go :: "(supTab \<Rightarrow> (int \<times> supTab) option) \<Rightarrow> nat \<Rightarrow> supTab \<Rightarrow> supTab option" where
  "come_and_go add 0 st = Some st"
| "come_and_go add (Suc n) st =
     (case add st of None \<Rightarrow> None
      | Some (r, st1) \<Rightarrow> (case procCleanTable st1 of None \<Rightarrow> None | Some st2 \<Rightarrow> come_and_go add n st2))"

lemma collector_not_supervisor:
  assumes "strncasecmp_eq name ''collector'' 9"
  shows "\<not> strcasecmp_eq name ''Supervisor''" "name \<noteq> ''CMD_Test''"
proof -
  have t: "map c_tolower (take 9 name) = map c_tolower ''collector''" using assms by (simp add: strncasecmp_eq_def strcasecmp_eq_def)
  have "map c_tolower (take 9 ''Supervisor'') \<noteq> map c_tolower ''collector''" "map c_tolower (take 9 ''CMD_Test'') \<noteq> map c_tolower ''collector''" by code_simp+
  then show "\<not> strcasecmp_eq name ''Supervisor''" "name \<noteq> ''CMD_Test''" using t by (auto simp: strcasecmp_eq_def take_map [symmetric] simp del: take_map)
qed

lemma come_and_go_uses:
  assumes name: "strncasecmp_eq name ''collector'' 9" "length name < SZ_PNAME"
    and host: "supNeuter host = Some (nhost, hcut)" "length nhost < SZ_PHOST" "length now < SZ_PDATE" "length status < SZ_PSTAT"
    and new: "disp_ok (new_client now chan name nhost port tid pid status)"
    and st: "tab_ok st" "st_numClients st < 100" "\<forall>cp \<in> set (st_clients st). disp_ok cp \<and> stays cp" "0 < st_numClients st" "st_numPanConns st + n \<le> SZ_PROCTABLE"
  shows "\<exists>st'. come_and_go (\<lambda>st. procAddClient now st chan name host port tid pid status True) n st = Some st'
    \<and> tab_ok st' \<and> st_clients st' = st_clients st \<and> st_numClients st' = st_numClients st \<and> st_numPanConns st' = st_numPanConns st + n"
  using st
proof (induction n arbitrary: st)
  case (Suc n)
  let ?new = "new_client now chan name nhost port tid pid status"
  have free: "st_numPanConns st < SZ_PROCTABLE" "\<forall>cp \<in> set (st_clients st). disp_ok cp" using Suc.prems by auto
  obtain st1 where 1: "procAddClient now st chan name host port tid pid status True = Some (OK, st1)" "tab_ok st1" "st_clients st1 = st_clients st @ [?new]"
      "st_numClients st1 = Suc (st_numClients st)" "st_numPanConns st1 = Suc (st_numPanConns st)"
    using procAddClient_collector [OF Suc.prems(1,2) free(2,1) name(1) collector_not_supervisor(2) [OF name(1)] name(2) host refl new] by blast
  have d: "st_numClients st1 \<le> 100" "\<forall>cp \<in> set (st_clients st1). disp_ok cp" using 1 Suc.prems(2) free(2) new by auto
  have ne: "st_clients st \<noteq> []" using Suc.prems(1,4) by (auto simp: st_clients_def tab_ok_def SZ_PROCTABLE_def)
  have len: "length (st_clients s) = st_numClients s" if "tab_ok s" for s using that by (simp add: st_clients_def tab_ok_def)
  have gone: "\<not> stays ?new" using collector_not_supervisor(1) [OF name(1)] by (simp add: stays_def new_client_def)
  then have "filter stays (st_clients st1) = st_clients st" "\<exists>cp \<in> set (st_clients st1). stays cp"
    using 1(3) Suc.prems(3) ne by (auto simp: filter_id_conv) (metis hd_in_set)
  then obtain st2 where 2: "procCleanTable st1 = Some st2" "tab_ok st2" "st_numPanConns st2 = st_numPanConns st1" "st_clients st2 = st_clients st"
    using procCleanTable_result [OF 1(2) d] by auto
  have "st_numClients st2 = st_numClients st" using len [OF 2(2)] len [OF Suc.prems(1)] 2(4) by simp
  then show ?case using Suc.IH [OF 2(2)] Suc.prems 1 2 by auto
qed simp

text \<open>C29.  The table of connections fills up and is never emptied: each time a collector registers it takes a new
  entry, and cleaning the table of processes gives none back.  So, however few clients there are, when a
  collector has come and gone until 128 connections are used, the next registration writes behind the
  table, as no test stops it.\<close>

theorem collectors_use_up_connections:
  assumes name: "strncasecmp_eq name ''collector'' 9" "length name < SZ_PNAME"
    and host: "supNeuter host = Some (nhost, hcut)" "length nhost < SZ_PHOST" "length now < SZ_PDATE" "length status < SZ_PSTAT"
    and new: "disp_ok (new_client now chan name nhost port tid pid status)"
    and st: "tab_ok st" "st_numClients st < 100" "\<forall>cp \<in> set (st_clients st). disp_ok cp \<and> stays cp" "0 < st_numClients st"
  shows "\<exists>st'. come_and_go (\<lambda>st. procAddClient now st chan name host port tid pid status True) (SZ_PROCTABLE - st_numPanConns st) st = Some st'
    \<and> tab_ok st' \<and> st_clients st' = st_clients st \<and> st_numPanConns st' = SZ_PROCTABLE
    \<and> procAddClient now st' chan name host port tid pid status True = None"
proof -
  have "st_numPanConns st \<le> SZ_PROCTABLE" using st(1) by (simp add: tab_ok_def)
  then obtain st' where st': "come_and_go (\<lambda>st. procAddClient now st chan name host port tid pid status True) (SZ_PROCTABLE - st_numPanConns st) st = Some st'"
      "tab_ok st'" "st_clients st' = st_clients st" "st_numClients st' = st_numClients st" "st_numPanConns st' = SZ_PROCTABLE"
    using come_and_go_uses [OF name host new st, of "SZ_PROCTABLE - st_numPanConns st"] by auto
  have "st_numClients st' \<noteq> SZ_PROCTABLE" using st'(4) st(2) by (simp add: SZ_PROCTABLE_def)
  then have "procAddClient now st' chan name host port tid pid status True = None"
    using st'(5) name host collector_not_supervisor [OF name(1)] unfolding procAddClient_def by (simp add: Let_def put_proc_def)
  then show ?thesis using st' by blast
qed

subsection \<open>An exposure opened by a PAN\<close>

lemma procFindBySocket_bound: "procFindBySocket st s = int i \<Longrightarrow> i < st_numClients st \<and> i < length (st_procTable st) \<and> cp_datain (st_procTable st ! i) = s"
  using first_index_Some [of "\<lambda>cp. cp_datain cp = s" "take (st_numClients st) (st_procTable st)" i]
  by (auto simp: procFindBySocket_def split: option.splits)

lemma procUpdateStatus_active:
  assumes "tab_ok st" "st_numClients st \<le> 100" "\<forall>cp \<in> set (st_clients st). disp_ok cp" "i < st_numClients st"
  shows "\<exists>st'. procUpdateStatus now st (int i) ''active'' True = Some (OK, st')
    \<and> same_tables (put_proc i (\<lambda>cp. cp\<lparr>cp_active := 1\<rparr>) st) st'"
proof -
  let ?st = "put_proc i (\<lambda>cp. cp\<lparr>cp_active := 1\<rparr>) st"
  have i: "i < SZ_PROCTABLE" "i < length (st_procTable st)" using assms(1,4) by (simp_all add: tab_ok_def)
  have t: "tab_ok ?st" by (rule tab_ok_put [OF assms(1) _ i(1)]) (simp add: proc_ok_def)
  have "disp_ok ((st_clients st ! i)\<lparr>cp_active := 1\<rparr>)"
    using assms(3,4) i nth_mem [of i "st_clients st"] by (simp add: disp_ok_def st_clients_def)
  moreover have "st_clients ?st = (st_clients st)[i := (st_clients st ! i)\<lparr>cp_active := 1\<rparr>]"
    using assms(4) i by (simp add: st_clients_def put_proc_def take_update_swap)
  ultimately have "\<forall>cp \<in> set (st_clients ?st). disp_ok cp"
    using assms(3) by (auto dest!: set_update_subset_insert [THEN subsetD])
  moreover have "st_numClients ?st \<le> 100" using assms(2) by (simp add: put_proc_def)
  ultimately obtain st' where "procUpdateProcessTable ?st = Some st'" "same_tables ?st st'"
    using procUpdateProcessTable_fits [OF t] by blast
  then show ?thesis using i(1) by (simp add: procUpdateStatus_def strncmp_eq_def update_if_def)
qed

text \<open>C22.  When a PAN opens an exposure the handler returns, marks the PAN as active and, exactly if the
  PAN is the trigger host, puts the exposure at the end of the processing queue; a message on an
  unknown socket changes nothing.\<close>

theorem pan_open_exp_queues:
  assumes "tab_ok st" "st_numClients st \<le> 100" "\<forall>cp \<in> set (st_clients st). disp_ok cp" "length now < SZ_PDATE"
    and "pq_inv (sv_queue sv)" "length (pq_list (sv_queue sv)) < SZ_PROC_QUEUE"
  shows "case procFindBySocket st sock of cl \<Rightarrow> \<exists>st' sv'. pan_open_exp now hostname (st, sv) sock e = Some (st', sv') \<and> pq_inv (sv_queue sv')
    \<and> (if cl < 0 then st' = st \<and> sv' = sv
       else cp_active (st_procTable st' ! nat cl) = 1
         \<and> pq_list (sv_queue sv') = pq_list (sv_queue sv) @ (if isTriggerHost hostname st (nat cl) then [(e, PQ_START)] else []))"
proof (cases "procFindBySocket st sock < 0")
  case True
  then show ?thesis using assms(5) by (simp add: pan_open_exp_def)
next
  case False
  then obtain i where i: "procFindBySocket st sock = int i" by (metis nonneg_int_cases not_less)
  then have b: "i < st_numClients st" "i < length (st_procTable st)" using procFindBySocket_bound by blast+
  obtain st1 where st1: "procUpdateStatus now st (int i) ''active'' True = Some (OK, st1)"
      "same_tables (put_proc i (\<lambda>cp. cp\<lparr>cp_active := 1\<rparr>) st) st1"
    using procUpdateStatus_active [OF assms(1-3) b(1)] by blast
  define st3 where "st3 = reset_transfer i (sup_message st1 ''expStat'' (cp_host (st_procTable st1 ! i) @ '' 1''))"
  have tab: "st_procTable st3 = (st_procTable st)[i := (st_procTable st ! i)\<lparr>cp_active := 1\<rparr>]" "st_triggerHost st3 = st_triggerHost st"
    using same_tablesD(1,8) [OF st1(2)] by (simp_all add: st3_def reset_transfer_def put_proc_def sup_message_def split: option.splits)
  have trig: "isTriggerHost hostname st3 i = isTriggerHost hostname st i" using tab b(2) by (simp add: isTriggerHost_def Let_def)
  obtain q where q: "pqAdd now (sv_queue sv) e = Some q" "pq_inv q" "pq_list q = pq_list (sv_queue sv) @ [(e, PQ_START)]"
    using pq.add_room [OF assms(5,4,6)] by blast
  obtain sv' where sv': "sup_open_exp now (isTriggerHost hostname st3 i) sv e = Some sv'" "pq_inv (sv_queue sv')"
      "pq_list (sv_queue sv') = pq_list (sv_queue sv) @ (if isTriggerHost hostname st i then [(e, PQ_START)] else [])"
    using q assms(5) by (cases "isTriggerHost hostname st i") (simp_all add: trig sup_open_exp_def put_queue_def)
  have "pan_open_exp now hostname (st, sv) sock e
      = Some (sup_message st3 ''rtdStat'' (if st_stat_enable st3 then ''clear'' else ''sclear''), sv')"
    using i st1(1) sv'(1) by (simp add: pan_open_exp_def Let_def st3_def)
  then show ?thesis using i tab(1) b(2) sv'(2,3) by simp
qed

subsection \<open>Client identifiers\<close>

lemma c_string_zeros: "NUL \<notin> set s \<Longrightarrow> length s < n \<Longrightarrow> c_string (s @ drop (length s) (replicate n NUL)) = s"
proof -
  assume a: "NUL \<notin> set s" "length s < n"
  then obtain k where "n - length s = Suc k" by (metis Suc_diff_Suc)
  then show ?thesis using a by (auto simp: c_string_def takeWhile_append)
qed

lemma takeWhile_until: "x \<notin> set s \<Longrightarrow> takeWhile (\<lambda>c. c \<noteq> x) (s @ x # t) = s"
  by (induction s) auto

text \<open>\<open>procBreakoutClientID\<close> takes the identifier \<open>name@host.domain:pid\<close> apart into the name, the host
  without its domain and the process id, when the buffers are zeroed as the caller does; the domain
  may be missing.\<close>

theorem procBreakoutClientID_parts:
  assumes "name \<noteq> []" "CHR ''@'' \<notin> set name" "NUL \<notin> set name" "length name < nn"
    and "host \<noteq> []" "CHR '':'' \<notin> set host" "CHR ''.'' \<notin> set host" "NUL \<notin> set host" "length host < nh"
    and "domain = [] \<or> hd domain = CHR ''.''" "CHR '':'' \<notin> set domain"
  shows "\<exists>n h. procBreakoutClientID (Some (name @ ''@'' @ host @ domain @ '':'' @ show_int pid)) (replicate nn NUL) (replicate nh NUL)
      = Some (n, h, pid) \<and> c_string n = name \<and> c_string h = host"
proof -
  let ?s = "name @ ''@'' @ host @ domain @ '':'' @ show_int pid" and ?t = "host @ domain @ '':'' @ show_int pid"
  have nm: "takeWhile (\<lambda>c. c \<noteq> CHR ''@'') ?s = name" using takeWhile_until [OF assms(2), of ?t] by simp
  have h: "takeWhile (\<lambda>c. c \<noteq> CHR '':'' \<and> c \<noteq> CHR ''.'') ?t = host"
    using assms(6,7,10) by (subst takeWhile_append2) (auto, cases domain, auto)
  have d: "dropWhile (\<lambda>c. c \<noteq> CHR '':'') (domain @ '':'' @ show_int pid) = '':'' @ show_int pid"
    using assms(11) by (subst dropWhile_append2) auto
  have bh: "breakout_host ?t = (host, if domain = [] then host else host @ [NUL], '':'' @ show_int pid)"
  proof (cases domain)
    case Nil
    then show ?thesis using h by (simp add: breakout_host_def Let_def)
  next
    case (Cons a as)
    then show ?thesis using h d assms(10) by (simp add: breakout_host_def Let_def)
  qed
  have hz: "c_string (host @ NUL # drop (Suc (length host)) (replicate nh NUL)) = host"
    using assms(8) by (simp add: c_string_def takeWhile_until)
  show ?thesis using nm bh hz assms(1,4,5,9) c_string_zeros [OF assms(3,4)] c_string_zeros [OF assms(8,9)]
    by (cases "domain = []") (simp_all add: procBreakoutClientID_def Let_def over_write_def atoi_show_int)
qed

subsection \<open>Sample tables\<close>

definition sample_client :: "string \<Rightarrow> int \<Rightarrow> int \<Rightarrow> clientProc" where
  "sample_client name fd con = zero_proc\<lparr>cp_name := name, cp_host := ''dhs01'', cp_datain := fd, cp_connected := con\<rparr>"

definition sample_conn :: panConn where
  "sample_conn = \<lparr>pc_pan = None, pc_collector = None, pc_inUse = 0, pc_bytesTransferred = 0, pc_bytesTotal = 0, pc_timestamp = [], pc_obsSetID = []\<rparr>"

text \<open>A supervisor, a PAN that has gone and two collectors, the first of them in a connection.\<close>

definition sample_tab :: supTab where
  "sample_tab = \<lparr>st_procTable = [sample_client ''Supervisor'' 3 0, sample_client ''pan'' 5 0, sample_client ''collector1'' 6 0, sample_client ''collector2'' 7 1]
       @ replicate 124 zero_proc,
     st_numClients = 4, st_connTable = sample_conn\<lparr>pc_collector := Some 2\<rparr> # replicate 127 sample_conn, st_numPanConns = 1,
     st_pairTable = [], st_triggerHost = ''DHS01'', st_showActivity = False, st_stat_enable = True, st_verbose = False, st_gui = []\<rparr>"

lemma sample_tab_clients: "st_clients sample_tab = [sample_client ''Supervisor'' 3 0, sample_client ''pan'' 5 0, sample_client ''collector1'' 6 0, sample_client ''collector2'' 7 1]"
  by (simp add: st_clients_def sample_tab_def)

lemma sample_tab_ok: "tab_ok sample_tab" "st_numClients sample_tab \<le> 100" "\<forall>cp \<in> set (st_clients sample_tab). disp_ok cp"
proof -
  show "tab_ok sample_tab" using proc_ok_zero
    by (auto simp: tab_ok_def sample_tab_def sample_client_def sample_conn_def ptr_ok_def proc_ok_def zero_proc_def SZ_PROCTABLE_def
      SZ_PNAME_def SZ_PHOST_def SZ_PDATE_def SZ_PSTAT_def)
  show "\<forall>cp \<in> set (st_clients sample_tab). disp_ok cp"
    by (simp add: sample_tab_clients disp_ok_def sample_client_def zero_proc_def)
qed (simp add: sample_tab_def)

lemma sample_stays: "stays (sample_client ''Supervisor'' 3 0)" "\<not> stays (sample_client ''pan'' 5 0)" "\<not> stays (sample_client ''collector1'' 6 0)" "stays (sample_client ''collector2'' 7 1)"
  by (code_simp, code_simp, code_simp, code_simp)

theorem procCleanTable_filters_witness:
  "\<exists>st'. procCleanTable sample_tab = Some st' \<and> map cp_name (st_clients st') = [''Supervisor'', ''collector2'']"
proof -
  obtain st' where "procCleanTable sample_tab = Some st'" "st_clients st' = [sample_client ''Supervisor'' 3 0, sample_client ''collector2'' 7 1]"
    using procCleanTable_filters [OF sample_tab_ok] by (auto simp: sample_tab_clients sample_stays)
  then show ?thesis by (auto simp: sample_client_def)
qed

theorem procDelClient_stale_connection_witness:
  "\<exists>st'. procDelClient sample_tab 1 False = Some (OK, st') \<and> pc_collector (st_connTable st' ! 0) = Some 2
     \<and> cp_name (st_procTable sample_tab ! 2) = ''collector1'' \<and> cp_name (st_procTable st' ! 2) = ''collector2''"
proof -
  have "st_numClients sample_tab < SZ_PROCTABLE" "1 < st_numClients sample_tab" "cp_connected (st_procTable sample_tab ! 1) = 0"
    "pc_collector (st_connTable sample_tab ! 0) = Some 2" "Suc 2 < st_numClients sample_tab"
    by (simp_all add: sample_tab_def SZ_PROCTABLE_def sample_client_def zero_proc_def sample_conn_def)
  then show ?thesis using procDelClient_stale_connection [OF sample_tab_ok(1), of 1 0 2]
    by (auto simp: sample_tab_def sample_client_def)
qed

theorem collectors_use_up_connections_witness:
  "\<exists>st'. come_and_go (\<lambda>st. procAddClient ''12:00:00'' st None ''Collector'' ''dhs01'' 4200 99 123 ''Connected'' True) 128
      (sample_tab\<lparr>st_numClients := 1, st_numPanConns := 0\<rparr>) = Some st'
    \<and> length (st_clients st') = 1 \<and> procAddClient ''12:00:00'' st' None ''Collector'' ''dhs01'' 4200 99 123 ''Connected'' True = None"
proof -
  let ?st = "sample_tab\<lparr>st_numClients := 1, st_numPanConns := 0\<rparr>"
  have n: "strncasecmp_eq ''Collector'' ''collector'' 9" "length ''Collector'' < SZ_PNAME" by code_simp+
  have h: "supNeuter ''dhs01'' = Some (''dhs01'', ''dhs01'')" "length ''dhs01'' < SZ_PHOST" "length ''12:00:00'' < SZ_PDATE" "length ''Connected'' < SZ_PSTAT" by code_simp+
  have d: "disp_ok (new_client ''12:00:00'' None ''Collector'' ''dhs01'' 4200 99 123 ''Connected'')" by (simp add: disp_ok_def new_client_def)
  have c: "st_clients ?st = [sample_client ''Supervisor'' 3 0]" by (simp add: st_clients_def sample_tab_def)
  have t: "tab_ok ?st" using sample_tab_ok(1) by (simp add: tab_ok_def SZ_PROCTABLE_def)
  have s: "\<forall>cp \<in> set (st_clients ?st). disp_ok cp \<and> stays cp" using sample_stays(1) unfolding c by (simp add: disp_ok_def sample_client_def zero_proc_def)
  show ?thesis using collectors_use_up_connections [OF n h d t _ s] c by (auto simp: SZ_PROCTABLE_def)
qed

theorem pan_open_exp_queues_witness:
  "\<exists>st' sv'. pan_open_exp ''12:00:00'' ''tanzanite'' (sample_tab, sup_sample) 5 42 = Some (st', sv')
     \<and> pq_list (sv_queue sv') = [(42, PQ_START)]"
proof -
  have i: "pq_inv (sv_queue sup_sample)" "pq_list (sv_queue sup_sample) = []"
    unfolding sup_sample_def supState.simps by (rule pqInit_empty; simp add: N_pos)+
  have f: "procFindBySocket sample_tab 5 = 1" by (simp add: procFindBySocket_def sample_tab_def sample_client_def)
  have t: "isTriggerHost ''tanzanite'' sample_tab 1"
  proof -
    have "strcasecmp_eq ''DHS01'' ''dhs01''" by code_simp
    then show ?thesis by (simp add: isTriggerHost_def sample_tab_def sample_client_def Let_def)
  qed
  show ?thesis
    using pan_open_exp_queues [OF sample_tab_ok, where now = "''12:00:00''" and sv = sup_sample and sock = 5 and hostname = "''tanzanite''" and e = 42] i f t
    by (auto simp: SZ_PDATE_def SZ_PROC_QUEUE_def)
qed

theorem procBreakoutClientID_parts_witness:
  "\<exists>n h. procBreakoutClientID (Some (''pan'' @ ''@'' @ ''dhs01'' @ ''.kpno'' @ '':'' @ show_int 123)) (replicate 64 NUL) (replicate 64 NUL)
      = Some (n, h, 123) \<and> c_string n = ''pan'' \<and> c_string h = ''dhs01''"
  by (rule procBreakoutClientID_parts) (simp_all add: NUL_def)

text \<open>A name with a domain keeps its dot: the host entered in the table is not the neutral name.\<close>

lemma supNeuter_keeps_dot:
  assumes "CHR ''.'' \<notin> set h" "length h < SZ_FNAME - 1" "strip_extn (h @ ''.'') = h @ ''.''"
  shows "supNeuter (h @ ''.'' @ d) = Some (h @ ''.'', h)"
  using assms takeWhile_until [OF assms(1), of d] by (simp add: supNeuter_def Let_def)

text \<open>A collector that reports its connection before a PAN was paired with it is a null pointer.\<close>

lemma procSetValue_unpaired:
  assumes "0 \<le> clid" "st_numPanConns st = 1" "pc_collector (st_connTable st ! 0) = Some (nat clid)" "pc_pan (st_connTable st ! 0) = None" "st_connTable st \<noteq> []"
  shows "procSetValue now st clid ''connected 1'' update = None"
proof -
  obtain pc pcs where "st_connTable st = pc # pcs" using assms(5) by (cases "st_connTable st") auto
  then show ?thesis using assms by (simp add: procSetValue_def strncmp_eq_def str_from_def put_proc_def Let_def)
qed

end
