(* ===== verification/PanDevice.thy ===== *)
theory PanDevice
  imports DhsClient SupProc
begin

section \<open>How a PAN finds its collector (dhssup/supPanHandler.c, lib/dcalib/dcaDev.c)\<close>

text \<open>
  The PAN asks the supervisor for the address of a collector (\<open>dcaGetDCADev\<close>); the supervisor looks
  the host of the PAN up in the pairing table, then the first free collector that runs on the
  paired host, and answers with \<open>host:port\<close>, the host replaced by its address in the host table.
  The PAN takes the answer apart with \<open>dcaGetNode\<close> and \<open>dcaGetPort\<close>.
\<close>

unbundle bit_operations_syntax

definition DCA_GET :: "32 word" where "DCA_GET = 512"
definition DCA_DCADEV :: "32 word" where "DCA_DCADEV = 21"
definition DCA_SUPERVISOR :: "32 word" where "DCA_SUPERVISOR = 24"

subsection \<open>The supervisor\<close>

record hostTable =
  ht_name :: string
  ht_ip_addr :: string

definition supHostLookup :: "hostTable list \<Rightarrow> string \<Rightarrow> string" where
  "supHostLookup hosts host =
     (case first_index (\<lambda>ht. host = ht_name ht) hosts of Some i \<Rightarrow> ht_ip_addr (hosts ! i) | None \<Rightarrow> host)"

text \<open>What the handler does with the socket: it sends the 120 bytes of a device or of a header, reads the
  \<open>sizeof(fpConfig_t)\<close> bytes of a configuration, which it only prints, or does nothing; a PAN for which
  there is no collector is disconnected.\<close>

datatype sup_reply = Device string | Ack msgHeader | ReadConfig | NoReply | Disconnect

function dev_loop :: "hostTable list \<Rightarrow> supTab \<Rightarrow> panPair option \<Rightarrow> nat \<Rightarrow> sup_reply option" where
  "dev_loop hosts st pp i =
     (if i < st_numPanConns st then
        (let pc = st_connTable st ! i in
         case (pc_collector pc, pp) of
           (Some k, Some p) \<Rightarrow>
             (let cp = st_procTable st ! k; dev = supHostLookup hosts (cp_host cp) @ '':'' @ show_int (cp_port cp) in
              if strcasecmp_eq (cp_host cp) (pp_chost p) \<and> (0 < pp_socket p \<longrightarrow> cp_port cp = pp_socket p) \<and> pc_inUse pc \<le> 0
              then (if SZMSG \<le> length dev then None else Some (Device (strncpy_buf dev SZMSG)))
              else dev_loop hosts st pp (Suc i))
         | _ \<Rightarrow> None)
      else Some Disconnect)"
  by pat_completeness auto
termination by (relation "measure (\<lambda>(hosts, st, pp, i). st_numPanConns st - i)") auto

declare dev_loop.simps [simp del]

definition sup_dcadev :: "hostTable list \<Rightarrow> supTab \<Rightarrow> int \<Rightarrow> sup_reply option" where
  "sup_dcadev hosts st socket =
     (let clid = procFindBySocket st socket in
      if clid < 0 then Some (Device (strncpy_buf ''localhost:4100'' SZMSG))
      else dev_loop hosts st (find_pair (st_pairTable st) (cp_host (st_procTable st ! nat clid))) 0)"

text \<open>
  The descriptors of the channels to the clients: the pool \<open>pub_client\<close>, from which a channel is handed out
  while it is not connected, and the copies that \<open>procAddClient\<close> makes of them in the process table.  \<open>ch_id\<close>
  tells whether an input handler is registered.  The file descriptor of a copy is \<open>cp_datain\<close> in the
  table, those of the pool are in \<open>cs_datain\<close>.
\<close>

record clientChan =
  ch_port :: int
  ch_id :: bool
  ch_connected :: bool

record supChans =
  cs_copy :: "clientChan list"
  cs_pub :: "clientChan list"
  cs_datain :: "int list"
  cs_port :: int
  cs_offset :: int

datatype chanPtr = Copy nat | Pub nat

type_synonym pan_state = "supTab \<times> supState \<times> supChans"

definition get_chan :: "chanPtr \<Rightarrow> supChans \<Rightarrow> clientChan" where
  "get_chan p cs = (case p of Copy k \<Rightarrow> cs_copy cs ! k | Pub i \<Rightarrow> cs_pub cs ! i)"

definition put_chan :: "chanPtr \<Rightarrow> clientChan \<Rightarrow> supChans \<Rightarrow> supChans" where
  "put_chan p ch cs = (case p of Copy k \<Rightarrow> cs\<lparr>cs_copy := (cs_copy cs)[k := ch]\<rparr> | Pub i \<Rightarrow> cs\<lparr>cs_pub := (cs_pub cs)[i := ch]\<rparr>)"

text \<open>The number of a channel is stored in its \<open>id\<close>, so that of the first one is the null pointer.\<close>

definition clientGetChannel :: "supChans \<Rightarrow> nat option \<times> supChans" where
  "clientGetChannel cs =
     (case first_index (\<lambda>ch. \<not> ch_connected ch) (cs_pub cs) of
        Some i \<Rightarrow> (Some i, cs\<lparr>cs_pub := (cs_pub cs)[i := (cs_pub cs ! i)\<lparr>ch_id := (i \<noteq> 0), ch_port := cs_port cs + 1 + cs_offset cs\<rparr>],
                             cs_offset := cs_offset cs + 1\<rparr>)
      | None \<Rightarrow> (None, cs))"

text \<open>\<open>s\<close> is the socket of the accepted connection, if there is one.\<close>

definition sup_connectClient :: "int option \<Rightarrow> nat \<Rightarrow> supChans \<Rightarrow> supChans" where
  "sup_connectClient s i cs =
     (case s of None \<Rightarrow> cs
      | Some fd \<Rightarrow> cs\<lparr>cs_pub := (cs_pub cs)[i := (cs_pub cs ! i)\<lparr>ch_connected := True, ch_id := True\<rparr>], cs_datain := (cs_datain cs)[i := fd]\<rparr>)"

definition sup_disconnectClient :: "string \<Rightarrow> chanPtr \<Rightarrow> supTab \<times> supChans \<Rightarrow> (supTab \<times> supChans) option" where
  "sup_disconnectClient now p s =
     (case s of (st, cs) \<Rightarrow>
        let chan = get_chan p cs; clid = procFindClient st (ch_port chan) (-1);
            cs1 = (if ch_id chan then put_chan p \<lparr>ch_port = -1, ch_id = False, ch_connected = False\<rparr> cs else cs)
        in map_option (\<lambda>st1. case p of Copy k \<Rightarrow> (put_proc k (\<lambda>cp. cp\<lparr>cp_datain := 0\<rparr>) st1, cs1)
             | Pub i \<Rightarrow> (st1, cs1\<lparr>cs_datain := (cs_datain cs1)[i := 0]\<rparr>)) (procDisconnect now st clid))"

definition pan_connect :: "supTab \<Rightarrow> int \<Rightarrow> supTab" where
  "pan_connect st socket =
     (let clid = procFindBySocket st socket in
      if clid < 0 then st else sup_message st ''conStat'' (cp_host (st_procTable st ! nat clid) @ '' 1''))"

definition pan_disconnect :: "string \<Rightarrow> supTab \<times> supChans \<Rightarrow> int \<Rightarrow> (supTab \<times> supChans) option" where
  "pan_disconnect now s socket =
     (let clid = procFindBySocket (fst s) socket in
      if clid < 0 then Some s
      else map_option (\<lambda>(st1, chs1). (sup_message st1 ''conStat'' (cp_host (st_procTable st1 ! nat clid) @ '' 0''), chs1))
             (sup_disconnectClient now (Copy (nat clid)) s))"

text \<open>The whole handler, in the order of its tests.\<close>

definition superHandleClient ::
  "string \<Rightarrow> string \<Rightarrow> hostTable list \<Rightarrow> pan_state \<Rightarrow> int \<Rightarrow> msgHeader \<Rightarrow> (sup_reply \<times> pan_state) option" where
  "superHandleClient now hostname hosts s socket msgh =
     (case s of (st, sv, chs) \<Rightarrow>
        let mtype = mh_type msgh in
        if has mtype DCA_SET then Some (if has mtype DCA_FP_CONFIG then ReadConfig else NoReply, s)
        else if has mtype DCA_GET then
          (if mtype AND NOT DCA_GET = DCA_DCADEV then
             (case sup_dcadev hosts st socket of
                None \<Rightarrow> None
              | Some Disconnect \<Rightarrow>
                  map_option (\<lambda>(st1, chs1). (Disconnect, st1, sv, chs1)) (sup_disconnectClient now (Copy (nat (procFindBySocket st socket))) (st, chs))
              | Some r \<Rightarrow> Some (r, s))
           else Some (NoReply, s))
        else if has mtype DCA_NOOP then Some (Ack (msgh\<lparr>mh_type := DCA_ACK, mh_whoami := DCA_SUPERVISOR\<rparr>), s)
        else if has mtype DCA_OPEN then
          (if has mtype DCA_EXP then
             map_option (\<lambda>(st1, sv1). (NoReply, st1, sv1, chs)) (pan_open_exp now hostname (st, sv) socket (mh_expnum msgh))
           else Some (NoReply, pan_connect st socket, sv, chs))
        else if has mtype DCA_CLOSE then
          (if has mtype DCA_EXP then
             map_option (\<lambda>(st1, sv1). (NoReply, st1, sv1, chs)) (pan_close_exp now hostname (st, sv) socket (mh_expnum msgh))
           else map_option (\<lambda>(st1, chs1). (NoReply, st1, sv, chs1)) (pan_disconnect now (st, chs) socket))
        else Some (NoReply, s))"

subsection \<open>The PAN\<close>

definition dcaRecvMsg :: "rd_event list \<Rightarrow> nat \<Rightarrow> string \<Rightarrow> int \<Rightarrow> (int \<times> string \<times> string \<times> rd_event list) option" where
  "dcaRecvMsg es room inp sz =
     map_option (\<lambda>(istat, got, inp', es'). (if istat \<noteq> sz then DCA_ERR else istat, got, inp', es')) (dcaRecv es room inp sz)"

text \<open>The request and the answer: \<open>dev\<close> is a cleared buffer of \<open>SZMSG\<close> bytes.\<close>

definition dcadev_ask :: "pan_env \<Rightarrow> dhs_client \<Rightarrow> dhs_client option" where
  "dcadev_ask pe st = map_option snd (dcaSendMsg pe ToSuper (dcaFmtMsg st (DCA_GET OR DCA_DCADEV) 0) st)"

definition dcadev_answer :: "rd_event list \<Rightarrow> string \<Rightarrow> (string \<times> string \<times> rd_event list) option" where
  "dcadev_answer es inp =
     map_option (\<lambda>(r, got, inp', es'). (got @ replicate (SZMSG - length got) NUL, inp', es')) (dcaRecvMsg es SZMSG inp (int SZMSG))"

definition dcaGetNode :: "string \<Rightarrow> string option" where
  "dcaGetNode device =
     (let node = takeWhile (\<lambda>c. c \<noteq> CHR '':'') (buf_str device) in if 80 \<le> length node then None else Some node)"

definition dcaGetPort :: "string \<Rightarrow> int option" where
  "dcaGetPort device =
     (case dropWhile (\<lambda>c. c \<noteq> CHR '':'') (buf_str device) of [] \<Rightarrow> None | _ # sm \<Rightarrow> Some (atoi sm))"

subsection \<open>Properties\<close>

text \<open>A connection whose collector is free and runs on the paired host, at the paired port if one is given.\<close>

definition conn_matches :: "supTab \<Rightarrow> panPair \<Rightarrow> panConn \<Rightarrow> bool" where
  "conn_matches st p pc \<longleftrightarrow>
     (case pc_collector pc of None \<Rightarrow> False
      | Some k \<Rightarrow> strcasecmp_eq (cp_host (st_procTable st ! k)) (pp_chost p)
          \<and> (0 < pp_socket p \<longrightarrow> cp_port (st_procTable st ! k) = pp_socket p) \<and> pc_inUse pc \<le> 0)"

lemma dev_loop_first:
  assumes "\<forall>j < st_numPanConns st. pc_collector (st_connTable st ! j) \<noteq> None" "c < st_numPanConns st"
    and "\<forall>j < c. \<not> conn_matches st p (st_connTable st ! j)" "conn_matches st p (st_connTable st ! c)"
    and "pc_collector (st_connTable st ! c) = Some k" "cp = st_procTable st ! k"
    and "dev = supHostLookup hosts (cp_host cp) @ '':'' @ show_int (cp_port cp)" "length dev < SZMSG" and "i \<le> c"
  shows "dev_loop hosts st (Some p) i = Some (Device (strncpy_buf dev SZMSG))"
  using assms(9)
proof (induction "c - i" arbitrary: i)
  case 0
  then have "i = c" by simp
  then show ?case using assms(2,4-8) by (subst dev_loop.simps) (simp add: Let_def conn_matches_def)
next
  case (Suc d)
  then have i: "i < c" "d = c - Suc i" by simp_all
  obtain q where q: "pc_collector (st_connTable st ! i) = Some q" using assms(1,2) i(1) by fastforce
  have "\<not> conn_matches st p (st_connTable st ! i)" using assms(3) i(1) by simp
  then have "dev_loop hosts st (Some p) i = dev_loop hosts st (Some p) (Suc i)"
    using q i(1) assms(2) by (subst dev_loop.simps) (auto simp: Let_def conn_matches_def)
  then show ?case using Suc.hyps(1) [OF i(2)] i(1) by simp
qed

lemma show_int_plain: "c \<in> set (show_int i) \<Longrightarrow> c \<noteq> NUL \<and> c \<noteq> CHR '':''"
proof -
  have "list_all (\<lambda>c. c \<noteq> NUL \<and> c \<noteq> CHR '':'') (show_nat n)" for n
    using show_nat_digits [of n] by (auto simp: list_all_iff c_isdigit_def c_code_def NUL_def)
  then show "c \<in> set (show_int i) \<Longrightarrow> c \<noteq> NUL \<and> c \<noteq> CHR '':''"
    by (auto simp: show_int_def list_all_iff NUL_def split: if_splits)
qed

lemma device_parts:
  assumes "NUL \<notin> set node" "CHR '':'' \<notin> set node" "length node < 80" "length (node @ '':'' @ show_int port) < n"
  shows "dcaGetNode (strncpy_buf (node @ '':'' @ show_int port) n) = Some node" "dcaGetPort (strncpy_buf (node @ '':'' @ show_int port) n) = Some port"
proof -
  have "NUL \<notin> set (node @ '':'' @ show_int port)" using assms(1) show_int_plain by (auto simp: NUL_def)
  then have b: "buf_str (strncpy_buf (node @ '':'' @ show_int port) n) = node @ CHR '':'' # show_int port"
    using buf_str_strncpy_buf [OF assms(4)] by simp
  have t: "takeWhile (\<lambda>c. c \<noteq> CHR '':'') node = node" "dropWhile (\<lambda>c. c \<noteq> CHR '':'') node = []" using assms(2) by (auto simp: takeWhile_eq_all_conv dropWhile_eq_Nil_conv)
  have p: "\<And>c. c \<in> set node \<Longrightarrow> c \<noteq> CHR '':''" using assms(2) by auto
  show "dcaGetNode (strncpy_buf (node @ '':'' @ show_int port) n) = Some node"
    unfolding dcaGetNode_def b using assms(3) p by (simp add: takeWhile_append2)
  show "dcaGetPort (strncpy_buf (node @ '':'' @ show_int port) n) = Some port"
    unfolding dcaGetPort_def b using p by (simp add: dropWhile_append2 atoi_show_int)
qed

text \<open>C27.  The PAN learns the collector that the pairing table gives it: when the PAN is a client of the supervisor,
  its host is paired and a free connection has a collector on the paired host (at the paired port, if
  there is one), then the question of the PAN is understood, and the answer, sent and received
  however the sockets cut it up, is taken apart into the address of the first such collector's host
  in the host table, or its name, and the port of that collector.\<close>

theorem pan_finds_collector:
  assumes tab: "tab_ok st" "procFindBySocket st sock = int k"
    and pair: "first_index (\<lambda>pp. strcasecmp_eq (cp_host (st_procTable st ! k)) (pp_phost pp)) (st_pairTable st) = Some q" "p = st_pairTable st ! q"
    and conn: "first_index (conn_matches st p) (take (st_numPanConns st) (st_connTable st)) = Some c"
      "pc_collector (st_connTable st ! c) = Some j" "col = st_procTable st ! j"
    and addr: "node = supHostLookup hosts (cp_host col)" "NUL \<notin> set node" "CHR '':'' \<notin> set node" "length node < 80"
      "length (node @ '':'' @ show_int (cp_port col)) < SZMSG"
    and wire: "chan_ok N cl" "SZMSG \<le> N" "h = dcaFmtMsg cl (DCA_GET OR DCA_DCADEV) 0" "length (pa_hdr pe h) = SZMSG" "dec (pa_hdr pe h) = h"
      "\<forall>e \<in> set ws. wr_good e" "SZMSG \<le> writes ws" "\<forall>e \<in> set rs. ev_good e" "SZMSG \<le> reads rs"
  shows "\<exists>cl' dev out rs'. dcadev_ask pe cl = Some cl' \<and> cl_out cl' ToSuper = cl_out cl ToSuper @ pa_hdr pe h
    \<and> superHandleClient now hostname hosts (st, sv, chs) sock (dec (pa_hdr pe h)) = Some (Device dev, st, sv, chs) \<and> dcaSend ws dev = Some (int SZMSG, out)
    \<and> dcadev_answer rs (out @ later) = Some (dev, later, rs') \<and> dcaGetNode dev = Some node \<and> dcaGetPort dev = Some (cp_port col)"
proof -
  let ?dev = "strncpy_buf (node @ '':'' @ show_int (cp_port col)) SZMSG"
  have p: "0 < SZMSG" by (simp add: SZMSG_def)
  have len: "length ?dev = SZMSG" using addr(5) by (simp add: strncpy_buf_def)
  have ask: "dcadev_ask pe cl = Some (sent ToSuper (pa_hdr pe h) cl)"
    using dcaSendMsg_ok [OF wire(1,2,4), of ToSuper] wire(3) by (simp add: dcadev_ask_def)
  have fp: "find_pair (st_pairTable st) (cp_host (st_procTable st ! k)) = Some p" using pair by (simp add: find_pair_def)
  have lt: "st_numPanConns st \<le> length (st_connTable st)" using tab(1) by (simp add: tab_ok_def)
  have c: "c < st_numPanConns st" "\<forall>i < c. \<not> conn_matches st p (st_connTable st ! i)" "conn_matches st p (st_connTable st ! c)"
    using conn(1) lt by (auto simp: first_index_Some min_def split: if_splits)
  have "dev_loop hosts st (Some p) 0 = Some (Device ?dev)"
    using dev_loop_first [OF _ c conn(2,3) refl, of hosts 0] tab(1) addr(1,5) by (simp add: tab_ok_def)
  then have dev: "sup_dcadev hosts st sock = Some (Device ?dev)" using tab(2) fp by (simp add: sup_dcadev_def Let_def)
  have "mh_type h = 533" using wire(3) by (simp add: dcaFmtMsg_def DCA_GET_def DCA_DCADEV_def)
  then have q: "superHandleClient now hostname hosts (st, sv, chs) sock h = Some (Device ?dev, st, sv, chs)"
    using dev by (simp add: superHandleClient_def Let_def has_def DCA_SET_def DCA_GET_def DCA_DCADEV_def)
  have snd: "dcaSend ws ?dev = Some (int SZMSG, ?dev)" using dcaSend_complete [OF wire(6), of ?dev] wire(7) len by simp
  obtain rs' where "dcaRecv rs SZMSG (?dev @ later) (int SZMSG) = Some (int SZMSG, ?dev, later, rs')"
    using dcaRecv_returns [OF wire(8) _ _ order_refl, of ?dev later] wire(9) p unfolding len by blast
  then have "dcadev_answer rs (?dev @ later) = Some (?dev, later, rs')" using len by (simp add: dcadev_answer_def dcaRecvMsg_def)
  then show ?thesis using ask q snd wire(5) device_parts [OF addr(2-5)]
    by (intro exI [of _ "sent ToSuper (pa_hdr pe h) cl"] exI [of _ ?dev] exI [of _ rs']) simp
qed

subsection \<open>Example\<close>

text \<open>The PAN on \<open>dhs01\<close> is paired with a collector on the same host.\<close>

definition paired_tab :: supTab where
  "paired_tab = sample_tab\<lparr>st_pairTable := [\<lparr>pp_phost = ''DHS01'', pp_chost = ''dhs01'', pp_socket = 0\<rparr>]\<rparr>"

definition no_chans :: supChans where
  "no_chans = \<lparr>cs_copy = [], cs_pub = [], cs_datain = [], cs_port = 4150, cs_offset = 0\<rparr>"

lemma paired_tab_ok: "tab_ok paired_tab" "procFindBySocket paired_tab 5 = int 1"
  using sample_tab_ok(1) by (simp add: tab_ok_def paired_tab_def)
    (simp add: procFindBySocket_def paired_tab_def sample_tab_def sample_client_def zero_proc_def)

theorem pan_finds_collector_witness:
  "\<exists>dev. superHandleClient ''12:00:00'' ''dhs00'' [\<lparr>ht_name = ''dhs01'', ht_ip_addr = ''140.252.1.1''\<rparr>] (paired_tab, sup_sample, no_chans) 5 (dcaFmtMsg sample_cl (DCA_GET OR DCA_DCADEV) 0)
      = Some (Device dev, paired_tab, sup_sample, no_chans)
    \<and> dcaGetNode dev = Some ''140.252.1.1'' \<and> dcaGetPort dev = Some 0"
proof -
  let ?hosts = "[\<lparr>ht_name = ''dhs01'', ht_ip_addr = ''140.252.1.1''\<rparr>]" and ?h = "dcaFmtMsg sample_cl (DCA_GET OR DCA_DCADEV) 0"
  let ?p = "\<lparr>pp_phost = ''DHS01'', pp_chost = ''dhs01'', pp_socket = 0\<rparr>"
  have low: "map c_tolower ''dhs01'' = map c_tolower ''DHS01''" by code_simp
  have pair: "first_index (\<lambda>pp. strcasecmp_eq (cp_host (st_procTable paired_tab ! 1)) (pp_phost pp)) (st_pairTable paired_tab) = Some 0"
      "?p = st_pairTable paired_tab ! 0"
    using low by (simp_all add: paired_tab_def sample_tab_def sample_client_def strcasecmp_eq_def)
  have conn: "first_index (conn_matches paired_tab ?p) (take (st_numPanConns paired_tab) (st_connTable paired_tab)) = Some 0"
      "pc_collector (st_connTable paired_tab ! 0) = Some 2" "sample_client ''collector1'' 6 0 = st_procTable paired_tab ! 2"
    by (simp_all add: paired_tab_def sample_tab_def conn_matches_def sample_conn_def sample_client_def strcasecmp_eq_def)
  have addr: "''140.252.1.1'' = supHostLookup ?hosts (cp_host (sample_client ''collector1'' 6 0))" "NUL \<notin> set ''140.252.1.1''" "CHR '':'' \<notin> set ''140.252.1.1''"
      "length ''140.252.1.1'' < 80" "length (''140.252.1.1'' @ '':'' @ show_int (cp_port (sample_client ''collector1'' 6 0))) < SZMSG"
    by (simp_all add: supHostLookup_def sample_client_def zero_proc_def NUL_def show_int_def show_nat.simps SZMSG_def)
  have hdr: "length (pa_hdr sample_pe ?h) = SZMSG" by (simp add: sample_pe_def word_digits_def SZMSG_def)
  have wr: "\<forall>e \<in> set (replicate 120 (Wrote 9)). wr_good e" "SZMSG \<le> writes (replicate 120 (Wrote 9))"
      "\<forall>e \<in> set (replicate 120 (ReadBytes 7)). ev_good e" "SZMSG \<le> reads (replicate 120 (ReadBytes 7))"
    by (simp_all add: wr_good_def writes_def ev_good_def reads_def filter_replicate SZMSG_def)
  have N: "SZMSG \<le> 120" by (simp add: SZMSG_def)
  have "cp_port (sample_client ''collector1'' 6 0) = 0" by (simp add: sample_client_def zero_proc_def)
  then show ?thesis
    using pan_finds_collector [OF paired_tab_ok pair conn addr sample_chan_ok N refl hdr _ wr, where dec = "\<lambda>_. ?h" and now = "''12:00:00''" and hostname = "''dhs00''" and sv = sup_sample and chs = no_chans] by auto
qed

lemma procDisconnect_marks:
  assumes "tab_ok st" "st_numClients st \<le> 100" "\<forall>cp \<in> set (st_clients st). disp_ok cp" "length now < SZ_PDATE" "k < st_numClients st"
  shows "\<exists>st'. procDisconnect now st (int k) = Some st' \<and> same_tables (put_proc k (\<lambda>cp. cp\<lparr>cp_port := -1, cp_tid := -1, cp_connected := 0,
    cp_date := now, cp_status := ''Disconnected''\<rparr>) st) st'"
proof -
  let ?f = "\<lambda>cp. cp\<lparr>cp_port := -1, cp_tid := -1, cp_connected := 0, cp_date := now, cp_status := ''Disconnected''\<rparr>"
  have k: "k < SZ_PROCTABLE" "k < length (st_procTable st)" using assms(1,5) by (simp_all add: tab_ok_def)
  have t: "tab_ok (put_proc k ?f st)" by (rule tab_ok_put [OF assms(1) _ k(1)]) (use assms(4) in \<open>simp add: proc_ok_def SZ_PSTAT_def\<close>)
  have "disp_ok (?f (st_clients st ! k))" using assms(3,5) k nth_mem [of k "st_clients st"] by (simp add: disp_ok_def st_clients_def)
  moreover have "st_clients (put_proc k ?f st) = (st_clients st)[k := ?f (st_clients st ! k)]"
    using assms(5) k by (simp add: st_clients_def put_proc_def take_update_swap)
  ultimately have "\<forall>cp \<in> set (st_clients (put_proc k ?f st)). disp_ok cp"
    using assms(3) by (auto dest!: set_update_subset_insert [THEN subsetD])
  moreover have "st_numClients (put_proc k ?f st) \<le> 100" using assms(2) by (simp add: put_proc_def)
  ultimately show ?thesis using procUpdateProcessTable_fits [OF t] k(1) assms(4) by (simp add: procDisconnect_def)
qed

text \<open>C28.  A PAN that closes its connection keeps its channel: the handler marks the PAN as disconnected in the process
  table, where exactly its entry changes, and tells the display; but it releases the copy of the channel
  that is in this entry, while the channel of the pool stays connected, so that no later client is
  given it.\<close>

theorem superHandleClient_leaks_channel:
  assumes "tab_ok st" "st_numClients st \<le> 100" "\<forall>cp \<in> set (st_clients st). disp_ok cp" "length now < SZ_PDATE"
    and "procFindBySocket st sock = int k" "procFindClient st (ch_port (cs_copy chs ! k)) (-1) = int k" "ch_id (cs_copy chs ! k)"
    and "mh_type msgh = DCA_CLOSE OR DCA_CONNECT" and pub: "ch_connected (cs_pub chs ! j)"
  shows "\<exists>st' chs'. superHandleClient now hostname hosts (st, sv, chs) sock msgh = Some (NoReply, st', sv, chs')
    \<and> st_procTable st' = (st_procTable st)[k := (st_procTable st ! k)\<lparr>cp_port := -1, cp_tid := -1, cp_connected := 0, cp_date := now,
        cp_status := ''Disconnected'', cp_datain := 0\<rparr>]
    \<and> st_connTable st' = st_connTable st \<and> last (st_gui st') = (''conStat'', cp_host (st_procTable st ! k) @ '' 0'')
    \<and> cs_copy chs' = (cs_copy chs)[k := \<lparr>ch_port = -1, ch_id = False, ch_connected = False\<rparr>]
    \<and> cs_pub chs' = cs_pub chs \<and> cs_datain chs' = cs_datain chs \<and> fst (clientGetChannel chs') \<noteq> Some j"
proof -
  have k: "k < st_numClients st" "k < length (st_procTable st)" using procFindBySocket_bound [OF assms(5)] by simp_all
  obtain st1 where st1: "procDisconnect now st (int k) = Some st1" "same_tables (put_proc k (\<lambda>cp. cp\<lparr>cp_port := -1, cp_tid := -1, cp_connected := 0,
      cp_date := now, cp_status := ''Disconnected''\<rparr>) st) st1"
    using procDisconnect_marks [OF assms(1-4) k(1)] by blast
  have "superHandleClient now hostname hosts (st, sv, chs) sock msgh = map_option (\<lambda>(st1, chs1). (NoReply, st1, sv, chs1)) (pan_disconnect now (st, chs) sock)"
    using assms(8) by (simp add: superHandleClient_def Let_def has_def DCA_SET_def DCA_GET_def DCA_NOOP_def DCA_OPEN_def DCA_CLOSE_def DCA_CONNECT_def DCA_EXP_def)
  moreover have "fst (clientGetChannel chs') \<noteq> Some j" if "cs_pub chs' = cs_pub chs" for chs'
    using that pub by (auto simp: clientGetChannel_def first_index_Some split: option.splits)
  ultimately show ?thesis using assms(5-7) st1 k(2)
    by (auto simp: pan_disconnect_def sup_disconnectClient_def get_chan_def put_chan_def Let_def same_tables_def put_proc_def sup_message_def)
qed

text \<open>The channel of the pool itself, which \<open>supClientIO\<close> disconnects at the end of the stream, is free again.\<close>

lemma sup_disconnectClient_pool:
  assumes "j < length (cs_pub chs)" "ch_id (cs_pub chs ! j)" "sup_disconnectClient now (Pub j) (st, chs) = Some (st', chs')"
  shows "\<not> ch_connected (cs_pub chs' ! j) \<and> (\<exists>i \<le> j. fst (clientGetChannel chs') = Some i)"
proof -
  have p: "cs_pub chs' = (cs_pub chs)[j := \<lparr>ch_port = -1, ch_id = False, ch_connected = False\<rparr>]"
    using assms by (auto simp: sup_disconnectClient_def get_chan_def put_chan_def Let_def)
  then have j: "\<not> ch_connected (cs_pub chs' ! j)" "j < length (cs_pub chs')" using assms(1) by simp_all
  then obtain i where i: "first_index (\<lambda>ch. \<not> ch_connected ch) (cs_pub chs') = Some i"
    using first_index_None [of "\<lambda>ch. \<not> ch_connected ch" "cs_pub chs'"] nth_mem by (cases "first_index (\<lambda>ch. \<not> ch_connected ch) (cs_pub chs')") auto
  then have "i \<le> j" using j(1) unfolding first_index_Some by (meson not_le)
  then show ?thesis using j i by (auto simp: clientGetChannel_def)
qed

definition paired_chs :: supChans where
  "paired_chs = \<lparr>cs_copy = replicate SZ_PROCTABLE \<lparr>ch_port = 4105, ch_id = True, ch_connected = True\<rparr>,
     cs_pub = replicate 32 \<lparr>ch_port = 4105, ch_id = True, ch_connected = True\<rparr>, cs_datain = replicate 32 5, cs_port = 4150, cs_offset = 0\<rparr>"

definition port_tab :: supTab where
  "port_tab = put_proc 1 (\<lambda>cp. cp\<lparr>cp_port := 4105\<rparr>) paired_tab"

theorem superHandleClient_leaks_channel_witness:
  "\<exists>st' chs'. superHandleClient ''12:00:00'' ''dhs00'' [] (port_tab, sup_sample, paired_chs) 5 (dcaFmtMsg sample_cl (DCA_CLOSE OR DCA_CONNECT) 0)
      = Some (NoReply, st', sup_sample, chs') \<and> cp_status (st_procTable st' ! 1) = ''Disconnected'' \<and> cs_pub chs' = cs_pub paired_chs"
proof -
  have t: "tab_ok port_tab" unfolding port_tab_def
    by (rule tab_ok_put [OF paired_tab_ok(1)]) (simp_all add: proc_ok_def SZ_PROCTABLE_def)
  have d: "st_numClients port_tab \<le> 100" "\<forall>cp \<in> set (st_clients port_tab). disp_ok cp" "length ''12:00:00'' < SZ_PDATE"
    by (simp_all add: port_tab_def paired_tab_def sample_tab_def put_proc_def st_clients_def disp_ok_def sample_client_def zero_proc_def SZ_PDATE_def)
  have f: "procFindBySocket port_tab 5 = int 1" "procFindClient port_tab (ch_port (cs_copy paired_chs ! 1)) (-1) = int 1" "ch_id (cs_copy paired_chs ! 1)"
    by (simp_all add: port_tab_def paired_tab_def sample_tab_def put_proc_def sample_client_def zero_proc_def procFindBySocket_def procFindClient_def paired_chs_def SZ_PROCTABLE_def)
  have m: "mh_type (dcaFmtMsg sample_cl (DCA_CLOSE OR DCA_CONNECT) 0) = DCA_CLOSE OR DCA_CONNECT" "ch_connected (cs_pub paired_chs ! 0)"
    by (simp_all add: dcaFmtMsg_def paired_chs_def)
  have l: "1 < length (st_procTable port_tab)" by (simp add: port_tab_def paired_tab_def sample_tab_def put_proc_def)
  show ?thesis using superHandleClient_leaks_channel [OF t d f m, of "''dhs00''" "[]" sup_sample] l by auto
qed

end
