(* ===== verification/Rotate.thy ===== *)
theory Rotate
  imports SmPage
begin

section \<open>Rectifying the rasters (smcmgr/rotate.c, smcmgr/smcRectify.c)\<close>

text \<open>
  \<open>rotate\<close> flips or transposes a raster into a buffer that it keeps between calls.  The type of the
  pixels is the constructor of \<open>raster\<close>; a buffer is the list of its pixels, the null pointer the
  empty one.  A read outside the input or a write outside the buffer is \<open>None\<close>.  The dimensions
  are natural numbers and \<open>calloc\<close> succeeds.
\<close>

datatype raster = Uchar "8 word list" | Ushort "16 word list" | Ulong "32 word list"

record rot_mem =
  rm_first_time :: bool
  rm_nx :: nat
  rm_ny :: nat
  rm_bufc :: "8 word list"
  rm_bufs :: "16 word list"
  rm_bufl :: "32 word list"

subsection \<open>Operations\<close>

text \<open>The statement \<open>*op++ = *(ip + k)\<close> for the offsets \<open>k\<close> of a loop, in their order.\<close>

primrec copy_pix :: "nat list \<Rightarrow> 'a list \<Rightarrow> nat \<Rightarrow> 'a list \<Rightarrow> 'a list option" where
  "copy_pix [] ip op buf = Some buf"
| "copy_pix (k # ks) ip op buf =
     (if k < length ip \<and> op < length buf then copy_pix ks ip (Suc op) (buf[op := ip ! k]) else None)"

text \<open>The offsets that the loops of the four transformations read, outer loop first.\<close>

definition flipx :: "nat \<Rightarrow> nat \<Rightarrow> nat \<Rightarrow> nat list" where
  "flipx pixsize nx ny =
     (if pixsize = 1 \<or> pixsize = 2 \<or> pixsize = 4 then [y * nx + x - 1. y \<leftarrow> [0..<ny], x \<leftarrow> rev [1..<Suc nx]]
      else [])"

definition flipy :: "nat \<Rightarrow> nat \<Rightarrow> nat \<Rightarrow> nat list" where
  "flipy pixsize nx ny =
     (if pixsize = 1 \<or> pixsize = 2 \<or> pixsize = 4 then [y * nx + x. y \<leftarrow> rev [0..<ny], x \<leftarrow> [0..<nx]] else [])"

definition transpose2 :: "nat \<Rightarrow> nat \<Rightarrow> nat \<Rightarrow> nat list" where
  "transpose2 pixsize nx ny =
     (if pixsize = 1 \<or> pixsize = 2 \<or> pixsize = 4 then [y * nx - x - 1. x \<leftarrow> [0..<nx], y \<leftarrow> rev [1..<Suc ny]]
      else [])"

definition transpose1 :: "nat \<Rightarrow> nat \<Rightarrow> nat \<Rightarrow> nat list" where
  "transpose1 pixsize nx ny =
     (if pixsize = 1 then [y * nx + x. x \<leftarrow> [0..<nx], y \<leftarrow> [0..<ny]]
      else if pixsize = 2 then [y * nx + x. x \<leftarrow> [0..<nx], y \<leftarrow> rev [1..<Suc ny]]
      else if pixsize = 4 then [y * nx + x. x \<leftarrow> [0..<nx], y \<leftarrow> [0..<ny]]
      else [])"

definition rot_dir :: "nat \<Rightarrow> nat \<Rightarrow> nat \<Rightarrow> int \<Rightarrow> nat list" where
  "rot_dir pixsize nx ny dir =
     (if dir = 1 then flipx pixsize nx ny
      else if dir = 2 then flipy pixsize nx ny
      else if dir = 3 then transpose1 pixsize nx ny
      else if dir = 4 then transpose2 pixsize nx ny
      else [])"

text \<open>A change of the size frees the buffer of this type and asks for a new one.\<close>

definition rot_resize :: "rot_mem \<Rightarrow> raster \<Rightarrow> nat \<Rightarrow> nat \<Rightarrow> rot_mem" where
  "rot_resize rm iadr nx ny =
     (if nx * ny \<noteq> rm_nx rm * rm_ny rm then
        (case iadr of Uchar _ \<Rightarrow> rm\<lparr>rm_bufc := []\<rparr> | Ushort _ \<Rightarrow> rm\<lparr>rm_bufs := []\<rparr> | Ulong _ \<Rightarrow> rm\<lparr>rm_bufl := []\<rparr>)
          \<lparr>rm_nx := nx, rm_ny := ny, rm_first_time := True\<rparr>
      else rm)"

definition out_buf :: "rot_mem \<Rightarrow> nat \<Rightarrow> 'a list \<Rightarrow> 'a::zero list" where
  "out_buf rm nelem buf = (if rm_first_time rm then replicate nelem 0 else buf)"

definition rotate_c :: "rot_mem \<Rightarrow> raster \<Rightarrow> nat \<Rightarrow> nat \<Rightarrow> int \<Rightarrow> (rot_mem \<times> raster) option" where
  "rotate_c rm iadr nx ny dir =
     (let rm1 = rot_resize rm iadr nx ny; nelem = nx * ny in
      case iadr of
        Uchar ip \<Rightarrow> map_option (\<lambda>b. (rm1\<lparr>rm_bufc := b, rm_first_time := False\<rparr>, Uchar b))
                      (copy_pix (rot_dir 1 nx ny dir) ip 0 (out_buf rm1 nelem (rm_bufc rm1)))
      | Ushort ip \<Rightarrow> map_option (\<lambda>b. (rm1\<lparr>rm_bufs := b, rm_first_time := False\<rparr>, Ushort b))
                      (copy_pix (rot_dir 2 nx ny dir) ip 0 (out_buf rm1 nelem (rm_bufs rm1)))
      | Ulong ip \<Rightarrow> map_option (\<lambda>b. (rm1\<lparr>rm_bufl := b, rm_first_time := False\<rparr>, Ulong b))
                      (copy_pix (rot_dir 4 nx ny dir) ip 0 (out_buf rm1 nelem (rm_bufl rm1))))"

text \<open>\<open>bcopy\<close> of \<open>n\<close> pixels, and the loop that copies \<open>rows\<close> rows with a step of \<open>ss\<close> in the source
  and \<open>ds\<close> in the destination.\<close>

definition bcopy :: "'a list \<Rightarrow> nat \<Rightarrow> 'a list \<Rightarrow> nat \<Rightarrow> nat \<Rightarrow> 'a list option" where
  "bcopy src ip dst op n =
     (if ip + n \<le> length src \<and> op + n \<le> length dst
      then Some (take op dst @ take n (drop ip src) @ drop (op + n) dst) else None)"

primrec copy_rows :: "nat \<Rightarrow> nat \<Rightarrow> 'a list \<Rightarrow> nat \<Rightarrow> nat \<Rightarrow> 'a list \<Rightarrow> nat \<Rightarrow> nat \<Rightarrow> 'a list option" where
  "copy_rows 0 n src ip ss dst op ds = Some dst"
| "copy_rows (Suc rows) n src ip ss dst op ds =
     (case bcopy src ip dst op n of None \<Rightarrow> None
      | Some dst' \<Rightarrow> copy_rows rows n src (ip + ss) ss dst' (op + ds) ds)"

definition REFERENCE_WIDTH :: nat where "REFERENCE_WIDTH = 64"

text \<open>The static variables of \<open>smcRectifyPage\<close> and those of \<open>rotate\<close>.\<close>

record rect_mem =
  rc_dpix_buf :: "32 word list"
  rc_nx :: int
  rc_ny :: int
  rc_first_time :: bool
  rc_rot :: rot_mem

text \<open>The layout compiled by default (\<open>KPNO\<close>).\<close>

definition rect_dir :: "int \<Rightarrow> int \<Rightarrow> int" where
  "rect_dir xs ys =
     (if xs = 0 \<and> ys = 0 then - 3
      else if xs \<noteq> 0 \<and> ys = 0 then 0
      else if xs = 0 \<and> ys \<noteq> 0 then - 2
      else - 4)"

definition rect_buf :: "rect_mem \<Rightarrow> int \<Rightarrow> int \<Rightarrow> rect_mem" where
  "rect_buf rc nx ny =
     (let rc1 = (if nx * ny \<noteq> rc_nx rc * rc_ny rc
                 then rc\<lparr>rc_dpix_buf := [], rc_nx := nx, rc_ny := ny, rc_first_time := True\<rparr> else rc)
      in if rc_first_time rc1 then rc1\<lparr>rc_dpix_buf := replicate (nat (nx * ny)) 0, rc_first_time := False\<rparr> else rc1)"

text \<open>One call of \<open>rotate\<close> on the display pixels and the copy of its result back to \<open>dpix\<close>.\<close>

definition rect_rotate :: "rect_mem \<Rightarrow> nat \<Rightarrow> nat \<Rightarrow> int \<Rightarrow> (rect_mem \<times> 32 word list) option" where
  "rect_rotate rc rowlen ny dir =
     (case rotate_c (rc_rot rc) (Ulong (rc_dpix_buf rc)) rowlen ny dir of
        Some (rm, Ulong adrop) \<Rightarrow>
          map_option (\<lambda>d. (rc\<lparr>rc_rot := rm, rc_dpix_buf := d\<rparr>, adrop)) (bcopy adrop 0 (rc_dpix_buf rc) 0 (rowlen * ny))
      | _ \<Rightarrow> None)"

text \<open>
  \<open>smcRectifyPage\<close> on the focal plane configuration of the page and its pixels.  A negative size
  of a row or a column, which \<open>bcopy\<close> would take for a huge one, is \<open>None\<close>.
\<close>

definition smcRectifyPage :: "bool \<Rightarrow> rect_mem \<Rightarrow> fpConfig_t \<Rightarrow> 32 word list \<Rightarrow> (rect_mem \<times> 32 word list) option" where
  "smcRectifyPage rotate_enable rc fp pix =
     (if \<not> rotate_enable then Some (rc, pix)
      else
        let nx = sint (fp_xSize fp); ny = sint (fp_ySize fp);
            rc1 = rect_buf rc nx ny;
            dir = rect_dir (sint (fp_xStart fp)) (sint (fp_yStart fp))
        in if dir = 0 then Some (rc1, pix)
           else if nx < int REFERENCE_WIDTH \<or> ny < 0 then None
           else
             let rowlen = nat (nx - int REFERENCE_WIDTH); rows = nat ny in
             case copy_rows rows rowlen pix 0 (rowlen + REFERENCE_WIDTH) (rc_dpix_buf rc1) 0 rowlen of
               None \<Rightarrow> None
             | Some dpix \<Rightarrow>
                 case (if 0 < dir then rect_rotate (rc1\<lparr>rc_dpix_buf := dpix\<rparr>) rowlen rows dir
                       else case rect_rotate (rc1\<lparr>rc_dpix_buf := dpix\<rparr>) rowlen rows (- dir) of
                              None \<Rightarrow> None
                            | Some (rc2, _) \<Rightarrow> rect_rotate rc2 rowlen rows 1) of
                   None \<Rightarrow> None
                 | Some (rc3, adrop) \<Rightarrow>
                     map_option (Pair rc3) (copy_rows rows rowlen adrop 0 rowlen pix 0 (rowlen + REFERENCE_WIDTH)))"

subsection \<open>The transformations\<close>

lemma copy_pix_Some:
  assumes "\<forall>k \<in> set ks. k < length ip" "op + length ks \<le> length buf"
  shows "copy_pix ks ip op buf = Some (take op buf @ map ((!) ip) ks @ drop (op + length ks) buf)"
  using assms
proof (induction ks arbitrary: op buf)
  case (Cons k ks)
  have "take (Suc op) (buf[op := ip ! k]) = take op buf @ [ip ! k]" using Cons.prems(2) by (simp add: take_Suc_conv_app_nth)
  then show ?case using Cons by simp
qed simp

lemma copy_pix_None:
  assumes "k \<in> set ks" "length ip \<le> k"
  shows "copy_pix ks ip op buf = None"
  using assms(1)
proof (induction ks arbitrary: op buf)
  case (Cons a ks)
  then show ?case using assms(2) by (cases "a = k") auto
qed simp

text \<open>A double loop over \<open>i < m\<close> and \<open>j < n\<close> writes its value for \<open>(i, j)\<close> at \<open>i * n + j\<close>.\<close>

lemma grid_length: "length [f i j. i \<leftarrow> [0..<m], j \<leftarrow> [0..<n]] = m * n"
  by (induction m) auto

lemma grid_nth:
  assumes "i < m" "j < n"
  shows "[f i j. i \<leftarrow> [0..<m], j \<leftarrow> [0..<n]] ! (i * n + j) = f i j"
  using assms
proof (induction m)
  case (Suc m)
  show ?case
  proof (cases "i = m")
    case True
    then show ?thesis using grid_length [of f n m] Suc.prems by (simp add: nth_append)
  next
    case False
    then have i: "i < m" using Suc.prems by simp
    have "i * n + j < m * n"
    proof -
      have "i * n + j < Suc i * n" using Suc.prems(2) by simp
      also have "\<dots> \<le> m * n" using i by (intro mult_le_mono1) simp
      finally show ?thesis .
    qed
    then show ?thesis using Suc.IH i Suc.prems grid_length [of f n m] by (simp add: nth_append)
  qed
qed simp

lemma rev_upt_Suc: "rev [Suc 0..<Suc n] = map (\<lambda>j. n - j) [0..<n]"
  by (rule nth_equalityI) (auto simp: rev_nth simp del: upt_Suc)

lemma rev_upt_0: "rev [0..<n] = map (\<lambda>j. n - 1 - j) [0..<n]"
  by (rule nth_equalityI) (auto simp: rev_nth)

definition rot_rows :: "int \<Rightarrow> nat \<Rightarrow> nat \<Rightarrow> nat" where
  "rot_rows dir nx ny = (if dir \<le> 2 then ny else nx)"

definition rot_cols :: "int \<Rightarrow> nat \<Rightarrow> nat \<Rightarrow> nat" where
  "rot_cols dir nx ny = (if dir \<le> 2 then nx else ny)"

text \<open>The row and the column of the input that a transformation takes to row \<open>r\<close> and column \<open>c\<close>.\<close>

definition src_row :: "int \<Rightarrow> nat \<Rightarrow> nat \<Rightarrow> nat \<Rightarrow> nat \<Rightarrow> nat" where
  "src_row dir nx ny r c = (if dir = 1 then r else if dir = 2 then ny - 1 - r else if dir = 3 then c else ny - 1 - c)"

definition src_col :: "int \<Rightarrow> nat \<Rightarrow> nat \<Rightarrow> nat \<Rightarrow> nat \<Rightarrow> nat" where
  "src_col dir nx ny r c = (if dir = 1 then nx - 1 - c else if dir = 2 then c else if dir = 3 then r else nx - 1 - r)"

lemma grid_cong:
  assumes "\<And>i j. i < m \<Longrightarrow> j < n \<Longrightarrow> f i j = g i j"
  shows "[f i j. i \<leftarrow> [0..<m], j \<leftarrow> [0..<n]] = [g i j. i \<leftarrow> [0..<m], j \<leftarrow> [0..<n]]"
  using assms by (intro arg_cong [where f = concat]) (auto intro!: map_cong)

lemma anti_offset:
  fixes nx :: nat
  assumes "r < nx" "c < ny"
  shows "(ny - c) * nx - r - 1 = (ny - 1 - c) * nx + (nx - 1 - r)"
proof -
  have "ny - c = Suc (ny - 1 - c)" using assms by simp
  then have "(ny - c) * nx = (ny - 1 - c) * nx + nx" by simp
  then show ?thesis using assms by simp
qed

definition dir_ok :: "nat \<Rightarrow> int \<Rightarrow> bool" where
  "dir_ok pixsize dir \<longleftrightarrow> (pixsize = 1 \<or> pixsize = 2 \<or> pixsize = 4) \<and> 1 \<le> dir \<and> dir \<le> 4 \<and> (pixsize = 2 \<longrightarrow> dir \<noteq> 3)"

lemma dir_cases: "dir_ok pixsize dir \<Longrightarrow> dir = 1 \<or> dir = 2 \<or> dir = 3 \<or> dir = 4"
  by (auto simp: dir_ok_def)

lemma rot_dir_grid:
  assumes "dir_ok pixsize dir"
  shows "rot_dir pixsize nx ny dir = [src_row dir nx ny r c * nx + src_col dir nx ny r c.
           r \<leftarrow> [0..<rot_rows dir nx ny], c \<leftarrow> [0..<rot_cols dir nx ny]]"
proof -
  have p: "pixsize = 1 \<or> pixsize = 2 \<or> pixsize = 4" "pixsize = 2 \<longrightarrow> dir \<noteq> 3" using assms by (simp_all add: dir_ok_def)
  consider "dir = 1" | "dir = 2" | "dir = 3" | "dir = 4" using dir_cases [OF assms] by blast
  then show ?thesis
  proof cases
    case 1
    have "rot_dir pixsize nx ny dir = [r * nx + (nx - c) - 1. r \<leftarrow> [0..<ny], c \<leftarrow> [0..<nx]]"
      using p 1 by (simp add: rot_dir_def flipx_def rev_upt_Suc o_def del: upt_Suc)
    also have "\<dots> = [r * nx + (nx - 1 - c). r \<leftarrow> [0..<ny], c \<leftarrow> [0..<nx]]" by (rule grid_cong) simp
    finally show ?thesis using 1 by (simp add: src_row_def src_col_def rot_rows_def rot_cols_def)
  next
    case 2
    then show ?thesis using p
      by (simp add: rot_dir_def flipy_def rev_upt_0 src_row_def src_col_def rot_rows_def rot_cols_def o_def)
  next
    case 3
    then show ?thesis using p
      by (auto simp: rot_dir_def transpose1_def src_row_def src_col_def rot_rows_def rot_cols_def)
  next
    case 4
    have "rot_dir pixsize nx ny dir = [(ny - c) * nx - r - 1. r \<leftarrow> [0..<nx], c \<leftarrow> [0..<ny]]"
      using p 4 by (simp add: rot_dir_def transpose2_def rev_upt_Suc o_def del: upt_Suc)
    also have "\<dots> = [(ny - 1 - c) * nx + (nx - 1 - r). r \<leftarrow> [0..<nx], c \<leftarrow> [0..<ny]]" by (rule grid_cong) (rule anti_offset)
    finally show ?thesis using 4 by (simp add: src_row_def src_col_def rot_rows_def rot_cols_def)
  qed
qed

lemma rot_size: "dir_ok pixsize dir \<Longrightarrow> rot_rows dir nx ny * rot_cols dir nx ny = nx * ny"
  by (simp add: rot_rows_def rot_cols_def)

lemma src_bounds:
  assumes "dir_ok pixsize dir" "r < rot_rows dir nx ny" "c < rot_cols dir nx ny"
  shows "src_row dir nx ny r c < ny" "src_col dir nx ny r c < nx"
  using assms dir_cases [OF assms(1)] by (auto simp: src_row_def src_col_def rot_rows_def rot_cols_def)

lemma offset_less: "r < m \<Longrightarrow> c < n \<Longrightarrow> r * n + c < m * (n::nat)"
proof -
  assume "r < m" "c < n"
  then have "r * n + c < Suc r * n" "Suc r * n \<le> m * n" by (simp, intro mult_le_mono1) simp
  then show ?thesis by simp
qed

lemma copy_pix_rot:
  assumes "dir_ok pixsize dir" "nx * ny \<le> length ip" "length buf = nx * ny"
  shows "\<exists>out. copy_pix (rot_dir pixsize nx ny dir) ip 0 buf = Some out \<and> length out = nx * ny
    \<and> (\<forall>r < rot_rows dir nx ny. \<forall>c < rot_cols dir nx ny.
         out ! (r * rot_cols dir nx ny + c) = ip ! (src_row dir nx ny r c * nx + src_col dir nx ny r c))"
proof -
  let ?ks = "rot_dir pixsize nx ny dir"
  note g = rot_dir_grid [OF assms(1), of nx ny]
  have l: "length ?ks = nx * ny" unfolding g grid_length by (rule rot_size [OF assms(1)])
  have b: "k < length ip" if mem: "k \<in> set ?ks" for k
  proof -
    obtain r c where "r < rot_rows dir nx ny" "c < rot_cols dir nx ny" and k: "k = src_row dir nx ny r c * nx + src_col dir nx ny r c"
      using mem unfolding g by auto
    then have "k < ny * nx" unfolding k by (intro offset_less src_bounds [OF assms(1)])
    then show ?thesis using assms(2) by (simp add: mult.commute)
  qed
  have "copy_pix ?ks ip 0 buf = Some (map ((!) ip) ?ks)" using copy_pix_Some [of ?ks ip 0 buf] b l assms(3) by simp
  moreover have "map ((!) ip) ?ks ! (r * rot_cols dir nx ny + c) = ip ! (src_row dir nx ny r c * nx + src_col dir nx ny r c)"
    if "r < rot_rows dir nx ny" "c < rot_cols dir nx ny" for r c
  proof -
    have "r * rot_cols dir nx ny + c < length ?ks" using offset_less [OF that] l rot_size [OF assms(1)] by simp
    moreover have "?ks ! (r * rot_cols dir nx ny + c) = src_row dir nx ny r c * nx + src_col dir nx ny r c"
      unfolding g by (rule grid_nth [OF that])
    ultimately show ?thesis by simp
  qed
  ultimately show ?thesis using l by auto
qed

text \<open>The invariant of the buffers between calls with the same type of pixels.\<close>

definition rm_wf :: "rot_mem \<Rightarrow> bool" where
  "rm_wf rm \<longleftrightarrow> rm_first_time rm \<or> length (rm_bufl rm) = rm_nx rm * rm_ny rm"

lemma rotate_c_Ulong:
  assumes "rm_wf rm" "1 \<le> dir" "dir \<le> 4" "nx * ny \<le> length ip"
  shows "\<exists>rm' out. rotate_c rm (Ulong ip) nx ny dir = Some (rm', Ulong out) \<and> rm_wf rm' \<and> length out = nx * ny
    \<and> (\<forall>r < rot_rows dir nx ny. \<forall>c < rot_cols dir nx ny.
         out ! (r * rot_cols dir nx ny + c) = ip ! (src_row dir nx ny r c * nx + src_col dir nx ny r c))"
proof -
  define rm1 where "rm1 = rot_resize rm (Ulong ip) nx ny"
  have s: "rm_nx rm1 * rm_ny rm1 = nx * ny" by (simp add: rm1_def rot_resize_def)
  have b: "length (out_buf rm1 (nx * ny) (rm_bufl rm1)) = nx * ny"
    using assms(1) by (auto simp: rm1_def rot_resize_def out_buf_def rm_wf_def)
  have d: "dir_ok 4 dir" using assms(2,3) by (simp add: dir_ok_def)
  obtain out where o: "copy_pix (rot_dir 4 nx ny dir) ip 0 (out_buf rm1 (nx * ny) (rm_bufl rm1)) = Some out" "length out = nx * ny"
      "\<forall>r < rot_rows dir nx ny. \<forall>c < rot_cols dir nx ny.
         out ! (r * rot_cols dir nx ny + c) = ip ! (src_row dir nx ny r c * nx + src_col dir nx ny r c)"
    using copy_pix_rot [OF d assms(4) b] by blast
  have "rotate_c rm (Ulong ip) nx ny dir = Some (rm1\<lparr>rm_bufl := out, rm_first_time := False\<rparr>, Ulong out)"
    using o(1) by (simp add: rotate_c_def Let_def rm1_def)
  moreover have "rm_wf (rm1\<lparr>rm_bufl := out, rm_first_time := False\<rparr>)" using o(2) s by (simp add: rm_wf_def)
  ultimately show ?thesis using o by blast
qed

text \<open>Twice the same transformation is the identity: a flip keeps the shape, a transposition swaps
  the sides.\<close>

lemma src_involution:
  assumes "1 \<le> dir" "dir \<le> 4" "r < ny" "c < nx"
  defines "nx' \<equiv> rot_cols dir nx ny" and "ny' \<equiv> rot_rows dir nx ny"
  shows "src_row dir nx' ny' r c < ny'" "src_col dir nx' ny' r c < nx'"
    "src_row dir nx ny (src_row dir nx' ny' r c) (src_col dir nx' ny' r c) = r"
    "src_col dir nx ny (src_row dir nx' ny' r c) (src_col dir nx' ny' r c) = c"
    "rot_cols dir nx' ny' = nx" "rot_rows dir nx' ny' = ny"
proof -
  have "dir = 1 \<or> dir = 2 \<or> dir = 3 \<or> dir = 4" using assms(1,2) by auto
  then show "src_row dir nx' ny' r c < ny'" "src_col dir nx' ny' r c < nx'"
    "src_row dir nx ny (src_row dir nx' ny' r c) (src_col dir nx' ny' r c) = r"
    "src_col dir nx ny (src_row dir nx' ny' r c) (src_col dir nx' ny' r c) = c"
    "rot_cols dir nx' ny' = nx" "rot_rows dir nx' ny' = ny"
    using assms(3,4) by (auto simp: src_row_def src_col_def rot_rows_def rot_cols_def nx'_def ny'_def)
qed

lemma raster_eqI:
  assumes "length xs = nx * ny" "length ys = nx * ny" "\<And>r c. r < ny \<Longrightarrow> c < nx \<Longrightarrow> xs ! (r * nx + c) = ys ! (r * nx + c)"
  shows "xs = ys"
proof (rule nth_equalityI)
  fix k assume "k < length xs"
  then have k: "k < ny * nx" using assms(1) by (simp add: mult.commute)
  then have "0 < nx" by (cases nx) auto
  then have "k div nx < ny" "k mod nx < nx" using k by (simp_all add: less_mult_imp_div_less)
  then show "xs ! k = ys ! k" using assms(3) [of "k div nx" "k mod nx"] by simp
qed (simp add: assms)

text \<open>Each of the four transformations of \<open>rotate\<close> undoes itself: applied to a 32-bit raster and
  then to its own result, with the sides swapped for the transpositions, it gives the raster back
  without a read or a write out of bounds, whatever the earlier calls with this type of pixel
  left in the buffers.\<close>

theorem rotate_c_involution:
  assumes "rm_wf rm" "1 \<le> dir" "dir \<le> 4" "length ip = nx * ny"
  shows "\<exists>rm' out rm''. rotate_c rm (Ulong ip) nx ny dir = Some (rm', Ulong out)
    \<and> rotate_c rm' (Ulong out) (rot_cols dir nx ny) (rot_rows dir nx ny) dir = Some (rm'', Ulong ip) \<and> rm_wf rm''"
proof -
  let ?nx = "rot_cols dir nx ny" and ?ny = "rot_rows dir nx ny"
  obtain rm' out where 1: "rotate_c rm (Ulong ip) nx ny dir = Some (rm', Ulong out)" "rm_wf rm'" "length out = nx * ny"
      "\<forall>r < ?ny. \<forall>c < ?nx. out ! (r * ?nx + c) = ip ! (src_row dir nx ny r c * nx + src_col dir nx ny r c)"
    using rotate_c_Ulong [OF assms(1-3), of nx ny ip] assms(4) by auto
  have size: "?nx * ?ny = nx * ny" by (simp add: rot_rows_def rot_cols_def)
  obtain rm'' out2 where 2: "rotate_c rm' (Ulong out) ?nx ?ny dir = Some (rm'', Ulong out2)" "rm_wf rm''" "length out2 = ?nx * ?ny"
      "\<forall>r < rot_rows dir ?nx ?ny. \<forall>c < rot_cols dir ?nx ?ny. out2 ! (r * rot_cols dir ?nx ?ny + c)
         = out ! (src_row dir ?nx ?ny r c * ?nx + src_col dir ?nx ?ny r c)"
    using rotate_c_Ulong [OF 1(2) assms(2,3), of ?nx ?ny out] 1(3) size by auto
  have "out2 = ip"
  proof (rule raster_eqI [of _ nx ny])
    show "length out2 = nx * ny" "length ip = nx * ny" using 2(3) size assms(4) by simp_all
    show "out2 ! (r * nx + c) = ip ! (r * nx + c)" if "r < ny" "c < nx" for r c
      using 2(4) 1(4) that src_involution [OF assms(2,3) that] by simp
  qed
  then show ?thesis using 1(1) 2(1,2) by blast
qed

theorem rotate_c_involution_witness:
  "\<exists>rm' out rm''. rotate_c \<lparr>rm_first_time = True, rm_nx = 0, rm_ny = 0, rm_bufc = [], rm_bufs = [], rm_bufl = []\<rparr>
       (Ulong [1, 2, 3, 4, 5, 6]) 3 2 4 = Some (rm', Ulong out)
     \<and> rotate_c rm' (Ulong out) 2 3 4 = Some (rm'', Ulong [1, 2, 3, 4, 5, 6]) \<and> rm_wf rm''"
  using rotate_c_involution [of "\<lparr>rm_first_time = True, rm_nx = 0, rm_ny = 0, rm_bufc = [], rm_bufs = [], rm_bufl = []\<rparr>"
      4 "[1, 2, 3, 4, 5, 6]" 3 2]
  by (simp add: rm_wf_def rot_cols_def rot_rows_def)

text \<open>The transposition of 16-bit pixels reads a row behind the raster.\<close>

lemma transpose1_Ushort_overrun:
  assumes "length ip = nx * ny" "0 < nx" "0 < ny"
  shows "rotate_c rm (Ushort ip) nx ny 3 = None"
proof -
  have "ny * nx \<in> set (rot_dir 2 nx ny 3)" using assms(2,3) by (auto simp: rot_dir_def transpose1_def intro!: bexI [of _ 0])
  then have "copy_pix (rot_dir 2 nx ny 3) ip op buf = None" for op buf
    by (rule copy_pix_None) (simp add: assms(1) mult.commute)
  then show ?thesis by (simp add: rotate_c_def Let_def)
qed

text \<open>The flag \<open>first_time\<close> is shared by the three buffers: after a raster of 32-bit pixels one of
  8-bit pixels of the same size is written through a null pointer.\<close>

lemma rotate_c_shared_flag:
  assumes "rotate_c rm (Ulong ip) nx ny dir = Some (rm', out)" "rm_bufc rm = []" "0 < nx" "0 < ny" "length ip' = nx * ny"
  shows "rotate_c rm' (Uchar ip') nx ny 1 = None"
proof -
  have f: "rm_bufc rm' = []" "\<not> rm_first_time rm'" "nx * ny = rm_nx rm' * rm_ny rm'"
    using assms(1,2) by (auto simp: rotate_c_def Let_def rot_resize_def)
  have d: "dir_ok 1 1" by (simp add: dir_ok_def)
  have "length (rot_dir 1 nx ny 1) = nx * ny" unfolding rot_dir_grid [OF d] grid_length by (rule rot_size [OF d])
  then obtain k ks where "rot_dir 1 nx ny 1 = k # ks" using assms(3,4) by (cases "rot_dir 1 nx ny 1") auto
  then show ?thesis using f by (simp add: rotate_c_def rot_resize_def out_buf_def Let_def)
qed

subsection \<open>Rectification\<close>

lemma bcopy_nth:
  assumes "ip + n \<le> length src" "op + n \<le> length dst"
  shows "\<exists>d. bcopy src ip dst op n = Some d \<and> length d = length dst
    \<and> (\<forall>k < length dst. d ! k = (if op \<le> k \<and> k < op + n then src ! (ip + (k - op)) else dst ! k))"
proof -
  have l: "min (length src - ip) n = n" "min (length dst) op = op" using assms by simp_all
  have "(take op dst @ take n (drop ip src) @ drop (op + n) dst) ! k
      = (if op \<le> k \<and> k < op + n then src ! (ip + (k - op)) else dst ! k)" if "k < length dst" for k
    using assms that l by (auto simp: nth_append)
  then show ?thesis using assms by (auto simp: bcopy_def)
qed

lemma copy_rows_nth:
  assumes "ip + rows * ss \<le> length src" "op + rows * ds \<le> length dst" "n \<le> ss" "n \<le> ds"
  shows "\<exists>d. copy_rows rows n src ip ss dst op ds = Some d \<and> length d = length dst \<and> (\<forall>k < op. d ! k = dst ! k)
    \<and> (\<forall>r < rows. \<forall>c < ds. d ! (op + r * ds + c) = (if c < n then src ! (ip + r * ss + c) else dst ! (op + r * ds + c)))"
  using assms(1,2)
proof (induction rows arbitrary: ip op dst)
  case (Suc rows)
  obtain d1 where d1: "bcopy src ip dst op n = Some d1" "length d1 = length dst"
      "\<And>k. k < length dst \<Longrightarrow> d1 ! k = (if op \<le> k \<and> k < op + n then src ! (ip + (k - op)) else dst ! k)"
    using bcopy_nth [of ip n src op dst] Suc.prems assms(3,4) by auto
  obtain d where d: "copy_rows rows n src (ip + ss) ss d1 (op + ds) ds = Some d" "length d = length d1" "\<And>k. k < op + ds \<Longrightarrow> d ! k = d1 ! k"
      "\<And>r c. r < rows \<Longrightarrow> c < ds \<Longrightarrow>
         d ! (op + ds + r * ds + c) = (if c < n then src ! (ip + ss + r * ss + c) else d1 ! (op + ds + r * ds + c))"
    using Suc.IH [of "ip + ss" "op + ds" d1] Suc.prems d1(2) by (auto simp: add.assoc)
  have "d ! (op + r * ds + c) = (if c < n then src ! (ip + r * ss + c) else dst ! (op + r * ds + c))" if r: "r < Suc rows" and c: "c < ds" for r c
  proof (cases r)
    case 0
    have "op + c < length dst" using c Suc.prems(2) by simp
    then show ?thesis using 0 c d(3) d1(3) [of "op + c"] assms(4) by auto
  next
    case (Suc r')
    have "r' * ds + c < rows * ds" using r c Suc by (intro offset_less) simp_all
    then have "op + ds + r' * ds + c < length dst" using Suc.prems(2) by simp
    then show ?thesis using Suc r c d(4) [of r' c] d1(3) assms(4) by (auto simp: add.assoc add.commute add.left_commute)
  qed
  moreover have "d ! k = dst ! k" if "k < op" for k using that d(3) d1(3) Suc.prems(2) by auto
  ultimately show ?case using d1 d by auto
qed simp

definition rc_wf :: "rect_mem \<Rightarrow> bool" where
  "rc_wf rc \<longleftrightarrow> rm_wf (rc_rot rc) \<and> (rc_first_time rc \<or> length (rc_dpix_buf rc) = nat (rc_nx rc * rc_ny rc))"

lemma rect_buf_wf:
  assumes "rc_wf rc"
  shows "rc_wf (rect_buf rc nx ny)" "length (rc_dpix_buf (rect_buf rc nx ny)) = nat (nx * ny)" "\<not> rc_first_time (rect_buf rc nx ny)"
    "rc_nx (rect_buf rc nx ny) * rc_ny (rect_buf rc nx ny) = nx * ny"
  using assms by (auto simp: rect_buf_def rc_wf_def Let_def)

text \<open>A call of \<open>rotate\<close> on a square raster at the start of \<open>dpix\<close>.\<close>

lemma rect_rotate_square:
  assumes "rm_wf (rc_rot rc)" "n * n \<le> length (rc_dpix_buf rc)" "1 \<le> dir" "dir \<le> 4"
  shows "\<exists>rc' out. rect_rotate rc n n dir = Some (rc', out) \<and> rm_wf (rc_rot rc') \<and> length (rc_dpix_buf rc') = length (rc_dpix_buf rc)
    \<and> rc_nx rc' = rc_nx rc \<and> rc_ny rc' = rc_ny rc \<and> rc_first_time rc' = rc_first_time rc \<and> length out = n * n
    \<and> (\<forall>k < n * n. rc_dpix_buf rc' ! k = out ! k)
    \<and> (\<forall>r < n. \<forall>c < n. out ! (r * n + c) = rc_dpix_buf rc ! (src_row dir n n r c * n + src_col dir n n r c))"
proof -
  have sq: "rot_rows dir n n = n" "rot_cols dir n n = n" by (simp_all add: rot_rows_def rot_cols_def)
  obtain rm' out where o: "rotate_c (rc_rot rc) (Ulong (rc_dpix_buf rc)) n n dir = Some (rm', Ulong out)" "rm_wf rm'" "length out = n * n"
      "\<forall>r < n. \<forall>c < n. out ! (r * n + c) = rc_dpix_buf rc ! (src_row dir n n r c * n + src_col dir n n r c)"
    using rotate_c_Ulong [OF assms(1,3,4,2)] unfolding sq by blast
  obtain d where d: "bcopy out 0 (rc_dpix_buf rc) 0 (n * n) = Some d" "length d = length (rc_dpix_buf rc)" "\<And>k. k < n * n \<Longrightarrow> d ! k = out ! k"
    using bcopy_nth [of 0 "n * n" out 0 "rc_dpix_buf rc"] o(3) assms(2) by auto
  have "rect_rotate rc n n dir = Some (rc\<lparr>rc_rot := rm', rc_dpix_buf := d\<rparr>, out)" using o(1) d(1) by (simp add: rect_rotate_def)
  then show ?thesis using o d by auto
qed

text \<open>Where the display pixel in row \<open>r\<close> and column \<open>c\<close> of the rectified raster comes from: a quarter
  turn, none, a half turn or the other quarter turn.\<close>

definition rect_src :: "int \<Rightarrow> int \<Rightarrow> nat \<Rightarrow> nat \<Rightarrow> nat \<Rightarrow> nat \<times> nat" where
  "rect_src xs ys n r c =
     (if xs = 0 \<and> ys = 0 then (n - 1 - c, r)
      else if ys = 0 then (r, c)
      else if xs = 0 then (n - 1 - r, n - 1 - c)
      else (c, n - 1 - r))"

lemma rect_src_flips:
  assumes "rect_dir xs ys \<noteq> 0" "r < n" "c < n"
  shows "rect_src xs ys n r c = (src_row (- rect_dir xs ys) n n (src_row 1 n n r c) (src_col 1 n n r c),
      src_col (- rect_dir xs ys) n n (src_row 1 n n r c) (src_col 1 n n r c))"
  using assms by (auto simp: rect_src_def rect_dir_def src_row_def src_col_def split: if_splits)

lemma rect_src_bound: "r < n \<Longrightarrow> c < n \<Longrightarrow> fst (rect_src xs ys n r c) < n \<and> snd (rect_src xs ys n r c) < n"
  by (auto simp: rect_src_def)

text \<open>Both calls of \<open>rotate\<close>.\<close>

lemma rect_rotate_twice:
  assumes "rm_wf (rc_rot rc)" "n * n \<le> length (rc_dpix_buf rc)" "rect_dir xs ys \<noteq> 0"
  shows "\<exists>rc1 out1 rc2 out. rect_rotate rc n n (- rect_dir xs ys) = Some (rc1, out1) \<and> rect_rotate rc1 n n 1 = Some (rc2, out)
    \<and> rm_wf (rc_rot rc2) \<and> length (rc_dpix_buf rc2) = length (rc_dpix_buf rc) \<and> rc_nx rc2 = rc_nx rc \<and> rc_ny rc2 = rc_ny rc
    \<and> rc_first_time rc2 = rc_first_time rc \<and> length out = n * n
    \<and> (\<forall>r < n. \<forall>c < n. out ! (r * n + c) = rc_dpix_buf rc ! (fst (rect_src xs ys n r c) * n + snd (rect_src xs ys n r c)))"
proof -
  let ?d = "- rect_dir xs ys"
  have d: "1 \<le> ?d" "?d \<le> 4" using assms(3) by (auto simp: rect_dir_def split: if_splits)
  obtain rc1 out1 where 1: "rect_rotate rc n n ?d = Some (rc1, out1)" "rm_wf (rc_rot rc1)" "length (rc_dpix_buf rc1) = length (rc_dpix_buf rc)"
      "rc_nx rc1 = rc_nx rc" "rc_ny rc1 = rc_ny rc" "rc_first_time rc1 = rc_first_time rc" "\<forall>k < n * n. rc_dpix_buf rc1 ! k = out1 ! k"
      "\<forall>r < n. \<forall>c < n. out1 ! (r * n + c) = rc_dpix_buf rc ! (src_row ?d n n r c * n + src_col ?d n n r c)"
    using rect_rotate_square [OF assms(1,2) d] by blast
  obtain rc2 out where 2: "rect_rotate rc1 n n 1 = Some (rc2, out)" "rm_wf (rc_rot rc2)" "length (rc_dpix_buf rc2) = length (rc_dpix_buf rc1)"
      "rc_nx rc2 = rc_nx rc1" "rc_ny rc2 = rc_ny rc1" "rc_first_time rc2 = rc_first_time rc1" "length out = n * n"
      "\<forall>r < n. \<forall>c < n. out ! (r * n + c) = rc_dpix_buf rc1 ! (src_row 1 n n r c * n + src_col 1 n n r c)"
    using rect_rotate_square [OF 1(2), of n 1] assms(2) 1(3) by auto
  have "out ! (r * n + c) = rc_dpix_buf rc ! (fst (rect_src xs ys n r c) * n + snd (rect_src xs ys n r c))" if rc: "r < n" "c < n" for r c
  proof -
    have b: "src_row 1 n n r c < n" "src_col 1 n n r c < n" using rc by (simp_all add: src_row_def src_col_def)
    have "out ! (r * n + c) = out1 ! (src_row 1 n n r c * n + src_col 1 n n r c)" using 2(8) 1(7) rc offset_less [OF b] by simp
    then show ?thesis using 1(8) b rect_src_flips [OF assms(3) rc] by simp
  qed
  then show ?thesis using 1 2 by auto
qed

text \<open>\<open>pix'\<close> is the raster \<open>pix\<close> of \<open>n\<close> rows with its display area turned and its reference strip kept.\<close>

definition turned :: "fpConfig_t \<Rightarrow> nat \<Rightarrow> 32 word list \<Rightarrow> 32 word list \<Rightarrow> bool" where
  "turned fp n pix pix' \<longleftrightarrow>
     (let w = n + REFERENCE_WIDTH; src = rect_src (sint (fp_xStart fp)) (sint (fp_yStart fp)) n
      in length pix' = length pix
         \<and> (\<forall>r < n. \<forall>c < n. pix' ! (r * w + c) = pix ! (fst (src r c) * w + snd (src r c)))
         \<and> (\<forall>r < n. \<forall>c < w. n \<le> c \<longrightarrow> pix' ! (r * w + c) = pix ! (r * w + c)))"

definition square_raster :: "fpConfig_t \<Rightarrow> nat \<Rightarrow> 32 word list \<Rightarrow> bool" where
  "square_raster fp n pix \<longleftrightarrow> sint (fp_xSize fp) = int (n + REFERENCE_WIDTH) \<and> sint (fp_ySize fp) = int n \<and> length pix = (n + REFERENCE_WIDTH) * n"

lemma smcRectifyPage_turned:
  assumes "rc_wf rc" "square_raster fp n pix"
  shows "\<exists>rc' pix'. smcRectifyPage True rc fp pix = Some (rc', pix') \<and> rc_wf rc' \<and> turned fp n pix pix'"
proof -
  define w where "w = n + REFERENCE_WIDTH"
  define src where "src = rect_src (sint (fp_xStart fp)) (sint (fp_yStart fp)) n"
  have sz: "sint (fp_xSize fp) = int (n + REFERENCE_WIDTH)" "sint (fp_ySize fp) = int n" "length pix = (n + REFERENCE_WIDTH) * n"
    using assms(2) by (simp_all add: square_raster_def)
  let ?xs = "sint (fp_xStart fp)" and ?ys = "sint (fp_yStart fp)"
  define rc1 where "rc1 = rect_buf rc (int w) (int n)"
  note b = rect_buf_wf [OF assms(1), of "int w" "int n", folded rc1_def]
  have lw: "length pix = n * w" "int n * int w = int (n * w)" using sz(3) by (simp_all add: w_def mult.commute)
  have nn: "n * n \<le> n * w" by (intro mult_le_mono2) (simp add: w_def)
  have l1: "length (rc_dpix_buf rc1) = n * w" using b(2) by (simp add: mult.commute [of "int w"] lw(2) del: of_nat_mult)
  show ?thesis
  proof (cases "rect_dir ?xs ?ys = 0")
    case True
    then have "smcRectifyPage True rc fp pix = Some (rc1, pix)"
      using sz(1,2) by (simp add: smcRectifyPage_def Let_def rc1_def w_def)
    moreover have "src r c = (r, c)" for r c using True by (simp add: src_def rect_src_def rect_dir_def split: if_splits)
    ultimately show ?thesis using b(1) by (simp add: turned_def Let_def flip: src_def w_def)
  next
    case False
    obtain dpix where d: "copy_rows n n pix 0 w (rc_dpix_buf rc1) 0 n = Some dpix" "length dpix = n * w"
        "\<And>r c. r < n \<Longrightarrow> c < n \<Longrightarrow> dpix ! (r * n + c) = pix ! (r * w + c)"
      using copy_rows_nth [of 0 n w pix 0 n "rc_dpix_buf rc1" n] lw(1) l1 nn by (auto simp: w_def)
    obtain rc2 out1 rc3 out where o: "rect_rotate (rc1\<lparr>rc_dpix_buf := dpix\<rparr>) n n (- rect_dir ?xs ?ys) = Some (rc2, out1)"
        "rect_rotate rc2 n n 1 = Some (rc3, out)" "rm_wf (rc_rot rc3)" "length (rc_dpix_buf rc3) = n * w" "rc_nx rc3 = rc_nx rc1"
        "rc_ny rc3 = rc_ny rc1" "rc_first_time rc3 = rc_first_time rc1" "length out = n * n"
        "\<And>r c. r < n \<Longrightarrow> c < n \<Longrightarrow> out ! (r * n + c) = dpix ! (fst (src r c) * n + snd (src r c))"
      using rect_rotate_twice [of "rc1\<lparr>rc_dpix_buf := dpix\<rparr>" n ?xs ?ys] b(1) d(2) nn False by (auto simp: rc_wf_def src_def)
    obtain pix' where p: "copy_rows n n out 0 n pix 0 w = Some pix'" "length pix' = length pix"
        "\<And>r c. r < n \<Longrightarrow> c < w \<Longrightarrow> pix' ! (r * w + c) = (if c < n then out ! (r * n + c) else pix ! (r * w + c))"
      using copy_rows_nth [of 0 n n out 0 w pix n] o(8) lw(1) by (auto simp: w_def)
    have neg: "rect_dir ?xs ?ys < 0" using False by (auto simp: rect_dir_def split: if_splits)
    have "smcRectifyPage True rc fp pix = Some (rc3, pix')"
      using False neg sz(1,2) d(1) o(1,2) p(1) by (simp add: smcRectifyPage_def Let_def rc1_def w_def)
    moreover have "rc_wf rc3" using o(3-7) b(4) lw by (simp add: rc_wf_def mult.commute flip: of_nat_mult)
    moreover have "pix' ! (r * w + c) = pix ! (fst (src r c) * w + snd (src r c))" if rc: "r < n" "c < n" for r c
      using p(3) [of r c] o(9) [OF rc] d(3) rect_src_bound [OF rc, of ?xs ?ys] rc by (simp add: src_def w_def)
    ultimately show ?thesis using p(2,3) by (auto simp: turned_def Let_def simp flip: src_def w_def)
  qed
qed

text \<open>\<open>smcRectifyPage\<close> turns the display area of a page whose display area is square: depending on
  the quadrant of the focal plane the rectified pixel comes from the place that a quarter turn to
  one side, no turn, a half turn or a quarter turn to the other side gives.  The reference strip
  on the right keeps its pixels in every row, nothing is read or written out of bounds, and the
  static buffers are fit for the next page, of whatever size.\<close>

theorem smcRectifyPage_turns:
  assumes "rc_wf rc" "sint (fp_xSize fp) = int (n + REFERENCE_WIDTH)" "sint (fp_ySize fp) = int n" "length pix = (n + REFERENCE_WIDTH) * n"
  defines "w \<equiv> n + REFERENCE_WIDTH"
    and "src \<equiv> rect_src (sint (fp_xStart fp)) (sint (fp_yStart fp)) n"
  shows "\<exists>rc' pix'. smcRectifyPage True rc fp pix = Some (rc', pix') \<and> rc_wf rc' \<and> length pix' = length pix
    \<and> (\<forall>r < n. \<forall>c < n. pix' ! (r * w + c) = pix ! (fst (src r c) * w + snd (src r c)))
    \<and> (\<forall>r < n. \<forall>c < w. n \<le> c \<longrightarrow> pix' ! (r * w + c) = pix ! (r * w + c))"
  using smcRectifyPage_turned [of rc fp n pix] assms by (auto simp: turned_def square_raster_def Let_def)

definition sample_fp :: fpConfig_t where
  "sample_fp = zero_fpConfig\<lparr>fp_xSize := 66, fp_ySize := 2\<rparr>"

definition sample_rc :: rect_mem where
  "sample_rc = \<lparr>rc_dpix_buf = [], rc_nx = 0, rc_ny = 0, rc_first_time = True,
     rc_rot = \<lparr>rm_first_time = True, rm_nx = 0, rm_ny = 0, rm_bufc = [], rm_bufs = [], rm_bufl = []\<rparr>\<rparr>"

theorem smcRectifyPage_turns_witness:
  "\<exists>rc' pix'. smcRectifyPage True sample_rc sample_fp ([1, 2] @ replicate 64 9 @ [3, 4] @ replicate 64 8) = Some (rc', pix')
     \<and> rc_wf rc' \<and> pix' ! 0 = 3 \<and> pix' ! 1 = 1 \<and> pix' ! 2 = 9"
proof -
  let ?pix = "[1, 2] @ replicate 64 9 @ [3, 4] @ replicate 64 8 :: 32 word list"
  have a: "rc_wf sample_rc" "sint (fp_xSize sample_fp) = int (2 + REFERENCE_WIDTH)" "sint (fp_ySize sample_fp) = int 2"
      "length ?pix = (2 + REFERENCE_WIDTH) * 2" "sint (fp_xStart sample_fp) = 0" "sint (fp_yStart sample_fp) = 0"
    by (simp_all add: rc_wf_def rm_wf_def sample_rc_def sample_fp_def zero_fpConfig_def REFERENCE_WIDTH_def)
  obtain rc' pix' where p: "smcRectifyPage True sample_rc sample_fp ?pix = Some (rc', pix')" "rc_wf rc'"
      "\<forall>r < 2. \<forall>c < 2. pix' ! (r * 66 + c) = ?pix ! (fst (rect_src 0 0 2 r c) * 66 + snd (rect_src 0 0 2 r c))"
      "\<forall>r < 2. \<forall>c < 66. 2 \<le> c \<longrightarrow> pix' ! (r * 66 + c) = ?pix ! (r * 66 + c)"
    using smcRectifyPage_turns [OF a(1-4)] a(5,6) by (auto simp: REFERENCE_WIDTH_def)
  have "pix' ! 0 = 3" "pix' ! 1 = 1" "pix' ! 2 = 9"
    using p(3) [rule_format, of 0 0] p(3) [rule_format, of 0 1] p(4) [rule_format, of 0 2] by (simp_all add: rect_src_def nth_append nth_Cons' numeral_2_eq_2)
  then show ?thesis using p(1,2) by blast
qed

end
