(* ===== verification/Rectify.thy ===== *)
theory Rectify
  imports Collector Rotate
begin

section \<open>Rectifying an exposure (smcmgr/smcRectify.c)\<close>

text \<open>
  \<open>smcRectify\<close> walks through the pages of an exposure, attaches each one, rectifies its raster and
  detaches it.  The state holds the world, the cache, the static list of \<open>smcNextByExpID\<close>, the static
  buffers of \<open>smcRectifyPage\<close> and the pixels of each segment.
\<close>

record rect_state =
  rs_w :: world
  rs_smc :: smCache_t
  rs_el :: exp_list
  rs_rc :: rect_mem
  rs_mem :: "int \<Rightarrow> 32 word list"

definition rect_pixels :: "proc_env \<Rightarrow> bool \<Rightarrow> world \<Rightarrow> smcPage_t \<Rightarrow> rect_state \<Rightarrow> rect_state option" where
  "rect_pixels env rotate_enable w p st =
     (if \<not> rotate_enable then Some st
      else case (smcGetFPConfig env w p, w_map w (pe_pid env) (seg_addr env p)) of
        (Some fp, Some sid) \<Rightarrow>
          (if smcGetPageData env (Some p) = 0 then None
           else map_option (\<lambda>(rc, pix). st\<lparr>rs_rc := rc, rs_mem := (rs_mem st)(sid := pix)\<rparr>)
                  (smcRectifyPage rotate_enable (rs_rc st) fp (rs_mem st sid)))
      | _ \<Rightarrow> None)"

definition rect_one :: "proc_env \<Rightarrow> bool \<Rightarrow> nat \<Rightarrow> rect_state \<Rightarrow> rect_state option" where
  "rect_one env rotate_enable i st =
     (case smcAttach env (rs_w st) (sc_pdata (rs_smc st) ! i) of (w1, p) \<Rightarrow>
        case (if pg_type p = TY_DATA \<or> pg_type p = TY_VOID then rect_pixels env rotate_enable w1 p st else Some st) of
          None \<Rightarrow> None
        | Some st1 \<Rightarrow>
            map_option (\<lambda>(w2, smc2). st1\<lparr>rs_w := w2, rs_smc := smc2\<rparr>) (smcDetach env w1 (page_at i p (rs_smc st)) i False))"

partial_function (option) smcRectify :: "proc_env \<Rightarrow> bool \<Rightarrow> cdouble \<Rightarrow> rect_state \<Rightarrow> rect_state option" where
  "smcRectify env rotate_enable expID st =
     (case smcNextByExpID env (rs_w st) (rs_smc st) (rs_el st) expID of
        None \<Rightarrow> None
      | Some (w1, smc1, el1, page) \<Rightarrow>
          (let st1 = st\<lparr>rs_w := w1, rs_smc := smc1, rs_el := el1\<rparr>
           in case page of
                None \<Rightarrow> Some st1
              | Some i \<Rightarrow> (case rect_one env rotate_enable i st1 of
                    None \<Rightarrow> None
                  | Some st2 \<Rightarrow> smcRectify env rotate_enable expID st2)))"

subsection \<open>One page\<close>

text \<open>A page that the process can attach: the kernel maps segment \<open>sid\<close>, whose header is there.\<close>

definition page_ready :: "proc_env \<Rightarrow> world \<Rightarrow> smcPage_t \<Rightarrow> int \<Rightarrow> smcSegment_t \<Rightarrow> bool" where
  "page_ready env w p sid h \<longleftrightarrow>
     (let os = pe_os env; a = shmat os sid in
      pg_memKey p \<noteq> 0 \<and> pg_size p \<noteq> 0 \<and> shmget os (pg_memKey p) (pg_size p) False = sid \<and> sid \<noteq> ERR \<and> a \<noteq> ERR
      \<and> fopen_append os (pg_lockFile p) \<and> length (pg_lockFile p) < 128 \<and> a + pe_sizeof_seg env + 1 \<noteq> 0
      \<and> length (pg_pstate p) = MAX_PROCS \<and> pe_pid env \<noteq> 0 \<and> length (listed (smStateClean (pe_alive env) (pg_pstate p))) < MAX_PROCS
      \<and> w_shm w sid = Some h \<and> pg_initialized p \<noteq> 0 \<and> pg_ac_locked p = 0)"

abbreviation is_raster :: "smcPage_t \<Rightarrow> bool" where
  "is_raster p \<equiv> pg_type p = TY_DATA \<or> pg_type p = TY_VOID"

lemma rect_one_turns:
  assumes i: "i < length (sc_pdata (rs_smc st))" "p = sc_pdata (rs_smc st) ! i" and ready: "page_ready env (rs_w st) p sid h"
    and rc: "rc_wf (rs_rc st)" and sq: "is_raster p \<Longrightarrow> square_raster (seg_fpCfg h) n (rs_mem st sid)"
  shows "\<exists>st' ps. rect_one env True i st = Some st' \<and> rs_smc st' = page_at i (p\<lparr>pg_pstate := ps\<rparr>) (rs_smc st) \<and> smStateGetAttached (pe_pid env) ps = 0
    \<and> w_shm (rs_w st') = w_shm (rs_w st) \<and> rs_el st' = rs_el st \<and> rc_wf (rs_rc st')
    \<and> (if is_raster p then turned (seg_fpCfg h) n (rs_mem st sid) (rs_mem st' sid) else rs_mem st' sid = rs_mem st sid)
    \<and> (\<forall>s. s \<noteq> sid \<longrightarrow> rs_mem st' s = rs_mem st s)"
proof -
  note g = ready [unfolded page_ready_def Let_def]
  obtain w1 p1 where at: "smcAttach env (rs_w st) p = (w1, p1)" by fastforce
  have a: "seg_addr env p1 = shmat (pe_os env) sid" "w_map w1 (pe_pid env) (shmat (pe_os env) sid) = Some sid" "w_shm w1 = w_shm (rs_w st)"
      "\<exists>ps. p1 = p\<lparr>pg_pstate := ps\<rparr>"
    using smcAttach_at [OF _ _ _ _ refl _ _ _ _ _ _ at, of sid h] g by auto
  then obtain ps1 where p1: "p1 = p\<lparr>pg_pstate := ps1\<rparr>" by blast
  have "\<exists>st1. (if is_raster p1 then rect_pixels env True w1 p1 st else Some st) = Some st1 \<and> rs_smc st1 = rs_smc st \<and> rs_el st1 = rs_el st \<and> rc_wf (rs_rc st1)
      \<and> (if is_raster p then turned (seg_fpCfg h) n (rs_mem st sid) (rs_mem st1 sid) else rs_mem st1 sid = rs_mem st sid)
      \<and> (\<forall>s. s \<noteq> sid \<longrightarrow> rs_mem st1 s = rs_mem st s)"
  proof (cases "is_raster p")
    case True
    obtain rc' pix' where "smcRectifyPage True (rs_rc st) (seg_fpCfg h) (rs_mem st sid) = Some (rc', pix')" "rc_wf rc'" "turned (seg_fpCfg h) n (rs_mem st sid) pix'"
      using smcRectifyPage_turned [OF rc sq [OF True]] by blast
    moreover have "smcGetFPConfig env w1 p1 = Some (seg_fpCfg h)" using a g by (simp add: smcGetFPConfig_def deref_def)
    moreover have "smcGetPageData env (Some p1) \<noteq> 0" using a(1) g p1 by (simp add: smcGetPageData_def)
    ultimately show ?thesis using a(1,2) p1 True by (auto simp: rect_pixels_def)
  next
    case False
    then show ?thesis using p1 rc by simp
  qed
  then obtain st1 where s1: "(if is_raster p1 then rect_pixels env True w1 p1 st else Some st) = Some st1" "rs_smc st1 = rs_smc st" "rs_el st1 = rs_el st" "rc_wf (rs_rc st1)"
      "if is_raster p then turned (seg_fpCfg h) n (rs_mem st sid) (rs_mem st1 sid) else rs_mem st1 sid = rs_mem st sid"
      "\<forall>s. s \<noteq> sid \<longrightarrow> rs_mem st1 s = rs_mem st s" by blast
  obtain w2 ps2 where d: "smcDetach env w1 (page_at i p1 (rs_smc st)) i False = Some (w2, page_at i (p1\<lparr>pg_pstate := ps2\<rparr>) (page_at i p1 (rs_smc st)))" "same_shm w1 w2" "smStateGetAttached (pe_pid env) ps2 = 0"
    using smcDetach_keep [of i "page_at i p1 (rs_smc st)" p1 env w1] i(1) g p1 by (auto simp: page_at_def)
  have "rect_one env True i st = Some (st1\<lparr>rs_w := w2, rs_smc := page_at i (p\<lparr>pg_pstate := ps2\<rparr>) (rs_smc st)\<rparr>)"
    unfolding rect_one_def i(2) [symmetric] at prod.case s1(1) option.case d(1) option.map by (simp add: p1 page_at_def)
  then show ?thesis using s1 d(2,3) a(3) by (auto simp: same_shm_def)
qed

subsection \<open>All pages\<close>

lemma next_by_list:
  assumes "el_plist el = map Some ms @ replicate (MAX_ID_PAGES - length ms) None" "el_listID el = expID" "0 \<le> expID"
    and "length ms < MAX_ID_PAGES" "el_curPage el < length ms"
  shows "smcNextByExpID env w smc el expID =
    (if Suc (el_curPage el) < length ms then Some (w, smc, el\<lparr>el_curPage := Suc (el_curPage el)\<rparr>, Some (ms ! Suc (el_curPage el)))
     else Some (w, smc, el\<lparr>el_listID := 0\<rparr>, None))"
  using assms by (auto simp: smcNextByExpID_def nth_append)

lemma next_first:
  assumes "el_listID el \<noteq> expID" "0 \<le> expID" "ms = exp_pages smc expID" "0 < length ms" "length ms < MAX_ID_PAGES"
  shows "\<exists>el'. smcNextByExpID env w smc el expID = Some (w, smc, el', Some (ms ! 0)) \<and> el_listID el' = expID \<and> el_curPage el' = 0
    \<and> el_plist el' = map Some ms @ replicate (MAX_ID_PAGES - length ms) None"
proof -
  let ?el = "\<lparr>el_listID = expID, el_npages = length ms, el_curPage = 0, el_plist = map Some ms @ replicate (MAX_ID_PAGES - length ms) None\<rparr>"
  have "exp_collect smc expID 0 (exp_list_init\<lparr>el_listID := expID\<rparr>) = Some ?el"
    using assms(3-5) exp_collect_init [of smc expID] by (simp add: Let_def)
  then have "smcNextByExpID env w smc el expID = Some (w, smc, ?el, Some (ms ! 0))"
    using assms by (simp add: smcNextByExpID_def nth_append)
  then show ?thesis by auto
qed

text \<open>What is asked of a page of the exposure, and what becomes of its raster.\<close>

definition rect_ready :: "proc_env \<Rightarrow> rect_state \<Rightarrow> (nat \<Rightarrow> int) \<Rightarrow> (nat \<Rightarrow> smcSegment_t) \<Rightarrow> (nat \<Rightarrow> nat) \<Rightarrow> nat \<Rightarrow> bool" where
  "rect_ready env st sid h n i \<longleftrightarrow>
     i < length (sc_pdata (rs_smc st)) \<and> page_ready env (rs_w st) (sc_pdata (rs_smc st) ! i) (sid i) (h i)
     \<and> (is_raster (sc_pdata (rs_smc st) ! i) \<longrightarrow> square_raster (seg_fpCfg (h i)) (n i) (rs_mem st (sid i)))"

definition rect_done :: "proc_env \<Rightarrow> rect_state \<Rightarrow> (nat \<Rightarrow> int) \<Rightarrow> (nat \<Rightarrow> smcSegment_t) \<Rightarrow> (nat \<Rightarrow> nat) \<Rightarrow> nat set \<Rightarrow> rect_state \<Rightarrow> bool" where
  "rect_done env st sid h n I st' \<longleftrightarrow>
     (\<forall>i \<in> I. if is_raster (sc_pdata (rs_smc st) ! i) then turned (seg_fpCfg (h i)) (n i) (rs_mem st (sid i)) (rs_mem st' (sid i))
              else rs_mem st' (sid i) = rs_mem st (sid i))
     \<and> (\<forall>s. s \<notin> sid ` I \<longrightarrow> rs_mem st' s = rs_mem st s)
     \<and> (\<forall>i \<in> I. \<exists>ps. sc_pdata (rs_smc st') ! i = (sc_pdata (rs_smc st) ! i)\<lparr>pg_pstate := ps\<rparr> \<and> smStateGetAttached (pe_pid env) ps = 0)
     \<and> rs_smc st' = (rs_smc st)\<lparr>sc_pdata := sc_pdata (rs_smc st')\<rparr>
     \<and> (\<forall>j. j \<notin> I \<longrightarrow> sc_pdata (rs_smc st') ! j = sc_pdata (rs_smc st) ! j) \<and> w_shm (rs_w st') = w_shm (rs_w st)"

lemma rect_step:
  assumes "rect_ready env st sid h n i" "rc_wf (rs_rc st)" and others: "\<forall>j \<in> J. rect_ready env st sid h n j \<and> j \<noteq> i \<and> sid j \<noteq> sid i"
  shows "\<exists>st'. rect_one env True i st = Some st' \<and> rc_wf (rs_rc st') \<and> rs_el st' = rs_el st \<and> rect_done env st sid h n {i} st'
    \<and> (\<forall>j \<in> J. rect_ready env st' sid h n j \<and> sc_pdata (rs_smc st') ! j = sc_pdata (rs_smc st) ! j \<and> rs_mem st' (sid j) = rs_mem st (sid j))"
proof -
  let ?p = "sc_pdata (rs_smc st) ! i"
  obtain st' ps where r: "rect_one env True i st = Some st'" "rs_smc st' = page_at i (?p\<lparr>pg_pstate := ps\<rparr>) (rs_smc st)"
      "w_shm (rs_w st') = w_shm (rs_w st)" "rs_el st' = rs_el st" "rc_wf (rs_rc st')"
      "if is_raster ?p then turned (seg_fpCfg (h i)) (n i) (rs_mem st (sid i)) (rs_mem st' (sid i)) else rs_mem st' (sid i) = rs_mem st (sid i)"
      "\<forall>s. s \<noteq> sid i \<longrightarrow> rs_mem st' s = rs_mem st s" "smStateGetAttached (pe_pid env) ps = 0"
    using rect_one_turns [of i st ?p env "sid i" "h i" "n i"] assms(1,2) by (auto simp: rect_ready_def)
  have pg: "sc_pdata (rs_smc st') ! j = sc_pdata (rs_smc st) ! j" if "j \<noteq> i" for j using that r(2) by (simp add: page_at_def)
  have "rect_ready env st' sid h n j \<and> sc_pdata (rs_smc st') ! j = sc_pdata (rs_smc st) ! j \<and> rs_mem st' (sid j) = rs_mem st (sid j)" if "j \<in> J" for j
    using others that r(2,3,7) pg [of j] by (auto simp: rect_ready_def page_ready_def Let_def page_at_def)
  moreover have "rect_done env st sid h n {i} st'" using r(2,3,6,7,8) assms(1) by (auto simp: rect_done_def page_at_def rect_ready_def)
  ultimately show ?thesis using r(1,4,5) by blast
qed

lemma rect_done_Cons:
  assumes "rect_done env st sid h n {i} s2" "rect_done env s2 sid h n J s3" "i \<notin> J" "sid i \<notin> sid ` J"
  shows "rect_done env st sid h n (insert i J) s3"
proof -
  have i: "rs_mem s3 (sid i) = rs_mem s2 (sid i)" using assms(2,4) by (simp add: rect_done_def)
  have "rs_mem s2 (sid j) = rs_mem st (sid j) \<and> sc_pdata (rs_smc s2) ! j = sc_pdata (rs_smc st) ! j" if "j \<in> J" for j
  proof -
    have "sid j \<noteq> sid i" "j \<noteq> i" using that assms(3,4) by (metis image_eqI) (use that assms(3) in blast)
    then show ?thesis using assms(1) by (simp add: rect_done_def)
  qed
  moreover have "\<exists>ps. sc_pdata (rs_smc s3) ! i = (sc_pdata (rs_smc st) ! i)\<lparr>pg_pstate := ps\<rparr> \<and> smStateGetAttached (pe_pid env) ps = 0"
    using assms(1-3) by (simp add: rect_done_def)
  moreover have c: "rs_smc s2 = (rs_smc st)\<lparr>sc_pdata := sc_pdata (rs_smc s2)\<rparr>" "rs_smc s3 = (rs_smc s2)\<lparr>sc_pdata := sc_pdata (rs_smc s3)\<rparr>"
    using assms(1,2) by (simp_all add: rect_done_def)
  have "rs_smc s3 = (rs_smc st)\<lparr>sc_pdata := sc_pdata (rs_smc s3)\<rparr>" by (subst c(2), subst c(1)) simp
  ultimately show ?thesis using assms(1,2) i by (auto simp: rect_done_def)
qed

text \<open>One round of the loop, with the rounds behind it.\<close>

lemma rect_round:
  assumes nx: "smcNextByExpID env (rs_w st) (rs_smc st) (rs_el st) expID = Some (rs_w st, rs_smc st, el1, Some i)"
    and ready: "\<forall>j \<in> insert i J. rect_ready env st sid h n j" and rc: "rc_wf (rs_rc st)" and new: "i \<notin> J" "sid i \<notin> sid ` J"
    and rest: "\<And>s2. rs_el s2 = el1 \<Longrightarrow> rc_wf (rs_rc s2) \<Longrightarrow> \<forall>j \<in> J. rect_ready env s2 sid h n j
      \<Longrightarrow> \<exists>s3. smcRectify env True expID s2 = Some s3 \<and> rect_done env s2 sid h n J s3"
  shows "\<exists>st'. smcRectify env True expID st = Some st' \<and> rect_done env st sid h n (insert i J) st'"
proof -
  define s1 where "s1 = st\<lparr>rs_el := el1\<rparr>"
  have r1: "rect_ready env s1 sid h n j" if "j \<in> insert i J" for j
    using bspec [OF ready that] by (simp add: s1_def rect_ready_def)
  have "\<forall>j \<in> J. rect_ready env s1 sid h n j \<and> j \<noteq> i \<and> sid j \<noteq> sid i" using r1 new by (metis image_eqI insertI2)
  moreover have "rect_ready env s1 sid h n i" "rc_wf (rs_rc s1)" using r1 rc by (simp_all add: s1_def)
  ultimately obtain s2 where s2: "rect_one env True i s1 = Some s2" "rc_wf (rs_rc s2)" "rs_el s2 = el1" "rect_done env s1 sid h n {i} s2"
      "\<forall>j \<in> J. rect_ready env s2 sid h n j"
    using rect_step [of env s1 sid h n i J] by (auto simp: s1_def)
  obtain s3 where s3: "smcRectify env True expID s2 = Some s3" "rect_done env s2 sid h n J s3" using rest s2 by blast
  have "smcRectify env True expID st = Some s3" using nx s2(1) s3(1) by (subst smcRectify.simps) (simp add: Let_def s1_def)
  moreover have "rs_smc s1 = rs_smc st" "rs_mem s1 = rs_mem st" "rs_w s1 = rs_w st" by (simp_all add: s1_def)
  then have "rect_done env st sid h n {i} s2" using s2(4) unfolding rect_done_def by metis
  ultimately show ?thesis using rect_done_Cons s3(2) new by blast
qed

lemma distinct_nth_drop:
  assumes "distinct ms" "c < length ms" "inj_on sid (set ms)"
  shows "set (drop c ms) = insert (ms ! c) (set (drop (Suc c) ms))" "ms ! c \<notin> set (drop (Suc c) ms)" "sid (ms ! c) \<notin> sid ` set (drop (Suc c) ms)"
proof -
  have d: "drop c ms = ms ! c # drop (Suc c) ms" using assms(2) by (simp add: Cons_nth_drop_Suc)
  have "distinct (drop c ms)" using assms(1) by simp
  then show new: "ms ! c \<notin> set (drop (Suc c) ms)" unfolding d by simp
  show "set (drop c ms) = insert (ms ! c) (set (drop (Suc c) ms))" by (simp add: d)
  show "sid (ms ! c) \<notin> sid ` set (drop (Suc c) ms)"
  proof
    assume "sid (ms ! c) \<in> sid ` set (drop (Suc c) ms)"
    then obtain x where x: "sid (ms ! c) = sid x" "x \<in> set (drop (Suc c) ms)" by blast
    moreover have "x \<in> set ms" using x(2) by (rule in_set_dropD)
    ultimately show False using new inj_onD [OF assms(3) x(1)] nth_mem [OF assms(2)] by simp
  qed
qed

lemma rect_rest:
  assumes "el_plist (rs_el st) = map Some ms @ replicate (MAX_ID_PAGES - length ms) None" "el_listID (rs_el st) = expID" "0 \<le> expID" "length ms < MAX_ID_PAGES"
    and "el_curPage (rs_el st) < length ms" "rc_wf (rs_rc st)" "distinct ms" "inj_on sid (set ms)"
    and "\<forall>i \<in> set (drop (Suc (el_curPage (rs_el st))) ms). rect_ready env st sid h n i"
  shows "\<exists>st'. smcRectify env True expID st = Some st' \<and> rect_done env st sid h n (set (drop (Suc (el_curPage (rs_el st))) ms)) st'"
  using assms
proof (induction "length ms - el_curPage (rs_el st)" arbitrary: st)
  case 0
  then show ?case by simp
next
  case (Suc m)
  let ?c = "Suc (el_curPage (rs_el st))"
  show ?case
  proof (cases "?c < length ms")
    case False
    have "smcRectify env True expID st = Some (st\<lparr>rs_el := (rs_el st)\<lparr>el_listID := 0\<rparr>\<rparr>)"
      using next_by_list [OF Suc.prems(1-5), of env "rs_w st" "rs_smc st"] False by (subst smcRectify.simps) (simp add: Let_def)
    then show ?thesis using False by (simp add: rect_done_def)
  next
    case True
    have nx: "smcNextByExpID env (rs_w st) (rs_smc st) (rs_el st) expID = Some (rs_w st, rs_smc st, (rs_el st)\<lparr>el_curPage := ?c\<rparr>, Some (ms ! ?c))"
      using next_by_list [OF Suc.prems(1-5), of env "rs_w st" "rs_smc st"] True by simp
    note d = distinct_nth_drop [OF Suc.prems(7) True Suc.prems(8)]
    have m: "m = length ms - ?c" using Suc.hyps(2) by simp
    show ?thesis unfolding d(1)
    proof (rule rect_round [OF nx _ Suc.prems(6) d(2,3)])
      show "\<forall>j \<in> insert (ms ! ?c) (set (drop (Suc ?c) ms)). rect_ready env st sid h n j" using Suc.prems(9) unfolding d(1) .
    next
      fix s2 assume s2: "rs_el s2 = (rs_el st)\<lparr>el_curPage := ?c\<rparr>" "rc_wf (rs_rc s2)" "\<forall>j \<in> set (drop (Suc ?c) ms). rect_ready env s2 sid h n j"
      then show "\<exists>s3. smcRectify env True expID s2 = Some s3 \<and> rect_done env s2 sid h n (set (drop (Suc ?c) ms)) s3"
        using Suc.hyps(1) [of s2] m Suc.prems True by simp
    qed
  qed
qed

text \<open>C14.  \<open>smcRectify\<close> returns and rectifies an exposure: when each page of the exposure can be attached, has its own
  segment and, if it is a raster, a square display area, then every raster is turned as its quadrant
  asks, whatever was rectified before, and every page of the exposure is detached again.  The meta-data of the exposure, the
  segments of other exposures, all other pages and all headers are left as they were; of the cache itself
  only the table of attached processes in the pages of the exposure changes.\<close>

theorem smcRectify_turns_exposure:
  assumes new: "el_listID (rs_el st) \<noteq> expID" "0 \<le> expID" and ms: "ms = exp_pages (rs_smc st) expID" "0 < length ms" "length ms < MAX_ID_PAGES"
    and rc: "rc_wf (rs_rc st)" and sid: "inj_on sid (set ms)" and ready: "\<forall>i \<in> set ms. rect_ready env st sid h n i"
  shows "\<exists>st'. smcRectify env True expID st = Some st' \<and> rect_done env st sid h n (set ms) st'"
proof -
  obtain el1 where el: "smcNextByExpID env (rs_w st) (rs_smc st) (rs_el st) expID = Some (rs_w st, rs_smc st, el1, Some (ms ! 0))" "el_listID el1 = expID"
      "el_curPage el1 = 0" "el_plist el1 = map Some ms @ replicate (MAX_ID_PAGES - length ms) None"
    using next_first [OF new ms] by blast
  have dist: "distinct ms" by (simp add: ms(1) exp_pages_def)
  note d = distinct_nth_drop [OF dist ms(2) sid, unfolded drop_0]
  show ?thesis unfolding d(1)
  proof (rule rect_round [OF el(1) _ rc d(2,3)])
    show "\<forall>j \<in> insert (ms ! 0) (set (drop (Suc 0) ms)). rect_ready env st sid h n j" using ready unfolding d(1) .
  next
    fix s2 assume "rs_el s2 = el1" "rc_wf (rs_rc s2)" "\<forall>j \<in> set (drop (Suc 0) ms). rect_ready env s2 sid h n j"
    then show "\<exists>s3. smcRectify env True expID s2 = Some s3 \<and> rect_done env s2 sid h n (set (drop (Suc 0) ms)) s3"
      using rect_rest [of s2 ms expID sid env h n] el new(2) ms(2,3) dist sid by simp
  qed
qed

subsection \<open>An exposure of one page\<close>

definition rect_page :: smcPage_t where
  "rect_page = sample_page\<lparr>pg_initialized := 1, pg_type := TY_DATA\<rparr>"

definition rect_sample :: rect_state where
  "rect_sample = \<lparr>rs_w = sample_world\<lparr>w_shm := (w_shm sample_world)(5 \<mapsto> zero_segment\<lparr>seg_fpCfg := sample_fp\<rparr>)\<rparr>,
     rs_smc = sample_cache\<lparr>sc_pdata := (sc_pdata sample_cache)[0 := rect_page], sc_top := 1\<rparr>, rs_el = exp_list_init\<lparr>el_listID := 5\<rparr>,
     rs_rc = sample_rc, rs_mem = (\<lambda>_. [1, 2] @ replicate 64 9 @ [3, 4] @ replicate 64 8)\<rparr>"

theorem smcRectify_turns_exposure_witness:
  "\<exists>st'. smcRectify sample_proc True 0 rect_sample = Some st' \<and> rs_mem st' 5 ! 0 = 3 \<and> rs_mem st' 6 ! 0 = 1"
proof -
  have len: "0 < length (sc_pdata sample_cache)" by (simp add: MAX_SEGS_def)
  have pages: "[0] = exp_pages (rs_smc rect_sample) 0"
    using len by (simp add: exp_pages_def rect_sample_def exp_match_def rect_page_def smcEqualExpID_def EXPID_TOL_def)
  have p: "sc_pdata (rs_smc rect_sample) ! 0 = rect_page" using len by (simp add: rect_sample_def)
  have rc: "rc_wf (rs_rc rect_sample)" by (simp add: rect_sample_def sample_rc_def rc_wf_def rm_wf_def)
  have sq: "square_raster sample_fp 2 (rs_mem rect_sample 5)"
    by (simp add: square_raster_def rect_sample_def sample_fp_def zero_fpConfig_def REFERENCE_WIDTH_def)
  have "page_ready sample_proc (rs_w rect_sample) rect_page 5 (zero_segment\<lparr>seg_fpCfg := sample_fp\<rparr>)"
    by (simp add: page_ready_def rect_page_def rect_sample_def sample_page_def zero_page_def sample_proc_def sample_os_def ERR_def MAX_PROCS_def)
  then have ready: "\<forall>i \<in> set [0]. rect_ready sample_proc rect_sample (\<lambda>_. 5) (\<lambda>_. zero_segment\<lparr>seg_fpCfg := sample_fp\<rparr>) (\<lambda>_. 2) i"
    using p sq len by (simp add: rect_ready_def) (simp add: rect_sample_def)
  obtain st' where "smcRectify sample_proc True 0 rect_sample = Some st'"
      "rect_done sample_proc rect_sample (\<lambda>_. 5) (\<lambda>_. zero_segment\<lparr>seg_fpCfg := sample_fp\<rparr>) (\<lambda>_. 2) (set [0]) st'"
    using smcRectify_turns_exposure [OF _ _ pages _ _ rc _ ready] by (auto simp: rect_sample_def MAX_ID_PAGES_def exp_list_init_def)
  moreover from this(2) have "turned sample_fp 2 (rs_mem rect_sample 5) (rs_mem st' 5)" "rs_mem st' 6 = rs_mem rect_sample 6"
    using p by (auto simp: rect_done_def rect_page_def)
  then have "rs_mem st' 5 ! 0 = 3" "rs_mem st' 6 ! 0 = 1"
    by (auto simp: turned_def Let_def rect_src_def REFERENCE_WIDTH_def sample_fp_def zero_fpConfig_def rect_sample_def nth_append numeral_2_eq_2)
  ultimately show ?thesis by blast
qed

end
