(* ===== verification/VmCache.thy ===== *)
theory VmCache
  imports Prelude "HOL-Library.Monad_Syntax"
begin

section \<open>The virtual memory cache of the DCA (mosdca/vmcache.c)\<close>

text \<open>
  The DCA maps image files into memory through a cache of file segments.  The segments are the
  elements of a doubly linked list, the most recently used one at its head; when space is needed,
  unreferenced segments are unmapped from the tail.

  \<^item> The descriptors of the segments are in a store \<open>vm_heap\<close>; an address without a descriptor is not
    accessible, and the null pointer is 0.  A descriptor that has been freed is not in the store any more:
    the functions that go on reading it have no defined result.
  \<^item> The open files, and what \<open>fstat\<close> tells of them, are in \<open>vm_fds\<close>.
  \<^item> The calls \<open>mmap\<close>, \<open>munmap\<close>, \<open>mlock\<close>, \<open>madvise\<close>, \<open>msync\<close> and \<open>close\<close> are recorded in \<open>vm_trace\<close>;
    \<open>ve_mmap\<close> and \<open>ve_calloc\<close> give the results of the kernel and the allocator, by the number of calls
    made before.
  \<^item> \<open>unsigned long\<close> has 32 bits (the program is built with \<^verbatim>\<open>-m32\<close>), and so have \<open>long\<close> and the numbers of
    files and devices; \<open>mmap\<close> reports a failure with the address \<open>MAP_FAILED\<close>.  A result \<open>None\<close> is an
    access outside the store, to a freed descriptor or outside a buffer, or a loop that does not end.
\<close>

unbundle bit_operations_syntax

type_synonym ulong = "32 word"

definition VM_READWRITE :: "32 word" where "VM_READWRITE = 2"
definition VM_READONLY :: "32 word" where "VM_READONLY = 1"
definition VM_ASYNC :: "32 word" where "VM_ASYNC = 8"
definition VM_LOCKFILE :: "32 word" where "VM_LOCKFILE = 32"
definition VM_DESTROYREGION :: "32 word" where "VM_DESTROYREGION = 64"
definition VM_CANCELREFCNT :: "32 word" where "VM_CANCELREFCNT = 128"
definition READAHEAD :: int where "READAHEAD = 32768"
definition SZ_NAME :: nat where "SZ_NAME = 64"
definition MAP_FAILED :: addr_t where "MAP_FAILED = -1"

definition vm_flag :: "32 word \<Rightarrow> 32 word \<Rightarrow> bool" where
  "vm_flag flags f \<longleftrightarrow> flags AND f \<noteq> 0"

subsection \<open>State\<close>

record vm_segment =
  sg_next :: nat
  sg_prev :: nat
  sg_refcnt :: int
  sg_addr :: addr_t
  sg_fd :: int
  sg_inode :: ulong
  sg_device :: ulong
  sg_offset :: ulong
  sg_nbytes :: ulong

type_synonym vm_store = "nat \<Rightarrow> vm_segment option"

record vm_stat =
  vs_ino :: ulong
  vs_dev :: ulong
  vs_size :: ulong

datatype vm_event = Mmap addr_t ulong bool int ulong | Munmap addr_t ulong | Mlock addr_t ulong | Dontneed addr_t ulong
  | Willneed addr_t int | Msync addr_t ulong bool | CloseFd int

record vmcache =
  vm_segment_head :: nat
  vm_segment_tail :: nat
  vm_cache_initialized :: bool
  vm_cache_enabled :: bool
  vm_cacheused :: ulong
  vm_cachesize :: ulong
  vm_physmem :: ulong
  vm_lockpages :: bool
  vm_pagesize :: ulong
  vm_heap :: vm_store
  vm_fds :: "int \<Rightarrow> vm_stat option"
  vm_trace :: "vm_event list"

record vm_env =
  ve_open :: "string \<Rightarrow> int"
  ve_stat :: "string \<Rightarrow> vm_stat option"
  ve_mmap :: "nat \<Rightarrow> addr_t"
  ve_calloc :: "nat \<Rightarrow> nat"
  ve_munmap :: "addr_t \<Rightarrow> ulong \<Rightarrow> bool"
  ve_msync :: "addr_t \<Rightarrow> ulong \<Rightarrow> bool"
  ve_unset :: addr_t
  ve_physpages :: ulong
  ve_getpagesize :: ulong

definition vm_log :: "vm_event \<Rightarrow> vmcache \<Rightarrow> vmcache" where
  "vm_log e v = v\<lparr>vm_trace := vm_trace v @ [e]\<rparr>"

text \<open>An assignment to a field of a descriptor, and one behind a test of the pointer.\<close>

definition set_seg :: "nat \<Rightarrow> (vm_segment \<Rightarrow> vm_segment) \<Rightarrow> vm_store \<Rightarrow> vm_store option" where
  "set_seg a f h = (case h a of None \<Rightarrow> None | Some s \<Rightarrow> Some (h(a \<mapsto> f s)))"

definition set_seg_if :: "nat \<Rightarrow> (vm_segment \<Rightarrow> vm_segment) \<Rightarrow> vm_store \<Rightarrow> vm_store option" where
  "set_seg_if a f h = (if a = 0 then Some h else set_seg a f h)"

text \<open>Following the links from \<open>a\<close> to the first descriptor with a property.\<close>

partial_function (option) find_seg :: "(vm_segment \<Rightarrow> bool) \<Rightarrow> vm_store \<Rightarrow> nat \<Rightarrow> nat option" where
  "find_seg P h a =
     (if a = 0 then Some 0
      else case h a of None \<Rightarrow> None | Some s \<Rightarrow> if P s then Some a else find_seg P h (sg_next s))"

definition same_file :: "vm_stat \<Rightarrow> vm_segment \<Rightarrow> bool" where
  "same_file st s \<longleftrightarrow> sg_inode s = vs_ino st \<and> sg_device s = vs_dev st"

text \<open>The first and the last byte of the memory pages of a region.\<close>

definition vm_span :: "ulong \<Rightarrow> ulong \<Rightarrow> ulong \<Rightarrow> ulong \<times> ulong" where
  "vm_span pagesize offset nbytes =
     (let x1 = offset + nbytes - 1 in (offset - offset mod pagesize, (x1 - x1 mod pagesize) + pagesize - 1))"

subsection \<open>Releasing a segment\<close>

definition vm_unlink :: "nat \<Rightarrow> vmcache \<Rightarrow> vmcache option" where
  "vm_unlink sp v =
     do { s \<leftarrow> vm_heap v sp;
          h1 \<leftarrow> set_seg_if (sg_next s) (\<lambda>n. n\<lparr>sg_prev := sg_prev s\<rparr>) (vm_heap v);
          s1 \<leftarrow> h1 sp;
          h2 \<leftarrow> set_seg_if (sg_prev s1) (\<lambda>p. p\<lparr>sg_next := sg_next s1\<rparr>) h1;
          s2 \<leftarrow> h2 sp;
          Some (v\<lparr>vm_heap := h2,
            vm_segment_head := (if vm_segment_head v = sp then sg_next s2 else vm_segment_head v),
            vm_segment_tail := (if vm_segment_tail v = sp then sg_prev s2 else vm_segment_tail v)\<rparr>) }"

definition vm_free :: "nat \<Rightarrow> vmcache \<Rightarrow> vmcache" where
  "vm_free sp v = v\<lparr>vm_heap := (vm_heap v)(sp := None)\<rparr>"

definition vm_uncache :: "vm_env \<Rightarrow> vmcache \<Rightarrow> nat \<Rightarrow> 32 word \<Rightarrow> (int \<times> vmcache) option" where
  "vm_uncache env v sp flags =
     (case vm_heap v sp of None \<Rightarrow> None
      | Some s \<Rightarrow>
          let r = (if sg_refcnt s - 1 < 0 \<or> vm_flag flags VM_CANCELREFCNT then 0 else sg_refcnt s - 1);
              v1 = v\<lparr>vm_heap := (vm_heap v)(sp \<mapsto> s\<lparr>sg_refcnt := r\<rparr>)\<rparr>
          in if r = 0 \<and> (vm_flag flags VM_DESTROYREGION \<or> \<not> vm_cache_enabled v) then
               let v2 = (if vm_cache_enabled v then vm_log (Dontneed (sg_addr s) (sg_nbytes s)) v1 else v1);
                   v3 = vm_log (Munmap (sg_addr s) (sg_nbytes s)) v2
               in map_option (\<lambda>v4. (if ve_munmap env (sg_addr s) (sg_nbytes s) then 0 else -1, vm_free sp v4))
                    (vm_unlink sp (v3\<lparr>vm_cacheused := vm_cacheused v - sg_nbytes s\<rparr>))
             else Some (0, v1))"

partial_function (option) reserve_loop :: "vm_env \<Rightarrow> ulong \<Rightarrow> vmcache \<Rightarrow> ulong \<Rightarrow> nat \<Rightarrow> (ulong \<times> vmcache) option" where
  "reserve_loop env nbytes v freespace sp =
     (if sp = 0 \<or> nbytes < freespace then Some (freespace, v)
      else case vm_heap v sp of None \<Rightarrow> None
      | Some s \<Rightarrow>
          if sg_refcnt s \<noteq> 0 then reserve_loop env nbytes v freespace (sg_prev s)
          else
            let v1 = vm_log (Munmap (sg_addr s) (sg_nbytes s)) (vm_log (Dontneed (sg_addr s) (sg_nbytes s)) v);
                used = vm_cacheused v - sg_nbytes s
            in case vm_unlink sp (v1\<lparr>vm_cacheused := used\<rparr>) of None \<Rightarrow> None
               | Some v2 \<Rightarrow>
                   (case vm_heap (vm_free sp v2) sp of None \<Rightarrow> None
                    | Some s' \<Rightarrow> reserve_loop env nbytes (vm_free sp v2) (vm_cachesize v - used) (sg_prev s')))"

definition vm_reservespace :: "vm_env \<Rightarrow> vmcache \<Rightarrow> ulong \<Rightarrow> (int \<times> vmcache) option" where
  "vm_reservespace env v nbytes =
     (if \<not> vm_cache_enabled v then Some (0, v)
      else map_option (\<lambda>(freespace, v1). (if nbytes \<le> freespace then 0 else -1, v1))
             (reserve_loop env nbytes v (vm_cachesize v - vm_cacheused v) (vm_segment_tail v)))"

partial_function (option) vm_close_loop :: "vm_env \<Rightarrow> vmcache \<Rightarrow> vmcache option" where
  "vm_close_loop env v =
     (if vm_segment_head v = 0 then Some v
      else case vm_uncache env v (vm_segment_head v) (VM_DESTROYREGION OR VM_CANCELREFCNT) of None \<Rightarrow> None
      | Some (_, v1) \<Rightarrow>
          (case vm_heap v1 (vm_segment_head v) of None \<Rightarrow> None
           | Some s \<Rightarrow>
               vm_close_loop env
                 (case vm_fds v1 (sg_fd s) of
                    Some st \<Rightarrow> if same_file st s then vm_log (CloseFd (sg_fd s)) (v1\<lparr>vm_fds := (vm_fds v1)(sg_fd s := None)\<rparr>) else v1
                  | None \<Rightarrow> v1)))"

definition vm_closecache :: "vm_env \<Rightarrow> vmcache \<Rightarrow> vmcache option" where
  "vm_closecache env v =
     (if \<not> vm_cache_initialized v then Some v
      else map_option (\<lambda>v1. v1\<lparr>vm_cache_initialized := False\<rparr>) (vm_close_loop env v))"

subsection \<open>Caching a region\<close>

text \<open>The loop counts in an \<open>int\<close> and asks for at most \<open>chunk\<close> bytes at a time.\<close>

function readahead_loop :: "addr_t \<Rightarrow> ulong \<Rightarrow> int \<Rightarrow> int \<Rightarrow> vm_event list option" where
  "readahead_loop buf nbytes chunk n =
     (if n < uint nbytes then
        (if chunk \<le> 0 \<or> 2 ^ 31 \<le> n + chunk then None
         else let nb = sint (word_of_int (uint nbytes - n) :: 32 word) in
              map_option (\<lambda>es. Willneed (buf + n) (if chunk < nb then chunk else nb) # es) (readahead_loop buf nbytes chunk (n + chunk)))
      else Some [])"
  by pat_completeness auto
termination by (relation "measure (\<lambda>(buf, nbytes, chunk, n). nat (uint nbytes - n))") auto

declare readahead_loop.simps [simp del]

definition vm_readahead :: "vmcache \<Rightarrow> addr_t \<Rightarrow> ulong \<Rightarrow> vmcache option" where
  "vm_readahead v addr nbytes =
     (if 2 ^ 31 \<le> READAHEAD * uint (vm_pagesize v) then None
      else map_option (\<lambda>es. v\<lparr>vm_trace := vm_trace v @ es\<rparr>) (readahead_loop addr nbytes (READAHEAD * uint (vm_pagesize v)) 0))"

text \<open>Moving a segment to the head of the list; the tail is set only if there is none.\<close>

definition vm_tohead :: "nat \<Rightarrow> vmcache \<Rightarrow> vmcache option" where
  "vm_tohead sp v =
     (if vm_segment_head v = sp then Some v
      else do { s \<leftarrow> vm_heap v sp;
                h1 \<leftarrow> set_seg_if (sg_next s) (\<lambda>n. n\<lparr>sg_prev := sg_prev s\<rparr>) (vm_heap v);
                s1 \<leftarrow> h1 sp;
                h2 \<leftarrow> set_seg_if (sg_prev s1) (\<lambda>p. p\<lparr>sg_next := sg_next s1\<rparr>) h1;
                h3 \<leftarrow> set_seg sp (\<lambda>s. s\<lparr>sg_next := vm_segment_head v, sg_prev := 0\<rparr>) h2;
                h4 \<leftarrow> set_seg_if (vm_segment_head v) (\<lambda>n. n\<lparr>sg_prev := sp\<rparr>) h3;
                Some (v\<lparr>vm_heap := h4, vm_segment_head := sp\<rparr>) })"

definition vm_insert :: "nat \<Rightarrow> vm_segment \<Rightarrow> vmcache \<Rightarrow> vmcache option" where
  "vm_insert sp s v =
     map_option (\<lambda>h. v\<lparr>vm_heap := h, vm_segment_head := sp, vm_cacheused := vm_cacheused v + sg_nbytes s,
         vm_segment_tail := (if vm_segment_tail v = 0 then sp else vm_segment_tail v)\<rparr>)
       (set_seg_if (vm_segment_head v) (\<lambda>n. n\<lparr>sg_prev := sp\<rparr>) ((vm_heap v)(sp \<mapsto> s\<lparr>sg_next := vm_segment_head v, sg_prev := 0\<rparr>)))"

text \<open>The code behind the label \<open>refresh\<close>.\<close>

definition region_refresh :: "nat \<Rightarrow> addr_t \<Rightarrow> ulong \<Rightarrow> ulong \<Rightarrow> ulong \<Rightarrow> vmcache \<Rightarrow> (addr_t \<times> vmcache) option" where
  "region_refresh sp addr vm_offset vm_nbytes offset v =
     do { v1 \<leftarrow> vm_tohead sp v;
          let v1 = (if vm_segment_head v \<noteq> sp \<and> vm_segment_tail v1 = 0 then v1\<lparr>vm_segment_tail := sp\<rparr> else v1);
          v2 \<leftarrow> (if vm_cache_enabled v1 then vm_readahead v1 addr vm_nbytes else Some v1);
          h \<leftarrow> set_seg sp (\<lambda>s. s\<lparr>sg_refcnt := sg_refcnt s + 1\<rparr>) (vm_heap v2);
          Some (addr + uint (offset - vm_offset), v2\<lparr>vm_heap := h\<rparr>) }"

definition covers :: "vm_segment \<Rightarrow> ulong \<Rightarrow> bool" where
  "covers s x \<longleftrightarrow> sg_offset s \<le> x \<and> x < sg_offset s + sg_nbytes s"

definition vm_cacheregion :: "vm_env \<Rightarrow> vmcache \<Rightarrow> int \<Rightarrow> ulong \<Rightarrow> ulong \<Rightarrow> 32 word \<Rightarrow> (addr_t \<times> vmcache) option" where
  "vm_cacheregion env v fd offset nbytes acmode =
     (case vm_fds v fd of None \<Rightarrow> Some (0, v)
      | Some st \<Rightarrow>
          let (x0, x1) = vm_span (vm_pagesize v) offset nbytes; vm_nbytes = x1 - x0 + 1 in
          do { a \<leftarrow> find_seg (\<lambda>s. same_file st s \<and> covers s x0) (vm_heap v) (vm_segment_head v);
               if a \<noteq> 0 then
                 do { s \<leftarrow> vm_heap v a;
                      if covers s x1 then region_refresh a (ve_unset env) (sg_offset s) (sg_nbytes s) offset v else Some (0, v) }
               else
                 do { (_, v1) \<leftarrow> vm_reservespace env v vm_nbytes;
                      let addr = ve_mmap env (length (vm_trace v1));
                      let v2 = vm_log (Mmap addr vm_nbytes (acmode = VM_READWRITE) fd x0) v1;
                      if addr = 0 then Some (0, v2)
                      else
                        do { let v3 = (if vm_lockpages v2 \<and> vm_cache_enabled v2 then vm_log (Mlock addr vm_nbytes) v2 else v2);
                             let sp = ve_calloc env (length (vm_trace v3));
                             if sp = 0 then Some (0, vm_log (Munmap addr vm_nbytes) v3)
                             else
                               do { v4 \<leftarrow> vm_insert sp \<lparr>sg_next = 0, sg_prev = 0, sg_refcnt = 0, sg_addr = addr, sg_fd = fd, sg_inode = vs_ino st,
                                      sg_device = vs_dev st, sg_offset = x0, sg_nbytes = vm_nbytes\<rparr> v3;
                                    region_refresh sp addr x0 vm_nbytes offset v4 } } } })"

definition vm_uncacheregion :: "vm_env \<Rightarrow> vmcache \<Rightarrow> int \<Rightarrow> ulong \<Rightarrow> ulong \<Rightarrow> 32 word \<Rightarrow> (int \<times> vmcache) option" where
  "vm_uncacheregion env v fd offset nbytes flags =
     (case vm_fds v fd of None \<Rightarrow> Some (-1, v)
      | Some st \<Rightarrow>
          do { sp \<leftarrow> find_seg (\<lambda>s. same_file st s \<and> sg_offset s = fst (vm_span (vm_pagesize v) offset nbytes)) (vm_heap v) (vm_segment_head v);
               if sp = 0 then Some (-1, v) else vm_uncache env v sp flags })"

definition vm_refreshregion :: "vm_env \<Rightarrow> vmcache \<Rightarrow> int \<Rightarrow> ulong \<Rightarrow> ulong \<Rightarrow> (int \<times> vmcache) option" where
  "vm_refreshregion env v fd offset nbytes =
     (if \<not> vm_cache_enabled v then Some (0, v)
      else case vm_fds v fd of None \<Rightarrow> Some (-1, v)
      | Some st \<Rightarrow>
          let (x0, x1) = vm_span (vm_pagesize v) offset nbytes in
          do { sp \<leftarrow> find_seg (\<lambda>s. same_file st s \<and> sg_offset s = x0) (vm_heap v) (vm_segment_head v);
               if sp = 0 then Some (-1, v)
               else map_option (\<lambda>v1. (0, vm_log (Willneed (ve_unset env) (uint (x1 - x0 + 1))) v1)) (vm_tohead sp v) })"

subsection \<open>Whole files\<close>

text \<open>The loops of \<open>vm_uncachefile\<close> and \<open>vm_uncachefd\<close>.\<close>

partial_function (option) uncache_loop :: "vm_env \<Rightarrow> vm_stat \<Rightarrow> 32 word \<Rightarrow> vmcache \<Rightarrow> int \<Rightarrow> nat \<Rightarrow> (int \<times> vmcache) option" where
  "uncache_loop env st flags v status sp =
     (if sp = 0 then Some (status, v)
      else case vm_heap v sp of None \<Rightarrow> None
      | Some s \<Rightarrow>
          if \<not> same_file st s then uncache_loop env st flags v status (sg_next s)
          else case vm_uncache env v sp flags of None \<Rightarrow> None
               | Some (r, v1) \<Rightarrow>
                   (case vm_heap v1 sp of None \<Rightarrow> None
                    | Some s' \<Rightarrow> uncache_loop env st flags v1 (if r < 0 then -1 else status) (sg_next s')))"

definition vm_uncachefile :: "vm_env \<Rightarrow> vmcache \<Rightarrow> string \<Rightarrow> 32 word \<Rightarrow> (int \<times> vmcache) option" where
  "vm_uncachefile env v fname flags =
     (if \<not> vm_cache_enabled v then Some (0, v)
      else case ve_stat env fname of None \<Rightarrow> Some (-1, v) | Some st \<Rightarrow> uncache_loop env st flags v 0 (vm_segment_head v))"

definition vm_uncachefd :: "vm_env \<Rightarrow> vmcache \<Rightarrow> int \<Rightarrow> 32 word \<Rightarrow> (int \<times> vmcache) option" where
  "vm_uncachefd env v fd flags =
     (if \<not> vm_cache_enabled v then Some (0, v)
      else case vm_fds v fd of None \<Rightarrow> Some (-1, v) | Some st \<Rightarrow> uncache_loop env st flags v 0 (vm_segment_head v))"

definition vm_cachefile :: "vm_env \<Rightarrow> vmcache \<Rightarrow> string \<Rightarrow> 32 word \<Rightarrow> (int \<times> vmcache) option" where
  "vm_cachefile env v fname flags =
     (if \<not> vm_cache_enabled v then Some (0, v)
      else let fd = ve_open env fname in
        if fd < 0 then Some (-1, v)
        else let v1 = v\<lparr>vm_fds := (vm_fds v)(fd := ve_stat env fname)\<rparr> in
          case vm_fds v1 fd of None \<Rightarrow> Some (-1, v1)
          | Some st \<Rightarrow>
              do { (addr, v2) \<leftarrow> vm_cacheregion env v1 fd 0 (vs_size st) VM_READONLY;
                   let v3 = vm_log (CloseFd fd) (v2\<lparr>vm_fds := (vm_fds v2)(fd := None)\<rparr>);
                   if addr = 0 then Some (-1, v3)
                   else if vm_flag flags VM_LOCKFILE then Some (0, v3)
                   else map_option (\<lambda>(_, v4). (0, v4)) (vm_uncachefile env v3 fname 0) })"

definition vm_cachefd :: "vm_env \<Rightarrow> vmcache \<Rightarrow> int \<Rightarrow> 32 word \<Rightarrow> 32 word \<Rightarrow> (int \<times> vmcache) option" where
  "vm_cachefd env v fd acmode flags =
     (if \<not> vm_cache_enabled v then Some (0, v)
      else case vm_fds v fd of None \<Rightarrow> Some (-1, v)
      | Some st \<Rightarrow>
          do { (addr, v1) \<leftarrow> vm_cacheregion env v fd 0 (vs_size st) acmode;
               if addr = 0 then Some (-1, v1)
               else if vm_flag flags VM_LOCKFILE then Some (0, v1)
               else map_option (\<lambda>(_, v2). (0, v2)) (vm_uncachefd env v1 fd 0) })"

subsection \<open>Writing pages back\<close>

partial_function (option) sync_loop :: "vm_env \<Rightarrow> vm_stat \<Rightarrow> (vm_segment \<Rightarrow> bool) \<Rightarrow> bool \<Rightarrow> vmcache \<Rightarrow> int \<Rightarrow> nat \<Rightarrow> (int \<times> vmcache) option" where
  "sync_loop env st P async v status sp =
     (if sp = 0 then Some (status, v)
      else case vm_heap v sp of None \<Rightarrow> None
      | Some s \<Rightarrow>
          if same_file st s \<and> P s
          then sync_loop env st P async (vm_log (Msync (sg_addr s) (sg_nbytes s) async) v) (if ve_msync env (sg_addr s) (sg_nbytes s) then status else -1) (sg_next s)
          else sync_loop env st P async v status (sg_next s))"

definition vm_sync :: "vm_env \<Rightarrow> vmcache \<Rightarrow> int \<Rightarrow> ulong \<Rightarrow> ulong \<Rightarrow> 32 word \<Rightarrow> (int \<times> vmcache) option" where
  "vm_sync env v fd offset nbytes flags =
     (if \<not> vm_cache_enabled v then Some (0, v)
      else case vm_fds v fd of None \<Rightarrow> Some (-1, v)
      | Some st \<Rightarrow>
          sync_loop env st (\<lambda>s. nbytes = 0 \<or> sg_offset s = fst (vm_span (vm_pagesize v) offset nbytes)) (vm_flag flags VM_ASYNC) v 0 (vm_segment_head v))"

text \<open>An address is below \<open>2\<^sup>31\<close>.\<close>

definition vm_msync :: "vm_env \<Rightarrow> vmcache \<Rightarrow> addr_t \<Rightarrow> ulong \<Rightarrow> 32 word \<Rightarrow> int \<times> vmcache" where
  "vm_msync env v addr nbytes flags =
     (let (addr1, addr2) = vm_span (vm_pagesize v) (word_of_int addr) nbytes in
      (if ve_msync env (uint addr1) (addr2 - addr1 + 1) then 0 else -1, vm_log (Msync (uint addr1) (addr2 - addr1 + 1) (vm_flag flags VM_ASYNC)) v))"

subsection \<open>Initialisation\<close>

record vm_opts =
  vo_cachesize :: string
  vo_enable :: bool
  vo_lockpages :: bool

definition set_vm_opt :: "string \<Rightarrow> string \<Rightarrow> vm_opts \<Rightarrow> vm_opts" where
  "set_vm_opt keyword valstr opts =
     (let yes = (char0 valstr = CHR ''y'' \<or> char0 valstr = CHR ''Y'') in
      if keyword = ''cachesize'' then opts\<lparr>vo_cachesize := valstr\<rparr>
      else if keyword = ''lockpages'' then opts\<lparr>vo_lockpages := yes\<rparr>
      else if keyword = ''enable'' then opts\<lparr>vo_enable := yes\<rparr>
      else opts)"

partial_function (option) init_scan :: "string \<Rightarrow> vm_opts \<Rightarrow> vm_opts option" where
  "init_scan ip opts =
     (if ip = [] then Some opts
      else
        let ip1 = dropWhile (\<lambda>c. c_isspace c \<or> c = CHR '','') ip;
            keyword = takeWhile c_isalnum ip1;
            ip2 = dropWhile (\<lambda>c. c_isspace c \<or> c = CHR ''='') (dropWhile c_isalnum ip1);
            valstr = takeWhile c_isalnum ip2
        in if SZ_NAME \<le> length keyword \<or> SZ_NAME \<le> length valstr then None
           else init_scan (dropWhile c_isalnum ip2) (set_vm_opt keyword valstr opts))"

text \<open>\<open>strtol\<close> gives the number, at most the largest \<open>long\<close>, and the rest of the string; the number is stored
  in an \<open>int\<close> first.  The value string is the default or a sequence of letters and digits.\<close>

definition cache_size :: "vm_env \<Rightarrow> string \<Rightarrow> ulong" where
  "cache_size env str =
     (let percent = sint (word_of_int (min (digits_val 0 str) (2 ^ 31 - 1)) :: 32 word);
          modchar = dropWhile c_isdigit str;
          n = word_of_int percent :: ulong;
          c = char0 modchar
      in if modchar = str then ve_physpages env div 2 * ve_getpagesize env
         else if c = CHR ''%'' then ve_physpages env * n div 100 * ve_getpagesize env
         else if c = CHR ''k'' \<or> c = CHR ''K'' then n * 1024
         else if c = CHR ''m'' \<or> c = CHR ''M'' then n * (1024 * 1024)
         else if c = CHR ''g'' \<or> c = CHR ''G'' then n * (1024 * 1024 * 1024)
         else n)"

definition vm_initcache :: "vm_env \<Rightarrow> vmcache \<Rightarrow> string option \<Rightarrow> vmcache option" where
  "vm_initcache env v initstr =
     do { opts \<leftarrow> init_scan (case initstr of None \<Rightarrow> [] | Some s \<Rightarrow> s) \<lparr>vo_cachesize = ''50%'', vo_enable = True, vo_lockpages = False\<rparr>;
          v1 \<leftarrow> vm_closecache env v;
          Some (v1\<lparr>vm_cacheused := 0, vm_cache_enabled := vo_enable opts, vm_cache_initialized := True, vm_segment_head := 0, vm_segment_tail := 0,
            vm_pagesize := ve_getpagesize env, vm_physmem := ve_physpages env * ve_getpagesize env, vm_lockpages := vo_lockpages opts,
            vm_cachesize := cache_size env (vo_cachesize opts)\<rparr>) }"

subsection \<open>The list of segments\<close>

text \<open>The descriptors \<open>xs\<close> are linked in both directions, behind \<open>p\<close> and before \<open>n\<close>.\<close>

fun dll :: "vm_store \<Rightarrow> nat \<Rightarrow> nat list \<Rightarrow> nat \<Rightarrow> bool" where
  "dll h p [] n = True"
| "dll h p (x # xs) n =
     (x \<noteq> 0 \<and> h x \<noteq> None \<and> sg_prev (the (h x)) = p \<and> sg_next (the (h x)) = (if xs = [] then n else hd xs) \<and> dll h x xs n)"

definition vm_list :: "vmcache \<Rightarrow> nat list \<Rightarrow> bool" where
  "vm_list v xs \<longleftrightarrow> distinct xs \<and> dll (vm_heap v) 0 xs 0 \<and> vm_segment_head v = (if xs = [] then 0 else hd xs)
     \<and> vm_segment_tail v = (if xs = [] then 0 else last xs)"

text \<open>The fields of the descriptors other than the links, in the order of the list.\<close>

definition sg_body :: "vm_segment \<Rightarrow> vm_segment" where
  "sg_body s = s\<lparr>sg_next := 0, sg_prev := 0\<rparr>"

definition sg_view :: "vm_store \<Rightarrow> nat list \<Rightarrow> vm_segment list" where
  "sg_view h xs = map (\<lambda>x. sg_body (the (h x))) xs"

definition vm_inv :: "vmcache \<Rightarrow> nat list \<Rightarrow> bool" where
  "vm_inv v xs \<longleftrightarrow> vm_list v xs \<and> vm_cacheused v = sum_list (map sg_nbytes (sg_view (vm_heap v) xs))
     \<and> (\<forall>s \<in> set (sg_view (vm_heap v) xs). 0 \<le> sg_refcnt s)"

lemma dll_append: "dll h p (us @ vs) n \<longleftrightarrow> dll h p us (if vs = [] then n else hd vs) \<and> dll h (if us = [] then p else last us) vs n"
  by (induction us arbitrary: p) (auto simp: hd_append split: if_splits)

lemma dll_cong: "(\<And>x. x \<in> set xs \<Longrightarrow> h x = h' x) \<Longrightarrow> dll h p xs n = dll h' p xs n"
  by (induction xs arbitrary: p) auto

lemma dll_other [simp]: "a \<notin> set xs \<Longrightarrow> dll (h(a := z)) p xs n = dll h p xs n"
  by (rule dll_cong) auto

lemma dll_alloc: "dll h p xs n \<Longrightarrow> x \<in> set xs \<Longrightarrow> x \<noteq> 0 \<and> (\<exists>s. h x = Some s)"
  by (induction xs arbitrary: p) (auto split: option.splits)

lemma dll_set_next:
  assumes "dll h p (us @ [l]) n" "l \<notin> set us" "h l = Some s"
  shows "dll (h(l \<mapsto> s\<lparr>sg_next := m\<rparr>)) p (us @ [l]) m"
  using assms by (auto simp: dll_append)

lemma dll_set_prev:
  assumes "dll h p (y # ys) n" "y \<notin> set ys" "h y = Some s"
  shows "dll (h(y \<mapsto> s\<lparr>sg_prev := q\<rparr>)) q (y # ys) n"
  using assms by auto

lemma sg_view_other [simp]: "a \<notin> set xs \<Longrightarrow> sg_view (h(a := z)) xs = sg_view h xs"
  by (auto simp: sg_view_def)

lemma sg_view_cong: "(\<And>x. x \<in> set xs \<Longrightarrow> sg_body (the (h x)) = sg_body (the (h' x))) \<Longrightarrow> sg_view h xs = sg_view h' xs"
  by (simp add: sg_view_def)

lemma sg_view_links [simp]:
  "h a = Some s \<Longrightarrow> sg_view (h(a \<mapsto> s\<lparr>sg_next := n\<rparr>)) xs = sg_view h xs"
  "h a = Some s \<Longrightarrow> sg_view (h(a \<mapsto> s\<lparr>sg_prev := n\<rparr>)) xs = sg_view h xs"
  by (auto simp: sg_view_def sg_body_def)

lemma sg_view_append [simp]: "sg_view h (xs @ ys) = sg_view h xs @ sg_view h ys" "sg_view h (x # xs) = sg_body (the (h x)) # sg_view h xs" "sg_view h [] = []"
  by (simp_all add: sg_view_def)

lemma sg_body_fields [simp]: "sg_nbytes (sg_body s) = sg_nbytes s" "sg_refcnt (sg_body s) = sg_refcnt s" "sg_addr (sg_body s) = sg_addr s"
  "sg_fd (sg_body s) = sg_fd s" "sg_inode (sg_body s) = sg_inode s" "sg_device (sg_body s) = sg_device s" "sg_offset (sg_body s) = sg_offset s"
  by (simp_all add: sg_body_def)

text \<open>Taking a descriptor out of the links.\<close>

definition unlinked :: "vm_store \<Rightarrow> nat list \<Rightarrow> nat list \<Rightarrow> vm_store" where
  "unlinked h us vs =
     (let l = (if us = [] then 0 else last us); r = (if vs = [] then 0 else hd vs);
          h1 = (if vs = [] then h else h(r \<mapsto> (the (h r))\<lparr>sg_prev := l\<rparr>))
      in if us = [] then h1 else h1(l \<mapsto> (the (h1 l))\<lparr>sg_next := r\<rparr>))"

lemma unlinked_sets:
  assumes d: "dll h 0 (us @ x # vs) 0" "distinct (us @ x # vs)" and s: "h x = Some s"
  shows "set_seg_if (sg_next s) (\<lambda>n. n\<lparr>sg_prev := sg_prev s\<rparr>) h \<bind> (\<lambda>h1. h1 x \<bind> (\<lambda>s1. set_seg_if (sg_prev s1) (\<lambda>p. p\<lparr>sg_next := sg_next s1\<rparr>) h1))
    = Some (unlinked h us vs)"
proof (cases vs)
  case Nil
  show ?thesis
  proof (cases us rule: rev_cases)
    case (snoc us' l)
    then obtain t where "h l = Some t" "l \<noteq> 0" "sg_prev s = l" "sg_next s = 0" using d s Nil by (auto simp: dll_append)
    then show ?thesis using s Nil snoc by (simp add: set_seg_if_def set_seg_def unlinked_def)
  qed (use d s Nil in \<open>simp add: set_seg_if_def unlinked_def\<close>)
next
  case (Cons r vs')
  then obtain q where q: "h r = Some q" "r \<noteq> 0" "sg_next s = r" "r \<noteq> x" "r \<notin> set us" using d s by (auto simp: dll_append)
  show ?thesis
  proof (cases us rule: rev_cases)
    case (snoc us' l)
    then obtain t where "h l = Some t" "l \<noteq> 0" "sg_prev s = l" using d s by (auto simp: dll_append)
    moreover have "l \<noteq> r" "r \<noteq> l" using q(5) snoc by auto
    ultimately show ?thesis using s Cons snoc q by (simp add: set_seg_if_def set_seg_def unlinked_def)
  qed (use d s Cons q in \<open>simp add: set_seg_if_def set_seg_def unlinked_def\<close>)
qed

lemma unlinked_keeps:
  assumes d: "dll h 0 (us @ x # vs) 0" "distinct (us @ x # vs)"
  shows "unlinked h us vs x = h x" "sg_view (unlinked h us vs) ys = sg_view h ys" "\<And>y. y \<notin> set (us @ vs) \<Longrightarrow> unlinked h us vs y = h y"
proof -
  have r: "hd vs \<in> set vs" "h (hd vs) = Some (the (h (hd vs)))" if "vs \<noteq> []" using that dll_alloc [OF d(1), of "hd vs"] by auto
  have l: "last us \<in> set us" "h (last us) = Some (the (h (last us)))" if "us \<noteq> []" using that dll_alloc [OF d(1), of "last us"] by auto
  show o: "unlinked h us vs y = h y" if "y \<notin> set (us @ vs)" for y
    using that r(1) l(1) by (cases "us = []"; cases "vs = []") (auto simp: unlinked_def Let_def)
  then show "unlinked h us vs x = h x" using d(2) by simp
  have "sg_body (the (unlinked h us vs y)) = sg_body (the (h y))" for y
    using r(2) l(2) by (cases "us = []"; cases "vs = []") (simp_all add: unlinked_def Let_def sg_body_def)
  then show "sg_view (unlinked h us vs) ys = sg_view h ys" by (simp add: sg_view_def)
qed

lemma unlinked_dll:
  assumes d: "dll h 0 (us @ x # vs) 0" "distinct (us @ x # vs)"
  shows "dll (unlinked h us vs) 0 (us @ vs) 0"
proof (cases vs)
  case Nil
  show ?thesis
  proof (cases us rule: rev_cases)
    case (snoc us' l)
    then show ?thesis using d Nil by (auto simp: dll_append unlinked_def Let_def)
  qed (use Nil in simp)
next
  case (Cons r vs')
  then show ?thesis
  proof (cases us rule: rev_cases)
    case (snoc us' l)
    then show ?thesis using d Cons by (auto simp: dll_append unlinked_def Let_def)
  qed (use d Cons in \<open>auto simp: unlinked_def Let_def\<close>)
qed

lemma vm_unlink_removes:
  assumes "vm_list v (us @ x # vs)"
  shows "\<exists>v'. vm_unlink x v = Some v' \<and> vm_list v' (us @ vs) \<and> v' = v\<lparr>vm_heap := unlinked (vm_heap v) us vs, vm_segment_head := vm_segment_head v', vm_segment_tail := vm_segment_tail v'\<rparr>"
proof -
  have d: "dll (vm_heap v) 0 (us @ x # vs) 0" "distinct (us @ x # vs)" using assms by (simp_all add: vm_list_def)
  obtain s where s: "vm_heap v x = Some s" "sg_prev s = (if us = [] then 0 else last us)" "sg_next s = (if vs = [] then 0 else hd vs)"
    using d(1) by (auto simp: dll_append)
  have ne: "us \<noteq> [] \<Longrightarrow> hd us \<noteq> x" "vs \<noteq> [] \<Longrightarrow> last vs \<noteq> x" using d(2) hd_in_set last_in_set by (fastforce, fastforce)
  show ?thesis
    using unlinked_sets [OF d s(1)] unlinked_keeps(1) [OF d] unlinked_dll [OF d] s assms ne
    by (auto simp: vm_unlink_def vm_list_def bind_eq_Some_conv)
qed

subsection \<open>Making room\<close>

text \<open>Room has to be made: the difference of the size and of what is used, an \<open>unsigned long\<close>, is not more than
  the space asked for, and a segment is not referenced.\<close>

definition needs_room :: "vmcache \<Rightarrow> nat list \<Rightarrow> ulong \<Rightarrow> bool" where
  "needs_room v xs n \<longleftrightarrow> vm_cachesize v - vm_cacheused v \<le> n \<and> (\<exists>s \<in> set (sg_view (vm_heap v) xs). sg_refcnt s = 0)"

text \<open>The fields that the functions on the list leave alone.\<close>

definition vm_conf :: "vmcache \<Rightarrow> bool \<times> bool \<times> ulong \<times> ulong \<times> bool \<times> ulong \<times> (int \<Rightarrow> vm_stat option)" where
  "vm_conf v = (vm_cache_initialized v, vm_cache_enabled v, vm_cachesize v, vm_physmem v, vm_lockpages v, vm_pagesize v, vm_fds v)"

lemma reserve_loop_zero [simp]: "reserve_loop env n v free 0 = Some (free, v)"
  by (simp add: reserve_loop.simps)

lemma unlink_freed:
  assumes "vm_list v (us @ x # vs)"
  shows "\<exists>v'. vm_unlink x v = Some v' \<and> vm_list (vm_free x v') (us @ vs)
    \<and> sg_view (vm_heap (vm_free x v')) (us @ vs) = sg_view (vm_heap v) (us @ vs)
    \<and> vm_conf (vm_free x v') = vm_conf v \<and> vm_cacheused (vm_free x v') = vm_cacheused v \<and> vm_trace (vm_free x v') = vm_trace v"
proof -
  have d: "dll (vm_heap v) 0 (us @ x # vs) 0" "distinct (us @ x # vs)" using assms by (simp_all add: vm_list_def)
  note k = unlinked_keeps [OF d]
  obtain v' where v': "vm_unlink x v = Some v'" "vm_list v' (us @ vs)"
      "v' = v\<lparr>vm_heap := unlinked (vm_heap v) us vs, vm_segment_head := vm_segment_head v', vm_segment_tail := vm_segment_tail v'\<rparr>"
    using vm_unlink_removes [OF assms] by blast
  have h: "vm_heap v' = unlinked (vm_heap v) us vs" and c: "vm_conf v' = vm_conf v" "vm_cacheused v' = vm_cacheused v" "vm_trace v' = vm_trace v"
    by (subst v'(3), simp add: vm_conf_def)+
  have x: "x \<notin> set (us @ vs)" using d(2) by simp
  have "vm_list (vm_free x v') (us @ vs)" using v'(2) x by (simp add: vm_list_def vm_free_def)
  moreover have "sg_view (vm_heap (vm_free x v')) (us @ vs) = sg_view (vm_heap v) (us @ vs)"
    using k(2) [of "us @ vs"] x h by (simp add: vm_free_def)
  ultimately show ?thesis using v'(1) c by (auto simp: vm_free_def vm_conf_def)
qed

lemma reserve_loop_result:
  assumes "vm_inv v (us @ vs)"
  shows "reserve_loop env n v (vm_cachesize v - vm_cacheused v) (if us = [] then 0 else last us)
    = (if needs_room v us n then None else Some (vm_cachesize v - vm_cacheused v, v))"
  using assms
proof (induction us arbitrary: vs rule: rev_induct)
  case Nil
  then show ?case by (simp add: needs_room_def)
next
  case (snoc x us)
  let ?free = "vm_cachesize v - vm_cacheused v"
  have l: "vm_list v (us @ x # vs)" using snoc.prems by (simp add: vm_inv_def)
  obtain s where s: "vm_heap v x = Some s" "x \<noteq> 0" "sg_prev s = (if us = [] then 0 else last us)"
    using l by (auto simp: vm_list_def dll_append)
  consider "n < ?free" | "\<not> n < ?free" "sg_refcnt s \<noteq> 0" | "\<not> n < ?free" "sg_refcnt s = 0" by blast
  then show ?case
  proof cases
    case 1
    then show ?thesis by (simp add: reserve_loop.simps [of env n v] needs_room_def not_le [symmetric])
  next
    case 2
    then have "reserve_loop env n v ?free x = reserve_loop env n v ?free (sg_prev s)" using s by (subst reserve_loop.simps) simp
    then show ?thesis using snoc.IH [of "x # vs"] snoc.prems s 2 by (simp add: needs_room_def)
  next
    case 3
    let ?v1 = "(vm_log (Munmap (sg_addr s) (sg_nbytes s)) (vm_log (Dontneed (sg_addr s) (sg_nbytes s)) v))\<lparr>vm_cacheused := vm_cacheused v - sg_nbytes s\<rparr>"
    have "vm_list ?v1 (us @ x # vs)" using l by (simp add: vm_list_def vm_log_def)
    then obtain v2 where "vm_unlink x ?v1 = Some v2" using vm_unlink_removes by blast
    then have "reserve_loop env n v ?free x = None" using 3 s(1,2) by (subst reserve_loop.simps) (simp add: vm_log_def vm_free_def)
    then show ?thesis using 3 s(1) by (simp add: needs_room_def)
  qed
qed

lemma vm_reservespace_result:
  assumes "vm_inv v xs" "vm_cache_enabled v"
  shows "vm_reservespace env v n = (if needs_room v xs n then None else Some (if n \<le> vm_cachesize v - vm_cacheused v then 0 else -1, v))"
proof -
  have "vm_segment_tail v = (if xs = [] then 0 else last xs)" using assms(1) by (simp add: vm_inv_def vm_list_def)
  then show ?thesis using reserve_loop_result [of v xs "[]" env n] assms by (simp add: vm_reservespace_def)
qed


text \<open>No reservation makes a cache smaller that holds more than its size: the difference of the unsigned numbers wraps around,
  so \<open>vm_reservespace\<close> reports success for any space below it and releases no segment, referenced or not.\<close>

theorem vm_reservespace_overcommitted:
  assumes "vm_inv v xs" "vm_cache_enabled v" "vm_cachesize v < vm_cacheused v" "uint n + uint (vm_cacheused v) < 2 ^ 32 + uint (vm_cachesize v)"
  shows "vm_reservespace env v n = Some (0, v)"
proof -
  have "uint (vm_cachesize v - vm_cacheused v) = uint (vm_cachesize v) - uint (vm_cacheused v) + 2 ^ 32"
    using assms(3) by (simp add: uint_sub_if' word_less_def)
  then have "n < vm_cachesize v - vm_cacheused v" using assms(4) by (simp add: word_less_def)
  then show ?thesis using vm_reservespace_result [OF assms(1,2), of env n] by (auto simp: needs_room_def)
qed

subsection \<open>Caching and releasing a region\<close>

lemma find_seg_list: "dll h p xs 0 \<Longrightarrow> find_seg P h (if xs = [] then 0 else hd xs) = Some (case List.find (\<lambda>x. P (the (h x))) xs of None \<Rightarrow> 0 | Some x \<Rightarrow> x)"
proof (induction xs arbitrary: p)
  case Nil
  then show ?case by (simp add: find_seg.simps)
next
  case (Cons x xs)
  then show ?case using Cons.IH [of x] by (auto simp: find_seg.simps [of P h x])
qed

lemma find_seg_head: "vm_list v xs \<Longrightarrow> find_seg P (vm_heap v) (vm_segment_head v) = Some (case List.find (\<lambda>x. P (the (vm_heap v x))) xs of None \<Rightarrow> 0 | Some x \<Rightarrow> x)"
  using find_seg_list [of "vm_heap v" 0 xs P] by (simp add: vm_list_def)

text \<open>The pages of a region: aligned, not empty, and covering it.\<close>

lemma page_down: "uint (a - a mod p) = uint a div uint p * uint p" for a p :: ulong
  using zmod_le_nonneg_dividend [of "uint a" "uint p"] unfolding uint_sub_if' by (simp add: uint_mod minus_mod_eq_div_mult)

lemma vm_span_pages:
  assumes "0 < p" "0 < n" "uint off + uint n + uint p < 2 ^ 32"
  shows "uint (fst (vm_span p off n)) = uint off div uint p * uint p"
    "uint (snd (vm_span p off n)) = ((uint off + uint n - 1) div uint p + 1) * uint p - 1"
    "uint (snd (vm_span p off n) - fst (vm_span p off n) + 1) = ((uint off + uint n - 1) div uint p + 1 - uint off div uint p) * uint p"
proof -
  have pos: "0 < uint p" "0 < uint n" "0 \<le> uint off" using assms(1,2) by (simp_all add: word_less_def)
  define l where "l = uint off + uint n - 1"
  define q where "q = l div uint p * uint p"
  have lb: "l + uint p < 2 ^ 32" "0 \<le> l" "uint off \<le> l" using assms(3) pos unfolding l_def by linarith+
  have b: "q \<le> l" "0 \<le> q" using lb(2) pos zmod_le_nonneg_dividend [of l "uint p"] div_mult_mod_eq [of l "uint p"] pos_mod_sign [of "uint p" l] unfolding q_def
    by (linarith, simp add: pos_imp_zdiv_nonneg_iff)
  show x0: "uint (fst (vm_span p off n)) = uint off div uint p * uint p" by (simp only: vm_span_def Let_def fst_conv page_down)
  have "uint (off + n) = uint off + uint n" using assms(3) pos unfolding uint_plus_if' by simp
  moreover have "1 \<le> uint off + uint n" using pos by linarith
  ultimately have l: "uint (off + n - 1) = l" by (simp add: uint_sub_if' l_def)
  have e: "uint ((off + n - 1) - (off + n - 1) mod p) = q" unfolding page_down l q_def ..
  have f: "uint ((off + n - 1) - (off + n - 1) mod p + p) = q + uint p" using b lb(1) unfolding uint_plus_if' e by simp
  have x1': "uint (snd (vm_span p off n)) = q + uint p - 1"
    unfolding vm_span_def Let_def snd_conv uint_sub_if' [of _ 1] f using b(2) pos by simp
  then show x1: "uint (snd (vm_span p off n)) = ((uint off + uint n - 1) div uint p + 1) * uint p - 1"
    by (simp add: q_def l_def algebra_simps)
  have o: "uint off div uint p * uint p \<le> q" "0 \<le> uint off div uint p * uint p" using pos lb(3) unfolding q_def by (simp_all add: zdiv_mono1 pos_imp_zdiv_nonneg_iff)
  have "uint (snd (vm_span p off n) - fst (vm_span p off n)) = q + uint p - 1 - uint off div uint p * uint p"
    unfolding uint_sub_if' x0 x1' using o pos by simp
  then have "uint (snd (vm_span p off n) - fst (vm_span p off n) + 1) = q + uint p - uint off div uint p * uint p"
    using o b lb pos unfolding uint_plus_if' by simp
  then show "uint (snd (vm_span p off n) - fst (vm_span p off n) + 1) = ((uint off + uint n - 1) div uint p + 1 - uint off div uint p) * uint p"
    by (simp add: q_def l_def algebra_simps)
qed

lemma vm_span_region:
  assumes "(x0, x1) = vm_span p off n" "m = x1 - x0 + 1" "0 < p" "0 < n" "uint off + uint n + uint p < 2 ^ 32"
  shows "uint x0 mod uint p = 0" "uint m mod uint p = 0" "x0 \<le> off" "uint off + uint n \<le> uint x0 + uint m"
proof -
  have p: "0 < uint p" using assms(3) by (simp add: word_less_def)
  have x: "uint x0 = uint off div uint p * uint p" "uint m = ((uint off + uint n - 1) div uint p + 1 - uint off div uint p) * uint p"
    using vm_span_pages(1,3) [OF assms(3-5)] assms(1,2) by (metis fst_conv snd_conv)+
  show "uint x0 mod uint p = 0" "uint m mod uint p = 0" unfolding x by simp_all
  show "x0 \<le> off" using x(1) div_mult_mod_eq [of "uint off" "uint p"] pos_mod_sign [OF p, of "uint off"] unfolding word_le_def by linarith
  define l where "l = uint off + uint n - 1"
  have "l = l div uint p * uint p + l mod uint p" "l mod uint p < uint p" using pos_mod_bound [OF p] by simp_all
  moreover have "uint x0 + uint m = l div uint p * uint p + uint p" unfolding x l_def by (simp add: algebra_simps)
  ultimately show "uint off + uint n \<le> uint x0 + uint m" unfolding l_def by linarith
qed

lemma dll_same_links: "h x = Some s \<Longrightarrow> sg_next s' = sg_next s \<Longrightarrow> sg_prev s' = sg_prev s \<Longrightarrow> dll (h(x \<mapsto> s')) p xs n = dll h p xs n"
  by (induction xs arbitrary: p) auto

lemma vm_inv_refcnt:
  assumes "vm_inv v (us @ x # vs)" "vm_heap v x = Some s" "0 \<le> r" "vm_conf v' = vm_conf v" "vm_heap v' = (vm_heap v)(x \<mapsto> s\<lparr>sg_refcnt := r\<rparr>)"
    and "vm_segment_head v' = vm_segment_head v" "vm_segment_tail v' = vm_segment_tail v" "vm_cacheused v' = vm_cacheused v"
  shows "vm_inv v' (us @ x # vs)" "sg_view (vm_heap v') (us @ x # vs) = sg_view (vm_heap v) us @ (sg_body s)\<lparr>sg_refcnt := r\<rparr> # sg_view (vm_heap v) vs"
proof -
  have d: "distinct (us @ x # vs)" using assms(1) by (simp add: vm_inv_def vm_list_def)
  then show view: "sg_view (vm_heap v') (us @ x # vs) = sg_view (vm_heap v) us @ (sg_body s)\<lparr>sg_refcnt := r\<rparr> # sg_view (vm_heap v) vs"
    using assms(5) by (simp add: sg_body_def)
  show "vm_inv v' (us @ x # vs)" unfolding vm_inv_def view
    using assms d by (auto simp: vm_inv_def vm_list_def dll_same_links)
qed

lemma readahead_returns:
  assumes "0 < chunk" "0 \<le> n" "uint nbytes + chunk \<le> 2 ^ 31"
  shows "\<exists>es. readahead_loop buf nbytes chunk n = Some es \<and> (\<forall>e \<in> set es. \<exists>a k. e = Willneed a k)"
  using assms
proof (induction buf nbytes chunk n rule: readahead_loop.induct)
  case (1 buf nbytes chunk n)
  show ?case
  proof (cases "n < uint nbytes")
    case True
    then obtain es where "readahead_loop buf nbytes chunk (n + chunk) = Some es" "\<forall>e \<in> set es. \<exists>a k. e = Willneed a k"
      using "1.IH" "1.prems" by auto
    then show ?thesis using True "1.prems" by (subst readahead_loop.simps) (auto simp: Let_def)
  qed (simp add: readahead_loop.simps)
qed

lemma vm_insert_list:
  assumes "vm_inv v ys" "sp \<notin> set ys" "sp \<noteq> 0" "0 \<le> sg_refcnt s"
  obtains v' where "vm_insert sp s v = Some v'" "vm_inv v' (sp # ys)" "sg_view (vm_heap v') (sp # ys) = sg_body s # sg_view (vm_heap v) ys"
    "vm_conf v' = vm_conf v" "vm_trace v' = vm_trace v" "vm_segment_head v' = sp"
proof -
  define t where "t = s\<lparr>sg_next := vm_segment_head v, sg_prev := 0\<rparr>"
  note i = assms(1) [unfolded vm_inv_def vm_list_def]
  define h where "h = (if ys = [] then (vm_heap v)(sp \<mapsto> t) else (vm_heap v)(sp \<mapsto> t, hd ys \<mapsto> (the (vm_heap v (hd ys)))\<lparr>sg_prev := sp\<rparr>))"
  have hd: "hd ys \<noteq> 0 \<and> (\<exists>q. vm_heap v (hd ys) = Some q) \<and> hd ys \<noteq> sp" if "ys \<noteq> []" using that i assms(2) dll_alloc [of "vm_heap v" 0 ys 0 "hd ys"] by (auto simp: hd_in_set)
  have "set_seg_if (vm_segment_head v) (\<lambda>n. n\<lparr>sg_prev := sp\<rparr>) ((vm_heap v)(sp \<mapsto> t)) = Some h"
    using i hd by (cases "ys = []") (auto simp: set_seg_if_def set_seg_def h_def)
  then have v': "vm_insert sp s v = Some (v\<lparr>vm_heap := h, vm_segment_head := sp, vm_cacheused := vm_cacheused v + sg_nbytes s,
      vm_segment_tail := (if vm_segment_tail v = 0 then sp else vm_segment_tail v)\<rparr>)" (is "_ = Some ?v")
    by (simp add: vm_insert_def t_def)
  have d: "dll h 0 (sp # ys) 0"
  proof (cases ys)
    case Nil
    then show ?thesis using i assms(3) by (simp add: h_def t_def)
  next
    case (Cons y zs)
    then show ?thesis using i hd assms(2,3) by (auto simp: h_def t_def)
  qed
  have w: "sg_view h (sp # ys) = sg_body s # sg_view (vm_heap v) ys"
  proof (cases ys)
    case (Cons y zs)
    then show ?thesis using hd i assms(2) by (auto simp: h_def t_def sg_body_def)
  qed (simp add: h_def t_def sg_body_def)
  have "ys = [] \<or> last ys \<noteq> 0" using i dll_alloc [of "vm_heap v" 0 ys 0 "last ys"] last_in_set [of ys] by blast
  then have "vm_list ?v (sp # ys)" using i d assms(2) by (auto simp: vm_list_def)
  then have "vm_inv ?v (sp # ys)" using i w assms(4) by (auto simp: vm_inv_def)
  then show ?thesis using v' w by (intro that [of ?v]) (simp_all add: vm_conf_def)
qed
lemma region_refresh_head:
  assumes "vm_inv v (sp # ys)" "vm_heap v sp = Some s" "vm_cache_enabled v" "0 < vm_pagesize v" "uint n + READAHEAD * uint (vm_pagesize v) < 2 ^ 31"
  obtains v' es where "region_refresh sp addr vo n off v = Some (addr + uint (off - vo), v')" "vm_inv v' (sp # ys)"
    "sg_view (vm_heap v') (sp # ys) = (sg_body s)\<lparr>sg_refcnt := sg_refcnt s + 1\<rparr> # sg_view (vm_heap v) ys"
    "vm_conf v' = vm_conf v" "vm_trace v' = vm_trace v @ es" "\<forall>e \<in> set es. \<exists>a k. e = Willneed a k"
proof -
  have p: "0 < uint (vm_pagesize v)" "0 \<le> uint n" using assms(4) by (simp_all add: word_less_def)
  then obtain es where es: "readahead_loop addr n (READAHEAD * uint (vm_pagesize v)) 0 = Some es" "\<forall>e \<in> set es. \<exists>a k. e = Willneed a k"
    using readahead_returns [of "READAHEAD * uint (vm_pagesize v)" 0 n addr] assms(5) by (auto simp: READAHEAD_def)
  let ?v = "v\<lparr>vm_trace := vm_trace v @ es, vm_heap := (vm_heap v)(sp \<mapsto> s\<lparr>sg_refcnt := sg_refcnt s + 1\<rparr>)\<rparr>"
  have h: "vm_segment_head v = sp" "0 \<le> sg_refcnt s + 1" using assms(1,2) by (auto simp: vm_inv_def vm_list_def)
  have "\<not> 2 ^ 31 \<le> READAHEAD * uint (vm_pagesize v)" using assms(5) p(2) by linarith
  then have "region_refresh sp addr vo n off v = Some (addr + uint (off - vo), ?v)"
    using h(1) es(1) assms(2,3) by (simp add: region_refresh_def vm_tohead_def vm_readahead_def set_seg_def)
  then show ?thesis using vm_inv_refcnt [of v "[]" sp ys s "sg_refcnt s + 1" ?v] assms(1,2) h(2) es(2)
    by (intro that [of ?v es]) (simp_all add: vm_conf_def)
qed

text \<open>The conditions under which a region is mapped: its file is open, its pages lie in the address space, no
  segment covers its first page, no room has to be made, and the allocator gives a new descriptor.\<close>

definition region_new :: "vm_env \<Rightarrow> vmcache \<Rightarrow> nat list \<Rightarrow> vm_stat \<Rightarrow> ulong \<Rightarrow> ulong \<Rightarrow> bool" where
  "region_new env v xs st offset nbytes \<longleftrightarrow>
     (let (x0, x1) = vm_span (vm_pagesize v) offset nbytes; n = x1 - x0 + 1 in
      0 < vm_pagesize v \<and> 0 < nbytes \<and> uint offset + uint nbytes + uint (vm_pagesize v) < 2 ^ 32
      \<and> uint n + READAHEAD * uint (vm_pagesize v) < 2 ^ 31
      \<and> (\<forall>s \<in> set (sg_view (vm_heap v) xs). \<not> (same_file st s \<and> covers s x0)) \<and> \<not> needs_room v xs n)
     \<and> (\<forall>k. ve_calloc env k \<noteq> 0 \<and> ve_calloc env k \<notin> set xs)"

lemma vm_cacheregion_new:
  assumes inv: "vm_inv v xs" "vm_cache_enabled v" and fd: "vm_fds v fd = Some st"
    and span: "(x0, x1) = vm_span (vm_pagesize v) offset nbytes" "n = x1 - x0 + 1"
    and new: "region_new env v xs st offset nbytes" and addr: "addr = ve_mmap env (length (vm_trace v))" "addr \<noteq> 0"
  shows "\<exists>v' sp. vm_cacheregion env v fd offset nbytes acmode = Some (addr + uint (offset - x0), v') \<and> vm_inv v' (sp # xs) \<and> vm_conf v' = vm_conf v
    \<and> sg_view (vm_heap v') (sp # xs) = \<lparr>sg_next = 0, sg_prev = 0, sg_refcnt = 1, sg_addr = addr, sg_fd = fd, sg_inode = vs_ino st,
        sg_device = vs_dev st, sg_offset = x0, sg_nbytes = n\<rparr> # sg_view (vm_heap v) xs
    \<and> Mmap addr n (acmode = VM_READWRITE) fd x0 \<in> set (vm_trace v')
    \<and> uint x0 mod uint (vm_pagesize v) = 0 \<and> uint n mod uint (vm_pagesize v) = 0 \<and> x0 \<le> offset \<and> uint offset + uint nbytes \<le> uint x0 + uint n"
proof -
  have b: "0 < vm_pagesize v" "0 < nbytes" "uint offset + uint nbytes + uint (vm_pagesize v) < 2 ^ 32"
      "uint n + READAHEAD * uint (vm_pagesize v) < 2 ^ 31" "\<forall>s \<in> set (sg_view (vm_heap v) xs). \<not> (same_file st s \<and> covers s x0)" "\<not> needs_room v xs n"
      and alloc: "\<And>k. ve_calloc env k \<noteq> 0 \<and> ve_calloc env k \<notin> set xs"
    using new unfolding region_new_def span(1) [symmetric] by (simp_all add: span(2) Let_def)
  note region = vm_span_region [OF span b(1-3)]
  have l: "vm_list v xs" using inv(1) by (simp add: vm_inv_def)
  have "List.find (\<lambda>y. same_file st (the (vm_heap v y)) \<and> covers (the (vm_heap v y)) x0) xs = None"
    using b(5) by (auto simp: find_None_iff sg_view_def same_file_def covers_def)
  then have f: "find_seg (\<lambda>s. same_file st s \<and> covers s x0) (vm_heap v) (vm_segment_head v) = Some 0"
    using find_seg_head [OF l, of "\<lambda>s. same_file st s \<and> covers s x0"] by simp
  have r: "vm_reservespace env v n = Some (if n \<le> vm_cachesize v - vm_cacheused v then 0 else -1, v)" using vm_reservespace_result [OF inv] b(6) by simp
  define v2 where "v2 = vm_log (Mmap addr n (acmode = VM_READWRITE) fd x0) v"
  define v3 where "v3 = (if vm_lockpages v2 \<and> vm_cache_enabled v2 then vm_log (Mlock addr n) v2 else v2)"
  define sp where "sp = ve_calloc env (length (vm_trace v3))"
  define s where "s = \<lparr>sg_next = 0, sg_prev = 0, sg_refcnt = 0, sg_addr = addr, sg_fd = fd, sg_inode = vs_ino st, sg_device = vs_dev st, sg_offset = x0, sg_nbytes = n\<rparr>"
  have v3: "vm_inv v3 xs" "vm_heap v3 = vm_heap v" "vm_conf v3 = vm_conf v" "Mmap addr n (acmode = VM_READWRITE) fd x0 \<in> set (vm_trace v3)"
    using inv(1) by (auto simp: v3_def v2_def vm_log_def vm_inv_def vm_list_def vm_conf_def)
  have sp: "sp \<noteq> 0" "sp \<notin> set xs" using alloc by (auto simp: sp_def)
  obtain v4 where v4: "vm_insert sp s v3 = Some v4" "vm_inv v4 (sp # xs)" "sg_view (vm_heap v4) (sp # xs) = sg_body s # sg_view (vm_heap v3) xs"
      "vm_conf v4 = vm_conf v3" "vm_trace v4 = vm_trace v3"
    using vm_insert_list [OF v3(1) sp(2,1), of s] by (auto simp: s_def)
  obtain t where t: "vm_heap v4 sp = Some t" "sg_body t = sg_body s" using v4(2,3) by (auto simp: vm_inv_def vm_list_def)
  have c: "vm_cache_enabled v4" "vm_pagesize v4 = vm_pagesize v" using v4(4) v3(3) inv(2) by (simp_all add: vm_conf_def)
  obtain v5 es where v5: "region_refresh sp addr x0 n offset v4 = Some (addr + uint (offset - x0), v5)" "vm_inv v5 (sp # xs)"
      "sg_view (vm_heap v5) (sp # xs) = (sg_body t)\<lparr>sg_refcnt := sg_refcnt t + 1\<rparr> # sg_view (vm_heap v4) xs" "vm_conf v5 = vm_conf v4" "vm_trace v5 = vm_trace v4 @ es"
    by (rule region_refresh_head [OF v4(2) t(1) c(1), of n addr x0 offset]) (use c b(1,4) in simp_all)
  have "vm_cacheregion env v fd offset nbytes acmode = Some (addr + uint (offset - x0), v5)"
    using fd f r addr(2) sp(1) v4(1) v5(1)
    by (cases "vm_lockpages v2 \<and> vm_cache_enabled v2")
      (auto simp: vm_cacheregion_def Let_def span [symmetric] addr(1) [symmetric] v2_def [symmetric] s_def [symmetric] v3_def sp_def)
  moreover have "sg_refcnt t = 0" using t(2) by (metis sg_body_fields(2) s_def vm_segment.select_convs(3))
  ultimately show ?thesis using v5 v4 v3 t(2) region
    by (intro exI [of _ v5] exI [of _ sp]) (simp add: s_def sg_body_def)
qed

text \<open>C9.  A region that is not cached is mapped: when no room has to be made and the kernel maps its pages,
  \<open>vm_cacheregion\<close> enters a segment with one reference at the head of the list, in front of the segments
  that were there; the pages start and end at multiples of the page size and contain the region, and
  the address returned is that of the region in the mapping.\<close>

theorem vm_cacheregion_maps:
  assumes inv: "vm_inv v xs" "vm_cache_enabled v" and fd: "vm_fds v fd = Some st"
    and span: "(x0, x1) = vm_span (vm_pagesize v) offset nbytes" "n = x1 - x0 + 1"
    and new: "region_new env v xs st offset nbytes" and addr: "addr = ve_mmap env (length (vm_trace v))" "addr \<noteq> 0" "addr \<noteq> MAP_FAILED"
  shows "\<exists>v' sp. vm_cacheregion env v fd offset nbytes acmode = Some (addr + uint (offset - x0), v') \<and> vm_inv v' (sp # xs) \<and> vm_conf v' = vm_conf v
    \<and> sg_view (vm_heap v') (sp # xs) = \<lparr>sg_next = 0, sg_prev = 0, sg_refcnt = 1, sg_addr = addr, sg_fd = fd, sg_inode = vs_ino st,
        sg_device = vs_dev st, sg_offset = x0, sg_nbytes = n\<rparr> # sg_view (vm_heap v) xs
    \<and> Mmap addr n (acmode = VM_READWRITE) fd x0 \<in> set (vm_trace v')
    \<and> uint x0 mod uint (vm_pagesize v) = 0 \<and> uint n mod uint (vm_pagesize v) = 0 \<and> x0 \<le> offset \<and> uint offset + uint nbytes \<le> uint x0 + uint n"
  by (rule vm_cacheregion_new [OF inv fd span new addr(1,2)])

text \<open>C24.  A mapping that fails is cached all the same: \<open>mmap\<close> reports a failure with \<open>MAP_FAILED\<close>, which the code takes
  for an address; a segment with this address goes to the head of the list, its bytes count as used, and
  the caller gets an address computed from \<open>MAP_FAILED\<close> instead of the null pointer.\<close>

theorem vm_cacheregion_map_failed:
  assumes inv: "vm_inv v xs" "vm_cache_enabled v" and fd: "vm_fds v fd = Some st"
    and span: "(x0, x1) = vm_span (vm_pagesize v) offset nbytes"
    and new: "region_new env v xs st offset nbytes" and failed: "ve_mmap env (length (vm_trace v)) = MAP_FAILED"
  shows "\<exists>v' sp s. vm_cacheregion env v fd offset nbytes acmode = Some (MAP_FAILED + uint (offset - x0), v') \<and> vm_segment_head v' = sp
    \<and> vm_heap v' sp = Some s \<and> sg_addr s = MAP_FAILED \<and> sg_refcnt s = 1 \<and> vm_cacheused v' = vm_cacheused v + (x1 - x0 + 1)"
proof -
  obtain v' sp where v': "vm_cacheregion env v fd offset nbytes acmode = Some (MAP_FAILED + uint (offset - x0), v')" "vm_inv v' (sp # xs)"
      "sg_view (vm_heap v') (sp # xs) = \<lparr>sg_next = 0, sg_prev = 0, sg_refcnt = 1, sg_addr = MAP_FAILED, sg_fd = fd, sg_inode = vs_ino st,
        sg_device = vs_dev st, sg_offset = x0, sg_nbytes = x1 - x0 + 1\<rparr> # sg_view (vm_heap v) xs"
    using vm_cacheregion_new [OF inv fd span refl new failed [symmetric], of acmode] MAP_FAILED_def by force
  obtain s where s: "vm_heap v' sp = Some s" "vm_segment_head v' = sp" using v'(2) by (auto simp: vm_inv_def vm_list_def)
  have h: "sg_body s = \<lparr>sg_next = 0, sg_prev = 0, sg_refcnt = 1, sg_addr = MAP_FAILED, sg_fd = fd, sg_inode = vs_ino st,
        sg_device = vs_dev st, sg_offset = x0, sg_nbytes = x1 - x0 + 1\<rparr>" using v'(3) s(1) by simp
  have "sg_addr s = MAP_FAILED" "sg_refcnt s = 1" using arg_cong [OF h, of sg_addr] arg_cong [OF h, of sg_refcnt] by simp_all
  moreover have "vm_cacheused v' = vm_cacheused v + (x1 - x0 + 1)" using v'(2) inv(1) unfolding vm_inv_def v'(3) by simp
  ultimately show ?thesis using v'(1) s by blast
qed

text \<open>The reference count that \<open>vm_uncache\<close> leaves, and whether it removes the segment.\<close>

definition refcnt_after :: "32 word \<Rightarrow> vm_segment \<Rightarrow> int" where
  "refcnt_after flags s = (if sg_refcnt s \<le> 0 \<or> vm_flag flags VM_CANCELREFCNT then 0 else sg_refcnt s - 1)"

definition goes :: "bool \<Rightarrow> 32 word \<Rightarrow> vm_segment \<Rightarrow> bool" where
  "goes enabled flags s \<longleftrightarrow> refcnt_after flags s = 0 \<and> (vm_flag flags VM_DESTROYREGION \<or> \<not> enabled)"

definition unmapped :: "vm_event list \<Rightarrow> (addr_t \<times> ulong) list" where
  "unmapped es = List.map_filter (\<lambda>e. case e of Munmap a n \<Rightarrow> Some (a, n) | _ \<Rightarrow> None) es"

lemma unmapped_append [simp]: "unmapped (es @ fs) = unmapped es @ unmapped fs"
  by (simp add: unmapped_def map_filter_def)

lemma unmapped_simps [simp]: "unmapped [] = []" "unmapped [Munmap a n] = [(a, n)]" "unmapped [Dontneed a n] = []" "unmapped [CloseFd fd] = []"
  by (simp_all add: unmapped_def map_filter_def)

lemma vm_uncache_keeps:
  assumes "vm_inv v (us @ x # vs)" "vm_heap v x = Some s" "\<not> goes (vm_cache_enabled v) flags s"
  obtains v' where "vm_uncache env v x flags = Some (0, v')" "vm_inv v' (us @ x # vs)" "vm_conf v' = vm_conf v" "vm_trace v' = vm_trace v"
    "sg_view (vm_heap v') (us @ x # vs) = sg_view (vm_heap v) us @ (sg_body s)\<lparr>sg_refcnt := refcnt_after flags s\<rparr> # sg_view (vm_heap v) vs"
proof -
  let ?v = "v\<lparr>vm_heap := (vm_heap v)(x \<mapsto> s\<lparr>sg_refcnt := refcnt_after flags s\<rparr>)\<rparr>"
  have "vm_uncache env v x flags = Some (0, ?v)"
    using assms(2,3) by (auto simp: vm_uncache_def Let_def goes_def refcnt_after_def split: if_splits)
  then show ?thesis using vm_inv_refcnt [OF assms(1,2), of "refcnt_after flags s" ?v]
    by (intro that [of ?v]) (simp_all add: refcnt_after_def vm_conf_def)
qed

lemma vm_uncache_destroys:
  assumes inv: "vm_inv v (us @ x # vs)" "vm_heap v x = Some s" "goes (vm_cache_enabled v) flags s"
  obtains v' where "vm_uncache env v x flags = Some (if ve_munmap env (sg_addr s) (sg_nbytes s) then 0 else -1, v')" "vm_inv v' (us @ vs)" "vm_conf v' = vm_conf v"
    "unmapped (vm_trace v') = unmapped (vm_trace v) @ [(sg_addr s, sg_nbytes s)]" "sg_view (vm_heap v') (us @ vs) = sg_view (vm_heap v) (us @ vs)"
    "vm_heap v' x = None"
proof -
  let ?t = "s\<lparr>sg_refcnt := 0\<rparr>"
  define v1 where "v1 = v\<lparr>vm_heap := (vm_heap v)(x \<mapsto> ?t)\<rparr>"
  define v2 where "v2 = (if vm_cache_enabled v then vm_log (Dontneed (sg_addr s) (sg_nbytes s)) v1 else v1)"
  define v3 where "v3 = (vm_log (Munmap (sg_addr s) (sg_nbytes s)) v2)\<lparr>vm_cacheused := vm_cacheused v - sg_nbytes s\<rparr>"
  have d: "distinct (us @ x # vs)" using inv(1) by (simp add: vm_inv_def vm_list_def)
  have i1: "vm_inv v1 (us @ x # vs)" "sg_view (vm_heap v1) (us @ vs) = sg_view (vm_heap v) (us @ vs)"
    using vm_inv_refcnt(1) [OF inv(1,2), of 0 v1] d by (simp_all add: v1_def vm_conf_def)
  have same: "vm_heap v3 = vm_heap v1" "vm_segment_head v3 = vm_segment_head v1" "vm_segment_tail v3 = vm_segment_tail v1" "vm_conf v3 = vm_conf v"
      "vm_cacheused v3 = vm_cacheused v1 - sg_nbytes s" "unmapped (vm_trace v3) = unmapped (vm_trace v) @ [(sg_addr s, sg_nbytes s)]"
    by (simp_all add: v3_def v2_def v1_def vm_log_def vm_conf_def)
  have "vm_list v3 (us @ x # vs)" "vm_heap v3 x = Some ?t" using i1(1) same by (simp_all add: vm_inv_def vm_list_def v1_def)
  then obtain v4 where v4: "vm_unlink x v3 = Some v4" "vm_list (vm_free x v4) (us @ vs)"
      "sg_view (vm_heap (vm_free x v4)) (us @ vs) = sg_view (vm_heap v3) (us @ vs)" "vm_conf (vm_free x v4) = vm_conf v3"
      "vm_cacheused (vm_free x v4) = vm_cacheused v3" "vm_trace (vm_free x v4) = vm_trace v3"
    using unlink_freed [of v3 us x vs] by blast
  have "vm_uncache env v x flags = Some (if ve_munmap env (sg_addr s) (sg_nbytes s) then 0 else -1, vm_free x v4)"
    using inv(2,3) v4(1) by (auto simp: vm_uncache_def Let_def goes_def refcnt_after_def v1_def v2_def v3_def split: if_splits)
  moreover have view: "sg_view (vm_heap (vm_free x v4)) (us @ vs) = sg_view (vm_heap v) (us @ vs)" using v4(3) same(1) i1(2) by simp
  moreover have "vm_cacheused (vm_free x v4) = vm_cacheused v - sg_nbytes s" using v4(5) same(5) by (simp add: v1_def)
  then have "vm_inv (vm_free x v4) (us @ vs)" using v4(2) inv(1,2) unfolding vm_inv_def view by auto
  ultimately show ?thesis using v4 same i1(2) by (intro that [of "vm_free x v4"]) (simp_all add: vm_free_def vm_conf_def)
qed

lemma find_first: "List.find P us = None \<Longrightarrow> P x \<Longrightarrow> List.find P (us @ x # vs) = Some x"
  by (induction us) (auto split: if_splits)

text \<open>C10.  Releasing a region: \<open>vm_uncacheregion\<close> finds the segment that starts with the first page of the region
  and takes one reference away, never below zero; the segment stays in its place, unless its last
  reference goes and its destruction is asked for, or the cache is disabled: then it is unmapped and
  removed, and the status is that of \<open>munmap\<close>.\<close>

theorem vm_uncacheregion_releases:
  assumes inv: "vm_inv v (us @ x # vs)" "vm_heap v x = Some s" and fd: "vm_fds v fd = Some st"
    and first: "same_file st s" "sg_offset s = fst (vm_span (vm_pagesize v) offset nbytes)"
      "\<forall>t \<in> set (sg_view (vm_heap v) us). \<not> (same_file st t \<and> sg_offset t = fst (vm_span (vm_pagesize v) offset nbytes))"
  shows "\<exists>r v'. vm_uncacheregion env v fd offset nbytes flags = Some (r, v') \<and> vm_conf v' = vm_conf v
    \<and> (if goes (vm_cache_enabled v) flags s
       then vm_inv v' (us @ vs) \<and> sg_view (vm_heap v') (us @ vs) = sg_view (vm_heap v) (us @ vs)
         \<and> unmapped (vm_trace v') = unmapped (vm_trace v) @ [(sg_addr s, sg_nbytes s)] \<and> r = (if ve_munmap env (sg_addr s) (sg_nbytes s) then 0 else -1)
       else vm_inv v' (us @ x # vs) \<and> vm_trace v' = vm_trace v \<and> r = 0
         \<and> sg_view (vm_heap v') (us @ x # vs) = sg_view (vm_heap v) us @ (sg_body s)\<lparr>sg_refcnt := refcnt_after flags s\<rparr> # sg_view (vm_heap v) vs)"
proof -
  let ?P = "\<lambda>s. same_file st s \<and> sg_offset s = fst (vm_span (vm_pagesize v) offset nbytes)"
  have l: "vm_list v (us @ x # vs)" using inv(1) by (simp add: vm_inv_def)
  have x: "x \<noteq> 0" using l dll_alloc [of "vm_heap v" 0 "us @ x # vs" 0 x] by (simp add: vm_list_def)
  have "List.find (\<lambda>y. ?P (the (vm_heap v y))) us = None" using first(3) by (auto simp: find_None_iff sg_view_def same_file_def)
  then have "List.find (\<lambda>y. ?P (the (vm_heap v y))) (us @ x # vs) = Some x" using first(1,2) inv(2) by (simp add: find_first)
  then have f: "find_seg ?P (vm_heap v) (vm_segment_head v) = Some x" using find_seg_head [OF l, of ?P] by simp
  have u: "vm_uncacheregion env v fd offset nbytes flags = vm_uncache env v x flags" using f x fd by (simp add: vm_uncacheregion_def)
  show ?thesis
  proof (cases "goes (vm_cache_enabled v) flags s")
    case True
    show ?thesis by (rule vm_uncache_destroys [OF inv True, of env]) (use u True in auto)
  next
    case False
    show ?thesis by (rule vm_uncache_keeps [OF inv False, of env]) (use u False in auto)
  qed
qed

subsection \<open>Closing the cache\<close>

text \<open>A cache that holds a segment cannot be closed: \<open>vm_closecache\<close> unmaps the segment at the head, frees its
  descriptor and then reads the file descriptor from it, so it has no defined result; nor has
  \<open>vm_initcache\<close>, which closes the old cache first, whatever options it is given.\<close>

theorem vm_closecache_use_after_free:
  assumes "vm_inv v (x # xs)" "vm_cache_initialized v"
  shows "vm_closecache env v = None \<and> vm_initcache env v initstr = None"
proof -
  let ?f = "VM_DESTROYREGION OR VM_CANCELREFCNT"
  obtain s where s: "vm_heap v x = Some s" "x \<noteq> 0" "vm_segment_head v = x" using assms(1) by (auto simp: vm_inv_def vm_list_def)
  have g: "goes (vm_cache_enabled v) ?f s" by (simp add: goes_def refcnt_after_def vm_flag_def VM_DESTROYREGION_def VM_CANCELREFCNT_def)
  have inv: "vm_inv v ([] @ x # xs)" using assms(1) by simp
  obtain r v1 where "vm_uncache env v x ?f = Some (r, v1)" "vm_heap v1 x = None" by (rule vm_uncache_destroys [OF inv s(1) g]) auto
  then have "vm_close_loop env v = None" using s by (subst vm_close_loop.simps) simp
  then have "vm_closecache env v = None" using assms(2) by (simp add: vm_closecache_def)
  then show ?thesis by (auto simp: vm_initcache_def bind_eq_None_conv)
qed

subsection \<open>Writing segments back\<close>

lemma sync_loop_flushes:
  assumes "dll (vm_heap v) p xs 0"
  shows "\<exists>status'. sync_loop env st P async v status (if xs = [] then 0 else hd xs) = Some (status',
    v\<lparr>vm_trace := vm_trace v @ map (\<lambda>s. Msync (sg_addr s) (sg_nbytes s) async) (filter (\<lambda>s. same_file st s \<and> P s) (map (\<lambda>x. the (vm_heap v x)) xs))\<rparr>)"
  using assms
proof (induction xs arbitrary: p v status)
  case Nil
  then show ?case by (simp add: sync_loop.simps)
next
  case (Cons x xs)
  then obtain s where s: "vm_heap v x = Some s" "x \<noteq> 0" "sg_next s = (if xs = [] then 0 else hd xs)" by auto
  let ?v = "if same_file st s \<and> P s then vm_log (Msync (sg_addr s) (sg_nbytes s) async) v else v"
  have d: "dll (vm_heap ?v) x xs 0" using Cons.prems by (simp add: vm_log_def)
  have "\<exists>status''. sync_loop env st P async v status x = sync_loop env st P async ?v status'' (if xs = [] then 0 else hd xs)"
    using s by (subst sync_loop.simps) auto
  then show ?case using Cons.IH [OF d] s(1) by (auto simp: vm_log_def)
qed

text \<open>\<open>vm_sync\<close> flushes the segments of the file that begin with the region, or all segments of the file if no
  number of bytes is given, in the order of the list, and changes nothing else.\<close>

lemma vm_sync_flushes:
  assumes "vm_inv v xs" "vm_cache_enabled v" "vm_fds v fd = Some st"
  shows "\<exists>r. vm_sync env v fd offset nbytes flags = Some (r, v\<lparr>vm_trace := vm_trace v @ map (\<lambda>s. Msync (sg_addr s) (sg_nbytes s) (vm_flag flags VM_ASYNC))
    (filter (\<lambda>s. same_file st s \<and> (nbytes = 0 \<or> sg_offset s = fst (vm_span (vm_pagesize v) offset nbytes))) (map (\<lambda>x. the (vm_heap v x)) xs))\<rparr>)"
  using sync_loop_flushes [of v 0 xs env st "\<lambda>s. nbytes = 0 \<or> sg_offset s = fst (vm_span (vm_pagesize v) offset nbytes)" "vm_flag flags VM_ASYNC" 0] assms
  by (simp add: vm_sync_def vm_inv_def vm_list_def)

subsection \<open>Where it goes wrong\<close>



lemma init_scan_stuck:
  assumes "\<not> c_isspace c" "\<not> c_isalnum c" "c \<noteq> CHR '',''" "c \<noteq> CHR ''=''"
  shows "init_scan (c # cs) opts = None"
proof -
  have step: "dropWhile (\<lambda>c. c_isspace c \<or> c = CHR '','') (c # cs) = c # cs" "takeWhile c_isalnum (c # cs) = []" "dropWhile c_isalnum (c # cs) = c # cs"
      "dropWhile (\<lambda>c. c_isspace c \<or> c = CHR ''='') (c # cs) = c # cs" using assms by simp_all
  let ?P = "\<lambda>ip opts r. ip = c # cs \<longrightarrow> False"
  have False if r: "init_scan (c # cs) opts = Some r" for r
  proof -
    have "?P (c # cs) opts r"
    proof (rule init_scan.raw_induct [where P = ?P, OF _ r], intro impI)
      fix scan ip opts r
      assume IH: "\<And>ip opts r. scan ip opts = Some r \<Longrightarrow> ?P ip opts r" and ip: "ip = c # cs"
        and body: "(if ip = [] then Some opts
          else let ip1 = dropWhile (\<lambda>c. c_isspace c \<or> c = CHR '','') ip; keyword = takeWhile c_isalnum ip1;
                   ip2 = dropWhile (\<lambda>c. c_isspace c \<or> c = CHR ''='') (dropWhile c_isalnum ip1); valstr = takeWhile c_isalnum ip2
               in if SZ_NAME \<le> length keyword \<or> SZ_NAME \<le> length valstr then None else scan (dropWhile c_isalnum ip2) (set_vm_opt keyword valstr opts)) = Some r"
      then have "scan (c # cs) (set_vm_opt [] [] opts) = Some r" unfolding ip Let_def step by (simp add: SZ_NAME_def)
      then show False using IH by blast
    qed
    then show False by simp
  qed
  then show ?thesis by (cases "init_scan (c # cs) opts") auto
qed

lemma show_nat_alnum: "takeWhile c_isalnum (show_nat n @ s) = show_nat n @ takeWhile c_isalnum s" "dropWhile c_isalnum (show_nat n @ s) = dropWhile c_isalnum s"
  using show_nat_digits [of n] by (auto simp: list_all_iff c_isalnum_def takeWhile_append2 dropWhile_append2)

lemma scan_cachesize:
  assumes "length (show_nat n @ takeWhile c_isalnum s) < SZ_NAME"
  shows "init_scan (''cachesize='' @ show_nat n @ s) opts = init_scan (dropWhile c_isalnum s) (opts\<lparr>vo_cachesize := show_nat n @ takeWhile c_isalnum s\<rparr>)"
proof -
  have a: "takeWhile c_isalnum (''cachesize='' @ t) = ''cachesize''" "dropWhile c_isalnum (''cachesize='' @ t) = CHR ''='' # t"
      "dropWhile (\<lambda>c. c_isspace c \<or> c = CHR '','') (''cachesize='' @ t) = ''cachesize='' @ t" for t
    by (simp_all add: c_isalnum_def c_isdigit_def c_isupper_def c_islower_def c_isspace_def c_code_def)
  have d: "dropWhile (\<lambda>c. c_isspace c \<or> c = CHR ''='') (CHR ''='' # show_nat n @ s) = show_nat n @ s"
  proof (cases "show_nat n")
    case (Cons c cs)
    then have "c_isdigit c" using show_nat_digits [of n] by simp
    then have "\<not> c_isspace c" "c \<noteq> CHR ''=''" by (auto simp: c_isdigit_def c_isspace_def c_code_def)
    then show ?thesis using Cons by simp
  qed (simp add: show_nat.simps [of n] split: if_splits)
  show ?thesis using assms
    by (subst init_scan.simps, unfold Let_def a d show_nat_alnum) (simp add: set_vm_opt_def SZ_NAME_def)
qed

text \<open>C33.  A size in per cent, which the documentation allows, hangs the initialisation: the value is read up to the
  sign of per cent, which no part of the scanner skips, so \<open>vm_initcache\<close> never returns.\<close>

theorem vm_initcache_percent_hangs:
  assumes "length (show_nat n) < SZ_NAME"
  shows "vm_initcache env v (Some (''cachesize='' @ show_nat n @ ''%'' @ rest)) = None"
proof -
  have c: "\<not> c_isspace CHR ''%''" "\<not> c_isalnum CHR ''%''" by (simp_all add: c_isspace_def c_isalnum_def c_isdigit_def c_isupper_def c_islower_def c_code_def)
  then have "init_scan (''cachesize='' @ show_nat n @ ''%'' @ rest) opts = None" for opts
    using scan_cachesize [of n "''%'' @ rest" opts] init_scan_stuck [of "CHR ''%''" rest] assms by simp
  then show ?thesis by (simp only: vm_initcache_def option.case bind.bind_lzero)
qed

subsection \<open>Initialisation with a size\<close>

definition vm_unit :: "char \<Rightarrow> ulong option" where
  "vm_unit c = (if c = CHR ''k'' \<or> c = CHR ''K'' then Some 1024 else if c = CHR ''m'' \<or> c = CHR ''M'' then Some (1024 * 1024)
     else if c = CHR ''g'' \<or> c = CHR ''G'' then Some (1024 * 1024 * 1024) else None)"

lemma vm_unit_char: "vm_unit c = Some u \<Longrightarrow> c_isalnum c \<and> \<not> c_isdigit c \<and> c \<noteq> CHR ''%''"
proof -
  assume "vm_unit c = Some u"
  then have "c \<in> {CHR ''k'', CHR ''K'', CHR ''m'', CHR ''M'', CHR ''g'', CHR ''G''}" by (simp add: vm_unit_def split: if_splits) blast+
  then show ?thesis by (elim insertE emptyE) (simp_all add: c_isalnum_def c_isdigit_def c_isupper_def c_islower_def c_code_def)
qed

lemma cache_size_unit:
  assumes "vm_unit c = Some u" "n < 2 ^ 31"
  shows "cache_size env (show_nat n @ [c]) = of_nat n * u"
proof -
  note c = vm_unit_char [OF assms(1)]
  have v: "digits_val 0 (show_nat n @ [c]) = int n" using c by (simp add: digits_val_append show_nat_digits digits_val_show_nat)
  have s: "sint (word_of_int (min (int n) (2 ^ 31 - 1)) :: 32 word) = int n" using assms(2) by (simp add: min_def signed_of_nat signed_take_bit_int_eq_self)
  have m: "dropWhile c_isdigit (show_nat n @ [c]) = [c]" using c show_nat_digits [of n] by (simp add: list_all_iff dropWhile_append2)
  have "show_nat n \<noteq> []" by (simp add: show_nat.simps [of n])
  then show ?thesis using assms(1) c unfolding cache_size_def v s m Let_def by (auto simp: char0_def vm_unit_def split: if_splits)
qed

text \<open>A cache size given in kilobytes, megabytes or gigabytes is taken, modulo the range of \<open>unsigned long\<close>, when the
  cache is not open or holds no segment: the list is empty, and the size is the number times the unit.\<close>

theorem vm_initcache_sizes:
  assumes "vm_cache_initialized v \<longrightarrow> vm_segment_head v = 0" "vm_unit c = Some u" "n < 2 ^ 31"
  shows "\<exists>v'. vm_initcache env v (Some (''cachesize='' @ show_nat n @ [c])) = Some v' \<and> vm_inv v' [] \<and> vm_cachesize v' = of_nat n * u
    \<and> vm_cache_initialized v' \<and> vm_cache_enabled v' \<and> \<not> vm_lockpages v' \<and> vm_pagesize v' = ve_getpagesize env \<and> vm_trace v' = vm_trace v"
proof -
  note c = vm_unit_char [OF assms(2)]
  have "length (show_nat n) \<le> 10" using show_nat_length [of n 9] assms(3) by simp
  then have o: "init_scan (''cachesize='' @ show_nat n @ [c]) opts = Some (opts\<lparr>vo_cachesize := show_nat n @ [c]\<rparr>)" for opts
    using scan_cachesize [of n "[c]" opts] c by (simp add: SZ_NAME_def init_scan.simps [of "[]"])
  obtain v1 where v1: "vm_closecache env v = Some v1" "vm_trace v1 = vm_trace v"
    using assms(1) by (cases "vm_cache_initialized v") (auto simp: vm_closecache_def vm_close_loop.simps)
  then show ?thesis using cache_size_unit [OF assms(2,3), of env] unfolding vm_initcache_def option.case o by (simp add: vm_inv_def vm_list_def)
qed

subsection \<open>Example\<close>

text \<open>Two cached files of one page each: the first in use, the second not.\<close>

definition seg_used :: vm_segment where
  "seg_used = \<lparr>sg_next = 2, sg_prev = 0, sg_refcnt = 1, sg_addr = 65536, sg_fd = 3, sg_inode = 7, sg_device = 1, sg_offset = 0, sg_nbytes = 4096\<rparr>"

definition seg_idle :: vm_segment where
  "seg_idle = \<lparr>sg_next = 0, sg_prev = 1, sg_refcnt = 0, sg_addr = 69632, sg_fd = 4, sg_inode = 8, sg_device = 1, sg_offset = 0, sg_nbytes = 4096\<rparr>"

definition sample_vm :: vmcache where
  "sample_vm = \<lparr>vm_segment_head = 1, vm_segment_tail = 2, vm_cache_initialized = True, vm_cache_enabled = True, vm_cacheused = 8192, vm_cachesize = 16384,
     vm_physmem = 4096000, vm_lockpages = True, vm_pagesize = 4096, vm_heap = [1 \<mapsto> seg_used, 2 \<mapsto> seg_idle],
     vm_fds = [3 \<mapsto> \<lparr>vs_ino = 7, vs_dev = 1, vs_size = 100\<rparr>, 4 \<mapsto> \<lparr>vs_ino = 8, vs_dev = 1, vs_size = 100\<rparr>, 5 \<mapsto> \<lparr>vs_ino = 9, vs_dev = 1, vs_size = 9000\<rparr>],
     vm_trace = []\<rparr>"

definition sample_ve :: vm_env where
  "sample_ve = \<lparr>ve_open = (\<lambda>_. 6), ve_stat = (\<lambda>_. None), ve_mmap = (\<lambda>k. 1048576 + 65536 * int k), ve_calloc = (\<lambda>k. 10 + k), ve_munmap = (\<lambda>_ _. True),
     ve_msync = (\<lambda>_ _. True), ve_unset = 99, ve_physpages = 1000, ve_getpagesize = 4096\<rparr>"

lemma sample_vm_inv: "vm_inv sample_vm [1, 2]" "vm_inv sample_vm ([1] @ [2])" "vm_inv sample_vm ([] @ 1 # [2])"
  by (simp_all add: vm_inv_def vm_list_def sample_vm_def seg_used_def seg_idle_def)

lemma sample_view: "sg_view (vm_heap sample_vm) [1, 2] = [sg_body seg_used, sg_body seg_idle]"
  by (simp add: sample_vm_def)

lemmas sample_vm_defs = sample_vm_def seg_used_def seg_idle_def same_file_def covers_def


theorem vm_reservespace_overcommitted_witness:
  "vm_reservespace sample_ve (sample_vm\<lparr>vm_cachesize := 4096\<rparr>) 8192 = Some (0, sample_vm\<lparr>vm_cachesize := 4096\<rparr>)"
proof (rule vm_reservespace_overcommitted)
  show "vm_inv (sample_vm\<lparr>vm_cachesize := 4096\<rparr>) [1, 2]" using sample_vm_inv(1) by (simp add: vm_inv_def vm_list_def)
qed (simp_all add: sample_vm_def)

lemma sample_new: "region_new sample_ve sample_vm [1, 2] \<lparr>vs_ino = 9, vs_dev = 1, vs_size = 9000\<rparr> 5000 100" "(4096, 8191) = vm_span (vm_pagesize sample_vm) 5000 100"
    "vm_fds sample_vm 5 = Some \<lparr>vs_ino = 9, vs_dev = 1, vs_size = 9000\<rparr>" "vm_cache_enabled sample_vm"
  by (simp_all add: region_new_def needs_room_def vm_span_def sample_view) (auto simp: sample_vm_defs sample_ve_def READAHEAD_def vm_span_def)

theorem vm_cacheregion_maps_witness:
  "\<exists>v' sp. vm_cacheregion sample_ve sample_vm 5 5000 100 VM_READWRITE = Some (1048576 + 904, v') \<and> vm_inv v' [sp, 1, 2]
    \<and> Mmap 1048576 4096 True 5 4096 \<in> set (vm_trace v')"
proof -
  have a: "1048576 = ve_mmap sample_ve (length (vm_trace sample_vm))" "(1048576 :: addr_t) \<noteq> 0" "1048576 \<noteq> MAP_FAILED" "4096 = 8191 - 4096 + (1::ulong)"
    by (simp_all add: sample_ve_def sample_vm_def MAP_FAILED_def)
  show ?thesis using vm_cacheregion_maps [OF sample_vm_inv(1) sample_new(4,3,2) a(4) sample_new(1) a(1-3), of VM_READWRITE] by force
qed

theorem vm_cacheregion_map_failed_witness:
  "\<exists>v' s. vm_cacheregion (sample_ve\<lparr>ve_mmap := (\<lambda>_. MAP_FAILED)\<rparr>) sample_vm 5 5000 100 VM_READWRITE = Some (903, v')
    \<and> vm_heap v' (vm_segment_head v') = Some s \<and> sg_addr s = MAP_FAILED \<and> vm_cacheused v' = 12288"
proof -
  have n: "region_new (sample_ve\<lparr>ve_mmap := (\<lambda>_. MAP_FAILED)\<rparr>) sample_vm [1, 2] \<lparr>vs_ino = 9, vs_dev = 1, vs_size = 9000\<rparr> 5000 100"
    using sample_new(1) by (simp add: region_new_def)
  have u: "vm_cacheused sample_vm = 8192" "MAP_FAILED + 904 = 903" by (simp_all add: sample_vm_def MAP_FAILED_def)
  show ?thesis using vm_cacheregion_map_failed [OF sample_vm_inv(1) sample_new(4,3,2) n, of VM_READWRITE] u by force
qed

theorem vm_uncacheregion_releases_witness:
  "\<exists>v'. vm_uncacheregion sample_ve sample_vm 3 10 20 VM_DESTROYREGION = Some (0, v') \<and> vm_inv v' [2] \<and> unmapped (vm_trace v') = [(65536, 4096)]"
proof -
  have h: "vm_heap sample_vm 1 = Some seg_used" "vm_fds sample_vm 3 = Some \<lparr>vs_ino = 7, vs_dev = 1, vs_size = 100\<rparr>" by (simp_all add: sample_vm_def)
  have first: "same_file \<lparr>vs_ino = 7, vs_dev = 1, vs_size = 100\<rparr> seg_used" "sg_offset seg_used = fst (vm_span (vm_pagesize sample_vm) 10 20)"
      "\<forall>t \<in> set (sg_view (vm_heap sample_vm) []). \<not> (same_file \<lparr>vs_ino = 7, vs_dev = 1, vs_size = 100\<rparr> t \<and> sg_offset t = fst (vm_span (vm_pagesize sample_vm) 10 20))"
    by (simp_all add: sample_vm_defs vm_span_def)
  have "goes (vm_cache_enabled sample_vm) VM_DESTROYREGION seg_used"
    by (simp add: goes_def refcnt_after_def vm_flag_def VM_DESTROYREGION_def VM_CANCELREFCNT_def seg_used_def)
  then show ?thesis using vm_uncacheregion_releases [OF sample_vm_inv(3) h first, of sample_ve VM_DESTROYREGION]
    by (force simp: sample_ve_def seg_used_def sample_vm_def)
qed

theorem vm_closecache_use_after_free_witness: "vm_closecache sample_ve sample_vm = None \<and> vm_initcache sample_ve sample_vm (Some ''cachesize=312m'') = None"
  by (rule vm_closecache_use_after_free [OF sample_vm_inv(1)]) (simp add: sample_vm_def)


theorem vm_initcache_percent_hangs_witness: "vm_initcache sample_ve sample_vm (Some (''cachesize='' @ show_nat 50 @ ''%'' @ [])) = None"
  by (rule vm_initcache_percent_hangs) (simp add: show_nat.simps SZ_NAME_def)

theorem vm_initcache_sizes_witness:
  "\<exists>v'. vm_initcache sample_ve (sample_vm\<lparr>vm_cache_initialized := False\<rparr>) (Some (''cachesize='' @ show_nat 312 @ ''m'')) = Some v'
    \<and> vm_cachesize v' = 327155712 \<and> vm_inv v' []"
  using vm_initcache_sizes [of "sample_vm\<lparr>vm_cache_initialized := False\<rparr>" "CHR ''m''" "1024 * 1024" 312] by (auto simp: vm_unit_def)

end
