(* ===== verification/DcaPixels.thy ===== *)
theory DcaPixels
  imports Prelude "HOL-Library.Monad_Syntax"
begin

section \<open>Writing pixels to the image file (mosdca/mosdca.c, mosdca/dsim.c)\<close>

text \<open>
  The DCA receives blocks of pixels.  A block holds streams; each stream is spread over lines or
  columns of one of the images of the file, which is mapped into memory.

  \<^item> An image file that has been configured is a list of images and a list of descriptors for i/o
    regions; the images are numbered from 1.  The pixels of an image are the \<open>PIXTYPE\<close> (\<open>int\<close>) values of
    its part of the mapping, without the padding behind it.
  \<^item> A pointer to a pixel is the distance in bytes from the first pixel of the image.  A result \<open>None\<close> is an
    access outside the image or the block, an access to an address that is not that of an \<open>int\<close>, or a
    loop that does not end.
  \<^item> Coordinates, counts and byte offsets are integers without a bound: an image of fewer than \<open>2 ^ 31\<close> bytes is
    assumed, so that the products in the code do not overflow.
\<close>

unbundle bit_operations_syntax

type_synonym pixtype = "32 word"
type_synonym cbyte = "8 word"

definition MAXDIM :: nat where "MAXDIM = 8"
definition M_WRITING :: int where "M_WRITING = 3"
definition DSO_RDWR :: int where "DSO_RDWR = 1"

record dca_stream =
  ds_offset :: int
  ds_npix :: int
  ds_stride :: int
  ds_destimage :: int
  ds_x0 :: int
  ds_y0 :: int
  ds_xstep :: int
  ds_ystep :: int
  ds_xydir :: bool

subsection \<open>Byte order and encoding\<close>

datatype pix_code = NoCode | UShortCode | IntCode

text \<open>Exchanging the bytes of every pair; an odd byte stays.\<close>

fun bswap2 :: "cbyte list \<Rightarrow> cbyte list" where
  "bswap2 (a # b # bs) = b # a # bswap2 bs"
| "bswap2 bs = bs"

text \<open>The 2-byte integers of a buffer in the order of the host: \<open>little\<close> is \<open>host_swap2()\<close>.\<close>

definition get16 :: "bool \<Rightarrow> cbyte \<Rightarrow> cbyte \<Rightarrow> 16 word" where
  "get16 little a b = (if little then push_bit 8 (ucast b) OR ucast a else push_bit 8 (ucast a) OR ucast b)"

definition put16 :: "bool \<Rightarrow> 16 word \<Rightarrow> cbyte list" where
  "put16 little w = (if little then [ucast w, ucast (drop_bit 8 w)] else [ucast (drop_bit 8 w), ucast w])"

fun map16 :: "bool \<Rightarrow> (16 word \<Rightarrow> 16 word) \<Rightarrow> cbyte list \<Rightarrow> cbyte list" where
  "map16 little f (a # b # bs) = put16 little (f (get16 little a b)) @ map16 little f bs"
| "map16 little f bs = bs"

text \<open>The DCA encodes a buffer in place; \<open>swapped\<close> tells the order of the bytes of the input.\<close>

definition EncodeUShort :: "bool \<Rightarrow> cbyte list \<Rightarrow> bool \<Rightarrow> cbyte list" where
  "EncodeUShort little pixels swapped =
     (let p1 = (if swapped \<noteq> little then bswap2 pixels else pixels);
          p2 = map16 little (\<lambda>w. word_of_int (uint w - 32768)) p1
      in if little then bswap2 p2 else p2)"

definition DecodeUShort :: "bool \<Rightarrow> cbyte list \<Rightarrow> bool \<Rightarrow> cbyte list" where
  "DecodeUShort little pixels swapped =
     (let p1 = (if little then bswap2 pixels else pixels);
          p2 = map16 little (\<lambda>w. word_of_int (sint w + 32768)) p1
      in if swapped \<noteq> little then bswap2 p2 else p2)"

text \<open>Four bytes as an integer, the first one most significant, and the bytes of an integer in memory.\<close>

definition be32 :: "cbyte \<Rightarrow> cbyte \<Rightarrow> cbyte \<Rightarrow> cbyte \<Rightarrow> pixtype" where
  "be32 a b c d = push_bit 24 (ucast a) OR push_bit 16 (ucast b) OR push_bit 8 (ucast c) OR ucast d"

definition put32 :: "bool \<Rightarrow> pixtype \<Rightarrow> cbyte list" where
  "put32 little w = (let bs = [ucast (drop_bit 24 w), ucast (drop_bit 16 w), ucast (drop_bit 8 w), ucast w] in if little then rev bs else bs)"

fun EncodeInt :: "bool \<Rightarrow> cbyte list \<Rightarrow> cbyte list" where
  "EncodeInt little (a # b # c # d # bs) = put32 little (be32 a b c d) @ EncodeInt little bs"
| "EncodeInt little bs = bs"

fun get_ints :: "bool \<Rightarrow> cbyte list \<Rightarrow> pixtype list" where
  "get_ints little (a # b # c # d # bs) = (if little then be32 d c b a else be32 a b c d) # get_ints little bs"
| "get_ints little bs = []"

subsection \<open>Images and i/o regions\<close>

record ds_image =
  im_naxes :: nat
  im_axlen :: "int list"
  im_pixsize :: int
  im_encode :: pix_code
  im_pixels :: "pixtype list"

record ioregion =
  io_image :: nat
  io_iomode :: int
  io_sv :: "int list"
  io_nv :: "int list"
  io_stride :: "int list"
  io_pixsize :: int

record dsimage =
  di_images :: "ds_image list"
  di_iolist :: "ioregion list"

definition dsim_axlen :: "dsimage \<Rightarrow> int \<Rightarrow> nat \<Rightarrow> int" where
  "dsim_axlen ds img axis =
     (if img < 1 \<or> int (length (di_images ds)) < img then -1 else im_axlen (di_images ds ! nat (img - 1)) ! axis)"

definition dsim_EncodePixels :: "bool \<Rightarrow> dsimage \<Rightarrow> int \<Rightarrow> cbyte list \<Rightarrow> bool \<Rightarrow> int \<times> cbyte list" where
  "dsim_EncodePixels little ds img pixels swapped =
     (if img < 1 \<or> int (length (di_images ds)) < img then (-1, pixels)
      else (0, case im_encode (di_images ds ! nat (img - 1)) of
             NoCode \<Rightarrow> pixels | UShortCode \<Rightarrow> EncodeUShort little pixels swapped | IntCode \<Rightarrow> EncodeInt little pixels))"

definition unused_io :: ioregion where
  "unused_io = \<lparr>io_image = 0, io_iomode = 0, io_sv = [], io_nv = [], io_stride = [], io_pixsize = 0\<rparr>"

text \<open>The distance between neighbours along each axis.\<close>

fun strides :: "int \<Rightarrow> int list \<Rightarrow> nat \<Rightarrow> int list" where
  "strides s axlen 0 = []"
| "strides s axlen (Suc n) = s # strides (s * hd axlen) (tl axlen) n"

text \<open>\<open>alloc n\<close> tells whether there is memory for \<open>n\<close> descriptors.  The result is the index of the descriptor,
  or \<open>None\<close> for the null pointer.\<close>

definition dsim_StartIO :: "(nat \<Rightarrow> bool) \<Rightarrow> dsimage \<Rightarrow> int \<Rightarrow> int \<Rightarrow> int list \<Rightarrow> int list \<Rightarrow> (nat option \<times> dsimage) option" where
  "dsim_StartIO alloc ds img mode sv nv =
     (if img < 1 \<or> int (length (di_images ds)) < img then Some (None, ds)
      else let im = di_images ds ! nat (img - 1); naxes = im_naxes im in
        if length sv < naxes \<or> length nv < naxes then None
        else if \<exists>i < naxes. sv ! i < 0 \<or> im_axlen im ! i < sv ! i + nv ! i then Some (None, ds)
        else
          let nregions = max 4 (2 * length (di_iolist ds));
              fill = (\<lambda>k. map (\<lambda>i. if i < naxes then k ! i else 1) [0..<MAXDIM]);
              rp = \<lparr>io_image = nat img, io_iomode = mode, io_sv = fill sv, io_nv = fill nv, io_stride = strides 1 (im_axlen im) MAXDIM,
                    io_pixsize = im_pixsize im\<rparr>
          in case first_index (\<lambda>r. io_image r = 0) (di_iolist ds) of
               Some k \<Rightarrow> Some (Some k, ds\<lparr>di_iolist := (di_iolist ds)[k := rp]\<rparr>)
             | None \<Rightarrow>
                 if \<not> alloc nregions then Some (None, ds)
                 else let k = length (di_iolist ds) in
                   Some (Some k, ds\<lparr>di_iolist := (di_iolist ds @ replicate (nregions - k) unused_io)[k := rp]\<rparr>))"

definition dsim_FinishIO :: "dsimage \<Rightarrow> nat \<Rightarrow> int \<times> dsimage" where
  "dsim_FinishIO ds k = (0, ds\<lparr>di_iolist := (di_iolist ds)[k := (di_iolist ds ! k)\<lparr>io_image := 0\<rparr>]\<rparr>)"

definition dsim_Pixel2D :: "ioregion \<Rightarrow> int \<times> int \<Rightarrow> int" where
  "dsim_Pixel2D rp ij = (case ij of (i, j) \<Rightarrow> (j * io_stride rp ! 1 + i) * io_pixsize rp)"

subsection \<open>Copying a stream\<close>

text \<open>\<open>*op = *ip\<close>: the index of the input, the byte offset of the output.\<close>

definition copy_pixel :: "pixtype list \<Rightarrow> int \<Rightarrow> int \<Rightarrow> pixtype list \<Rightarrow> pixtype list option" where
  "copy_pixel src ip op dst =
     (if ip < 0 \<or> int (length src) \<le> ip \<or> op mod 4 \<noteq> 0 \<or> op < 0 \<or> 4 * int (length dst) \<le> op then None
      else Some (dst[nat (op div 4) := src ! nat ip]))"

fun copy_run :: "pixtype list \<Rightarrow> int \<Rightarrow> int \<Rightarrow> nat \<Rightarrow> int \<Rightarrow> int \<Rightarrow> pixtype list \<Rightarrow> pixtype list option" where
  "copy_run src istep ostep 0 ip op dst = Some dst"
| "copy_run src istep ostep (Suc n) ip op dst =
     (case copy_pixel src ip op dst of None \<Rightarrow> None | Some d \<Rightarrow> copy_run src istep ostep n (ip + istep) (op + 4 * ostep) d)"

text \<open>The loop over lines or columns: \<open>avail\<close> is the number of pixels up to the edge, \<open>next_run\<close> the start of the next
  line or column.\<close>

partial_function (option) fill_loop ::
  "pixtype list \<Rightarrow> int \<Rightarrow> int \<Rightarrow> (int \<times> int \<Rightarrow> int) \<Rightarrow> (int \<times> int \<Rightarrow> int \<times> int) \<Rightarrow> (int \<times> int \<Rightarrow> int) \<Rightarrow> int \<Rightarrow> int \<Rightarrow> int \<times> int \<Rightarrow> pixtype list
     \<Rightarrow> pixtype list option" where
  "fill_loop src istep ostep avail next_run pixel nleft ip ij dst =
     (if nleft \<le> 0 then Some dst
      else let np = min nleft (avail ij) in
        case copy_run src istep ostep (nat np) ip (pixel ij) dst of None \<Rightarrow> None
        | Some d \<Rightarrow> fill_loop src istep ostep avail next_run pixel (nleft - np) (ip + int (nat np) * istep) (next_run ij) d)"

text \<open>The divisions are of numbers that are not negative.\<close>

definition WritePixels :: "ioregion \<Rightarrow> int \<Rightarrow> int \<Rightarrow> pixtype list \<Rightarrow> dca_stream \<Rightarrow> pixtype list \<Rightarrow> (int \<times> pixtype list) option" where
  "WritePixels rp axlen1 axlen2 pixels sp dst =
     (let dx = ds_xstep sp; dy = ds_ystep sp;
          fill = (\<lambda>ostep avail next_run. map_option (Pair 0)
            (fill_loop pixels (ds_stride sp) ostep avail next_run (dsim_Pixel2D rp) (ds_npix sp) (ds_offset sp) (ds_x0 sp, ds_y0 sp) dst))
      in if ds_xydir sp \<and> 0 < dy then fill (dy * axlen1) (\<lambda>(i, j). (axlen2 - j) div abs dy) (\<lambda>(i, j). (i + dx, 0))
         else if ds_xydir sp \<and> dy < 0 then fill (dy * axlen1) (\<lambda>(i, j). (j + 1) div abs dy) (\<lambda>(i, j). (i + dx, axlen2 - 1))
         else if \<not> ds_xydir sp \<and> 0 < dx then fill dx (\<lambda>(i, j). (axlen1 - i) div abs dx) (\<lambda>(i, j). (0, j + dy))
         else if \<not> ds_xydir sp \<and> dx < 0 then fill dx (\<lambda>(i, j). (i + 1) div abs dx) (\<lambda>(i, j). (axlen1 - 1, j + dy))
         else Some (-1, dst))"

subsection \<open>Writing a block\<close>

record dca_context =
  cx_mode :: int
  cx_iostat :: int
  cx_synchronized :: bool
  cx_npixpkt :: int
  cx_tpixpkt :: int
  cx_dsim :: dsimage

text \<open>The quotient of C for a positive divisor.\<close>

definition c_quot :: "int \<Rightarrow> int \<Rightarrow> int" where
  "c_quot a b = (if a < 0 then - ((- a) div b) else a div b)"

text \<open>The i/o region of a stream, and how it is normalised; the products fit an \<open>int\<close>.\<close>

definition io_rect :: "dca_stream \<Rightarrow> int \<Rightarrow> int \<Rightarrow> (int \<times> int) \<times> (int \<times> int)" where
  "io_rect sp axlen1 axlen2 =
     (let totpix = ds_npix sp * abs (ds_xstep sp) * abs (ds_ystep sp);
          up = (\<lambda>len. c_quot (totpix + len - 1) len) in
      if ds_xydir sp then
        ((ds_x0 sp, if ds_xstep sp < 0 then - up axlen2 else up axlen2), (if 0 < ds_ystep sp then (0, axlen2) else (axlen2 - 1, - axlen2)))
      else
        ((if 0 < ds_xstep sp then (0, axlen1) else (axlen1 - 1, - axlen1)), (ds_y0 sp, if ds_ystep sp < 0 then - up axlen1 else up axlen1)))"

definition io_clip :: "int \<Rightarrow> int \<times> int \<Rightarrow> int \<times> int" where
  "io_clip mv svnv =
     (case svnv of (sv, nv) \<Rightarrow>
        let (sv1, nv1) = (if nv < 0 then (max 0 (sv + nv + 1), - nv) else (sv, nv))
        in (sv1, if mv \<le> sv1 + nv1 - 1 then nv1 - 1 else nv1))"

definition put_pixels :: "nat \<Rightarrow> pixtype list \<Rightarrow> dsimage \<Rightarrow> dsimage" where
  "put_pixels k px ds = ds\<lparr>di_images := (di_images ds)[k := (di_images ds ! k)\<lparr>im_pixels := px\<rparr>]\<rparr>"

definition bad_stream :: "dca_stream \<Rightarrow> int \<Rightarrow> int \<Rightarrow> bool" where
  "bad_stream sp axlen1 axlen2 \<longleftrightarrow> ds_npix sp = 0 \<or> ds_x0 sp < 0 \<or> axlen1 \<le> ds_x0 sp \<or> ds_y0 sp < 0 \<or> axlen2 \<le> ds_y0 sp
     \<or> ds_destimage sp < 1 \<or> ds_xstep sp = 0 \<or> ds_ystep sp = 0"

text \<open>The body of the loop over the streams: the status of the stream is \<open>-1\<close> if it failed.\<close>

definition write_stream :: "(nat \<Rightarrow> bool) \<Rightarrow> pixtype list \<Rightarrow> dca_stream \<Rightarrow> dca_context \<Rightarrow> (int \<times> dca_context) option" where
  "write_stream alloc pixels sp ctx =
     (let ds = cx_dsim ctx; axlen1 = dsim_axlen ds (ds_destimage sp) 0; axlen2 = dsim_axlen ds (ds_destimage sp) 1;
          fail = (\<lambda>c. (-1, c\<lparr>cx_iostat := cx_iostat c + 1\<rparr>)) in
      if bad_stream sp axlen1 axlen2 then Some (fail ctx)
      else let (r1, r2) = io_rect sp axlen1 axlen2; (sv1, nv1) = io_clip axlen1 r1; (sv2, nv2) = io_clip axlen2 r2 in
        do { (io, ds1) \<leftarrow> dsim_StartIO alloc ds (ds_destimage sp) DSO_RDWR [sv1, sv2] [nv1, nv2];
             case io of
               None \<Rightarrow> Some (fail (ctx\<lparr>cx_dsim := ds1\<rparr>))
             | Some k \<Rightarrow>
                 do { let im = nat (ds_destimage sp - 1);
                      (r, px) \<leftarrow> WritePixels (di_iolist ds1 ! k) axlen1 axlen2 pixels sp (im_pixels (di_images ds1 ! im));
                      let ds2 = put_pixels im px ds1;
                      let (f, ds3) = dsim_FinishIO ds2 k;
                      let c = ctx\<lparr>cx_dsim := ds3, cx_iostat := cx_iostat ctx + (if r < 0 then 1 else 0) + (if f < 0 then 1 else 0)\<rparr>;
                      Some (if r < 0 \<or> f < 0 then -1 else 0, c) } })"

fun write_streams :: "(nat \<Rightarrow> bool) \<Rightarrow> pixtype list \<Rightarrow> dca_stream list \<Rightarrow> int \<Rightarrow> dca_context \<Rightarrow> (int \<times> dca_context) option" where
  "write_streams alloc pixels [] status ctx = Some (status, ctx)"
| "write_streams alloc pixels (sp # sps) status ctx =
     (case write_stream alloc pixels sp ctx of None \<Rightarrow> None
      | Some (r, c) \<Rightarrow> write_streams alloc pixels sps (if r < 0 then -1 else status) c)"

definition WritePixelData :: "(nat \<Rightarrow> bool) \<Rightarrow> dca_context \<Rightarrow> dca_stream list \<Rightarrow> pixtype list \<Rightarrow> (int \<times> dca_context) option" where
  "WritePixelData alloc ctx streams pixels =
     map_option (\<lambda>(status, c). (status, c\<lparr>cx_synchronized := False, cx_npixpkt := cx_npixpkt c + 1, cx_tpixpkt := cx_tpixpkt c + 1\<rparr>))
       (write_streams alloc pixels streams 0 (ctx\<lparr>cx_mode := M_WRITING\<rparr>))"

text \<open>The message with the pixels of a block (\<open>DCA_WritePixPixels\<close>), behind the search for the context.\<close>

definition dca_WritePixPixels :: "bool \<Rightarrow> (nat \<Rightarrow> bool) \<Rightarrow> dca_context \<Rightarrow> bool \<Rightarrow> dca_stream list \<Rightarrow> cbyte list \<Rightarrow> dca_context option" where
  "dca_WritePixPixels little alloc ctx swapped streams data =
     (case streams of [] \<Rightarrow> None
      | sp # _ \<Rightarrow>
          let pixels = get_ints little (snd (dsim_EncodePixels little (cx_dsim ctx) (ds_destimage sp) data swapped))
          in map_option (\<lambda>(status, c). if status < 0 then c\<lparr>cx_iostat := cx_iostat c + 1\<rparr> else c) (WritePixelData alloc ctx streams pixels))"

subsection \<open>Encoding\<close>

lemma bswap2_bswap2 [simp]: "bswap2 (bswap2 bs) = bs"
  by (induction bs rule: bswap2.induct) auto

lemma word16_bytes: "push_bit 8 (ucast (ucast (drop_bit 8 w) :: cbyte)) OR ucast (ucast w :: cbyte) = w" for w :: "16 word"
  by (rule bit_word_eqI) (auto simp: bit_simps)

lemma byte_word16: "ucast (push_bit 8 (ucast a :: 16 word) OR ucast b) = b" "ucast (drop_bit 8 (push_bit 8 (ucast a :: 16 word) OR ucast b)) = a" for a b :: cbyte
  by (rule bit_word_eqI, auto simp: bit_simps dest: bit_imp_le_length)+

lemma put16_get16: "put16 little (get16 little a b) = [a, b]"
  unfolding put16_def get16_def by (cases little) (simp_all only: if_True if_False byte_word16)

lemma map16_map16: "map16 little g (map16 little f bs) = map16 little (g \<circ> f) bs"
  by (induction little f bs rule: map16.induct) (auto simp: put16_def get16_def word16_bytes)

lemma map16_id: "(\<And>w. f w = w) \<Longrightarrow> map16 little f bs = bs"
  by (induction little f bs rule: map16.induct) (auto simp: put16_get16)

lemma map16_bswap2: "bswap2 (map16 True f bs) = map16 False f (bswap2 bs)"
  by (induction bs rule: bswap2.induct) (auto simp: put16_def get16_def)

lemma ushort_shift: "word_of_int (sint (word_of_int (uint w - 32768) :: 16 word) + 32768) = w" for w :: "16 word"
  by (simp add: wi_hom_add [symmetric] wi_hom_sub [symmetric])

lemma ushort_codes: "map16 little (\<lambda>w. word_of_int (sint w + 32768)) (map16 little (\<lambda>w. word_of_int (uint w - 32768)) bs) = bs"
  unfolding map16_map16 by (rule map16_id) (simp only: o_def ushort_shift)

text \<open>C35.  The encoding of unsigned short pixels loses nothing and does not depend on the computer: decoding gives the
  pixels back in the byte order that was asked for, and the bytes stored in the file are the same on
  computers of either byte order.\<close>

theorem EncodeUShort_roundtrip:
  "DecodeUShort little (EncodeUShort little pixels swapped) swapped = pixels \<and> EncodeUShort True pixels swapped = EncodeUShort False pixels swapped"
proof
  show "DecodeUShort little (EncodeUShort little pixels swapped) swapped = pixels" unfolding DecodeUShort_def EncodeUShort_def Let_def
    by (cases little; cases swapped) (simp_all only: ushort_codes bswap2_bswap2 if_True if_False simp_thms)
  show "EncodeUShort True pixels swapped = EncodeUShort False pixels swapped" by (simp add: EncodeUShort_def map16_bswap2)
qed

lemma byte_word32: "ucast (be32 a b c d) = d" "ucast (drop_bit 8 (be32 a b c d)) = c" "ucast (drop_bit 16 (be32 a b c d)) = b" "ucast (drop_bit 24 (be32 a b c d)) = a"
  unfolding be32_def by (rule bit_word_eqI, auto simp: bit_simps dest: bit_imp_le_length)+

lemma put32_be32: "put32 little (be32 a b c d) = (if little then [d, c, b, a] else [a, b, c, d])"
  unfolding put32_def Let_def byte_word32 by simp

text \<open>On a host that stores the least significant byte first \<open>EncodeInt\<close> reverses the bytes of every pixel, on
  others it does nothing; in either case an integer read from the buffer has the first byte of the
  message as its most significant one.\<close>

lemma EncodeInt_ints: "get_ints little (EncodeInt little bs) = get_ints False bs"
  by (induction little bs rule: EncodeInt.induct) (auto simp: put32_be32)

subsection \<open>Where the pixels of a stream go\<close>

text \<open>Pixel \<open>k\<close> of the input is stored at index \<open>P k\<close>, for \<open>n\<close> pixels.\<close>

definition put_stream :: "pixtype list \<Rightarrow> int \<Rightarrow> int \<Rightarrow> (int \<Rightarrow> int) \<Rightarrow> nat \<Rightarrow> pixtype list \<Rightarrow> pixtype list" where
  "put_stream src ip istep P n dst = fold (\<lambda>k d. d[nat (P (int k)) := src ! nat (ip + int k * istep)]) [0..<n] dst"

lemma put_stream_Suc: "put_stream src ip istep P (Suc n) dst = put_stream src (ip + istep) istep (\<lambda>k. P (k + 1)) n (dst[nat (P 0) := src ! nat ip])"
proof -
  have "[0..<Suc n] = 0 # map Suc [0..<n]" by (simp add: upt_conv_Cons map_Suc_upt del: upt_Suc)
  then show ?thesis by (simp add: put_stream_def fold_map o_def algebra_simps del: upt_Suc)
qed

lemma put_stream_0 [simp]: "put_stream src ip istep P 0 dst = dst"
  by (simp add: put_stream_def)

lemma put_stream_length [simp]: "length (put_stream src ip istep P n dst) = length dst"
  by (induction n arbitrary: ip P dst) (simp_all add: put_stream_Suc)

lemma put_stream_add: "put_stream src ip istep P (m + n) dst = put_stream src (ip + int m * istep) istep (\<lambda>k. P (k + int m)) n (put_stream src ip istep P m dst)"
  by (induction m arbitrary: ip P dst) (simp_all add: put_stream_Suc algebra_simps)

lemma put_stream_cong: "(\<And>k. 0 \<le> k \<Longrightarrow> k < int n \<Longrightarrow> P k = Q k) \<Longrightarrow> put_stream src ip istep P n dst = put_stream src ip istep Q n dst"
  unfolding put_stream_def by (rule fold_cong) auto

lemma put_stream_read:
  assumes "\<And>k. 0 \<le> k \<Longrightarrow> k < int n \<Longrightarrow> 0 \<le> P k \<and> P k < int (length dst)" "inj_on P {0..<int n}"
  shows "\<forall>k. 0 \<le> k \<and> k < int n \<longrightarrow> put_stream src ip istep P n dst ! nat (P k) = src ! nat (ip + k * istep)"
    "\<forall>i < length dst. (\<forall>k. 0 \<le> k \<and> k < int n \<longrightarrow> P k \<noteq> int i) \<longrightarrow> put_stream src ip istep P n dst ! i = dst ! i"
proof -
  have "(\<forall>k < n. put_stream src ip istep P n dst ! nat (P (int k)) = src ! nat (ip + int k * istep))
      \<and> (\<forall>i < length dst. (\<forall>k < n. P (int k) \<noteq> int i) \<longrightarrow> put_stream src ip istep P n dst ! i = dst ! i)"
    using assms
  proof (induction n)
    case (Suc n)
    let ?d = "put_stream src ip istep P n dst"
    have e: "put_stream src ip istep P (Suc n) dst = ?d[nat (P (int n)) := src ! nat (ip + int n * istep)]" by (simp add: put_stream_def)
    have b: "0 \<le> P (int n)" "P (int n) < int (length dst)" using Suc.prems(1) [of "int n"] by simp_all
    have ne: "P (int n) = P (int k) \<Longrightarrow> False" "0 \<le> P (int k)" if "k < n" for k
      using that Suc.prems(1) [of "int k"] inj_onD [OF Suc.prems(2), of "int n" "int k"] by auto
    have IH: "(\<forall>k < n. ?d ! nat (P (int k)) = src ! nat (ip + int k * istep)) \<and> (\<forall>i < length dst. (\<forall>k < n. P (int k) \<noteq> int i) \<longrightarrow> ?d ! i = dst ! i)"
      using Suc.prems by (intro Suc.IH) (auto intro: inj_on_subset [OF Suc.prems(2)])
    then show ?case unfolding e using b ne(2) by (auto simp: less_Suc_eq nth_list_update nat_eq_iff eq_nat_nat_iff dest: ne(1))
  qed simp
  note r = this
  show "\<forall>k. 0 \<le> k \<and> k < int n \<longrightarrow> put_stream src ip istep P n dst ! nat (P k) = src ! nat (ip + k * istep)"
    using r by (metis int_nat_eq nat_less_iff)
  show "\<forall>i < length dst. (\<forall>k. 0 \<le> k \<and> k < int n \<longrightarrow> P k \<noteq> int i) \<longrightarrow> put_stream src ip istep P n dst ! i = dst ! i"
    using r by auto
qed

lemma copy_run_puts:
  assumes "\<And>t. 0 \<le> t \<Longrightarrow> t < int n \<Longrightarrow> 0 \<le> ip + t * istep \<and> ip + t * istep < int (length src)"
    and "\<And>t. 0 \<le> t \<Longrightarrow> t < int n \<Longrightarrow> op + 4 * ostep * t = 4 * P t \<and> 0 \<le> P t \<and> P t < int (length dst)"
  shows "copy_run src istep ostep n ip op dst = Some (put_stream src ip istep P n dst)"
  using assms
proof (induction n arbitrary: ip op P dst)
  case (Suc n)
  have b: "0 \<le> ip" "ip < int (length src)" "op = 4 * P 0" "0 \<le> P 0" "P 0 < int (length dst)" using Suc.prems(1,2) [of 0] by simp_all
  then have c: "copy_pixel src ip op dst = Some (dst[nat (P 0) := src ! nat ip])" by (simp add: copy_pixel_def)
  have "copy_run src istep ostep n (ip + istep) (op + 4 * ostep) (dst[nat (P 0) := src ! nat ip])
      = Some (put_stream src (ip + istep) istep (\<lambda>k. P (k + 1)) n (dst[nat (P 0) := src ! nat ip]))"
    using Suc.prems(1,2) [of "t + 1" for t] by (intro Suc.IH) (auto simp: algebra_simps)
  then show ?case by (simp add: c put_stream_Suc)
qed simp

lemma fill_loop_puts:
  assumes w: "0 < w" and avail: "\<And>g. 0 \<le> g \<Longrightarrow> avail (IJ g) = w - g mod w" and nr: "\<And>g. 0 \<le> g \<Longrightarrow> next_run (IJ g) = IJ ((g div w + 1) * w)"
    and px: "\<And>g t. 0 \<le> g \<Longrightarrow> 0 \<le> t \<Longrightarrow> t < w - g mod w \<Longrightarrow> pixel (IJ g) + 4 * ostep * t = 4 * B (g + t)"
    and rng: "0 \<le> g" "\<And>k. 0 \<le> k \<Longrightarrow> k < int n \<Longrightarrow> 0 \<le> ip + k * istep \<and> ip + k * istep < int (length src)"
      "\<And>k. 0 \<le> k \<Longrightarrow> k < int n \<Longrightarrow> 0 \<le> B (g + k) \<and> B (g + k) < int (length dst)"
  shows "fill_loop src istep ostep avail next_run pixel (int n) ip (IJ g) dst = Some (put_stream src ip istep (\<lambda>k. B (g + k)) n dst)"
  using rng
proof (induction n arbitrary: g ip dst rule: less_induct)
  case (less n)
  show ?case
  proof (cases "n = 0")
    case False
    have m: "0 \<le> g mod w" "g mod w < w" using w by simp_all
    define np where "np = nat (min (int n) (w - g mod w))"
    have np: "int np = min (int n) (w - g mod w)" "np \<le> n" "0 < np" using m False by (simp_all add: np_def)
    have run: "copy_run src istep ostep np ip (pixel (IJ g)) dst = Some (put_stream src ip istep (\<lambda>k. B (g + k)) np dst)"
      using np less.prems px [of g] by (intro copy_run_puts) auto
    let ?d = "put_stream src ip istep (\<lambda>k. B (g + k)) np dst" and ?g = "(g div w + 1) * w"
    have step: "fill_loop src istep ostep avail next_run pixel (int n) ip (IJ g) dst
        = fill_loop src istep ostep avail next_run pixel (int (n - np)) (ip + int np * istep) (IJ ?g) ?d"
      using False np run avail [of g] nr [of g] less.prems(1) by (subst fill_loop.simps) (simp add: np_def [symmetric] of_nat_diff Let_def)
    show ?thesis
    proof (cases "np = n")
      case True
      then show ?thesis using step by (simp add: fill_loop.simps)
    next
      case ne: False
      then have "int np = w - g mod w" using np by linarith
      moreover have "?g = g div w * w + w" by (simp add: algebra_simps)
      ultimately have g: "?g = g + int np" using div_mult_mod_eq [of g w] by linarith
      have s: "0 \<le> ip + int np * istep + k * istep \<and> ip + int np * istep + k * istep < int (length src)" if "0 \<le> k" "k < int (n - np)" for k
        using less.prems(2) [of "k + int np"] that np(2) by (simp add: algebra_simps)
      have b: "0 \<le> B (g + int np + k) \<and> B (g + int np + k) < int (length ?d)" if "0 \<le> k" "k < int (n - np)" for k
        using less.prems(3) [of "int np + k"] that np(2) by (simp add: add.assoc)
      have "fill_loop src istep ostep avail next_run pixel (int (n - np)) (ip + int np * istep) (IJ ?g) ?d
          = Some (put_stream src (ip + int np * istep) istep (\<lambda>k. B (?g + k)) (n - np) ?d)"
        unfolding g using np(2,3) less.prems(1) s b by (intro less.IH) simp_all
      then show ?thesis using step put_stream_add [of src ip istep "\<lambda>k. B (g + k)" np "n - np" dst] np(2) g by (simp add: algebra_simps)
    qed
  qed (simp add: fill_loop.simps)
qed

text \<open>The number of pixels in front of the first one of a stream in its line or column, and the coordinates of the
  \<open>g\<close>-th pixel from there on.\<close>

definition stream_start :: "dca_stream \<Rightarrow> int \<Rightarrow> int \<Rightarrow> int" where
  "stream_start sp axlen1 axlen2 =
     (if ds_xydir sp then (if 0 < ds_ystep sp then ds_y0 sp else axlen2 - 1 - ds_y0 sp) else (if 0 < ds_xstep sp then ds_x0 sp else axlen1 - 1 - ds_x0 sp))"

definition run_pos :: "dca_stream \<Rightarrow> int \<Rightarrow> int \<Rightarrow> int \<Rightarrow> int \<times> int" where
  "run_pos sp axlen1 axlen2 g =
     (if ds_xydir sp then (ds_x0 sp + ds_xstep sp * (g div axlen2), if 0 < ds_ystep sp then g mod axlen2 else axlen2 - 1 - g mod axlen2)
      else (if 0 < ds_xstep sp then g mod axlen1 else axlen1 - 1 - g mod axlen1, ds_y0 sp + ds_ystep sp * (g div axlen1)))"

definition stream_pos :: "dca_stream \<Rightarrow> int \<Rightarrow> int \<Rightarrow> int \<Rightarrow> int \<times> int" where
  "stream_pos sp axlen1 axlen2 k = run_pos sp axlen1 axlen2 (stream_start sp axlen1 axlen2 + k)"

definition pix_index :: "int \<Rightarrow> int \<times> int \<Rightarrow> int" where
  "pix_index axlen1 ij = snd ij * axlen1 + fst ij"

definition inside :: "int \<Rightarrow> int \<Rightarrow> int \<times> int \<Rightarrow> bool" where
  "inside axlen1 axlen2 ij \<longleftrightarrow> 0 \<le> fst ij \<and> fst ij < axlen1 \<and> 0 \<le> snd ij \<and> snd ij < axlen2"

text \<open>A stream with steps of one pixel that stays inside the image and the block.\<close>

definition stream_fits :: "dca_stream \<Rightarrow> int \<Rightarrow> int \<Rightarrow> int \<Rightarrow> bool" where
  "stream_fits sp axlen1 axlen2 len \<longleftrightarrow> ds_xstep sp \<in> {1, -1} \<and> ds_ystep sp \<in> {1, -1} \<and> 0 < ds_npix sp \<and> inside axlen1 axlen2 (ds_x0 sp, ds_y0 sp)
     \<and> (\<forall>k \<in> {0..<ds_npix sp}. inside axlen1 axlen2 (stream_pos sp axlen1 axlen2 k) \<and> 0 \<le> ds_offset sp + k * ds_stride sp \<and> ds_offset sp + k * ds_stride sp < len)"

lemma run_shift:
  assumes "0 \<le> t" "t < w - g mod w" "0 < (w::int)"
  shows "(g + t) div w = g div w" "(g + t) mod w = g mod w + t"
proof -
  have "g + t = w * (g div w) + (g mod w + t)" by simp
  moreover have "0 \<le> g mod w + t" "g mod w + t < w" using assms by simp_all
  ultimately show "(g + t) div w = g div w" "(g + t) mod w = g mod w + t" using int_div_pos_eq int_mod_pos_eq by metis+
qed

lemma pix_index_inside: "inside a1 a2 ij \<Longrightarrow> 0 \<le> pix_index a1 ij \<and> pix_index a1 ij < a1 * a2"
proof -
  assume i: "inside a1 a2 ij"
  then have "snd ij * a1 \<le> (a2 - 1) * a1" "0 \<le> snd ij * a1" by (simp_all add: inside_def mult_right_mono)
  then show ?thesis using i by (simp add: inside_def pix_index_def algebra_simps)
qed

lemma pix_index_inj: "inside a1 a2 p \<Longrightarrow> inside a1 a2 q \<Longrightarrow> pix_index a1 p = pix_index a1 q \<Longrightarrow> p = q"
proof -
  assume a: "inside a1 a2 p" "inside a1 a2 q" "pix_index a1 p = pix_index a1 q"
  have "pix_index a1 r div a1 = snd r" "pix_index a1 r mod a1 = fst r" if "inside a1 a2 r" for r
    using that by (simp_all add: pix_index_def inside_def)
  then show ?thesis using a by (metis prod_eqI)
qed

lemma run_pos_inj:
  assumes "ds_xstep sp \<in> {1, -1}" "ds_ystep sp \<in> {1, -1}" "run_pos sp a1 a2 g = run_pos sp a1 a2 g'"
  shows "g = g'"
proof -
  let ?w = "if ds_xydir sp then a2 else a1"
  have "g div ?w = g' div ?w" "g mod ?w = g' mod ?w" using assms by (auto simp: run_pos_def split: if_splits)
  then show ?thesis by (metis div_mult_mod_eq)
qed

lemma stream_indices:
  assumes "stream_fits sp a1 a2 len"
  shows "inj_on (\<lambda>k. pix_index a1 (stream_pos sp a1 a2 k)) {0..<ds_npix sp}" "\<And>k. 0 \<le> k \<Longrightarrow> k < ds_npix sp \<Longrightarrow> 0 \<le> pix_index a1 (stream_pos sp a1 a2 k) \<and> pix_index a1 (stream_pos sp a1 a2 k) < a1 * a2"
proof -
  note f = assms [unfolded stream_fits_def]
  have i: "inside a1 a2 (stream_pos sp a1 a2 k)" if "0 \<le> k" "k < ds_npix sp" for k using f that by simp
  then show "0 \<le> k \<Longrightarrow> k < ds_npix sp \<Longrightarrow> 0 \<le> pix_index a1 (stream_pos sp a1 a2 k) \<and> pix_index a1 (stream_pos sp a1 a2 k) < a1 * a2" for k
    using pix_index_inside by blast
  show "inj_on (\<lambda>k. pix_index a1 (stream_pos sp a1 a2 k)) {0..<ds_npix sp}"
  proof (rule inj_onI)
    fix k k' assume k: "k \<in> {0..<ds_npix sp}" "k' \<in> {0..<ds_npix sp}" "pix_index a1 (stream_pos sp a1 a2 k) = pix_index a1 (stream_pos sp a1 a2 k')"
    then have "stream_pos sp a1 a2 k = stream_pos sp a1 a2 k'" using pix_index_inj i by (metis atLeastLessThan_iff)
    then show "k = k'" using run_pos_inj [of sp a1 a2] f unfolding stream_pos_def by fastforce
  qed
qed

lemma WritePixels_puts:
  assumes fits: "stream_fits sp a1 a2 (int (length pixels))" and rp: "io_stride rp ! 1 = a1" "io_pixsize rp = 4" and dst: "int (length dst) = a1 * a2"
  shows "WritePixels rp a1 a2 pixels sp dst = Some (0, put_stream pixels (ds_offset sp) (ds_stride sp) (\<lambda>k. pix_index a1 (stream_pos sp a1 a2 k)) (nat (ds_npix sp)) dst)"
proof -
  note f = fits [unfolded stream_fits_def]
  let ?w = "if ds_xydir sp then a2 else a1" and ?g = "stream_start sp a1 a2" and ?IJ = "run_pos sp a1 a2" and ?B = "\<lambda>g. pix_index a1 (run_pos sp a1 a2 g)"
  have w: "0 < ?w" "0 \<le> ?g" "?g < ?w" using f by (auto simp: inside_def stream_start_def)
  have start: "?IJ ?g = (ds_x0 sp, ds_y0 sp)" using w f by (auto simp: run_pos_def stream_start_def inside_def)
  have src: "0 \<le> ds_offset sp + k * ds_stride sp \<and> ds_offset sp + k * ds_stride sp < int (length pixels)" if "0 \<le> k" "k < int (nat (ds_npix sp))" for k using f that by auto
  have B: "0 \<le> ?B (?g + k) \<and> ?B (?g + k) < int (length dst)" if "0 \<le> k" "k < int (nat (ds_npix sp))" for k
    using stream_indices(2) [OF fits, of k] that dst f by (simp add: stream_pos_def)
  have px: "dsim_Pixel2D rp (?IJ g) + 4 * ostep * t = 4 * ?B (g + t)"
    if "0 \<le> t" "t < ?w - g mod ?w" "ostep = (if ds_xydir sp then ds_ystep sp * a1 else ds_xstep sp)" for g t ostep
    using run_shift [OF that(1,2) w(1)] that(3) f rp by (auto simp: dsim_Pixel2D_def run_pos_def pix_index_def algebra_simps split: if_splits)
  have fill: "fill_loop pixels (ds_stride sp) (if ds_xydir sp then ds_ystep sp * a1 else ds_xstep sp) avail next_run (dsim_Pixel2D rp) (ds_npix sp) (ds_offset sp) (ds_x0 sp, ds_y0 sp) dst
      = Some (put_stream pixels (ds_offset sp) (ds_stride sp) (\<lambda>k. pix_index a1 (stream_pos sp a1 a2 k)) (nat (ds_npix sp)) dst)"
    if "\<And>g. avail (?IJ g) = ?w - g mod ?w" "\<And>g. next_run (?IJ g) = ?IJ ((g div ?w + 1) * ?w)" for avail next_run
    using fill_loop_puts [where w = ?w and IJ = ?IJ and B = ?B and n = "nat (ds_npix sp)" and g = ?g, OF w(1) that px w(2) src B] f
    unfolding start by (simp add: stream_pos_def)
  have m: "((g div w + 1) * w) div w = g div w + 1" "((g div w + 1) * w) mod w = 0" if "0 < w" for g w :: int using that by simp_all
  consider "ds_xydir sp" "ds_ystep sp = 1" | "ds_xydir sp" "ds_ystep sp = -1" | "\<not> ds_xydir sp" "ds_xstep sp = 1" | "\<not> ds_xydir sp" "ds_xstep sp = -1"
    using f by blast
  then show ?thesis
  proof cases
    case 1
    then show ?thesis using fill [of "\<lambda>(i, j). (a2 - j) div abs (ds_ystep sp)" "\<lambda>(i, j). (i + ds_xstep sp, 0)"] m [of a2] w(1)
      by (simp add: WritePixels_def run_pos_def algebra_simps)
  next
    case 2
    then show ?thesis using fill [of "\<lambda>(i, j). (j + 1) div abs (ds_ystep sp)" "\<lambda>(i, j). (i + ds_xstep sp, a2 - 1)"] m [of a2] w(1)
      by (simp add: WritePixels_def run_pos_def algebra_simps)
  next
    case 3
    then show ?thesis using fill [of "\<lambda>(i, j). (a1 - i) div abs (ds_xstep sp)" "\<lambda>(i, j). (0, j + ds_ystep sp)"] m [of a1] w(1)
      by (simp add: WritePixels_def run_pos_def algebra_simps)
  next
    case 4
    then show ?thesis using fill [of "\<lambda>(i, j). (i + 1) div abs (ds_xstep sp)" "\<lambda>(i, j). (a1 - 1, j + ds_ystep sp)"] m [of a1] w(1)
      by (simp add: WritePixels_def run_pos_def algebra_simps)
  qed
qed

subsection \<open>Streams that fit\<close>

lemma io_clip_fast: "0 < a \<Longrightarrow> io_clip a (if 0 < step then (0, a) else (a - 1, - a)) = (0, a)"
  by (simp add: io_clip_def)

lemma io_clip_slow:
  assumes w: "0 < w" and n: "0 \<le> st" "0 < n" and step: "step \<in> {1, -1}" and s0: "0 \<le> s0" "s0 < a"
    and last: "0 \<le> s0 + step * ((st + n - 1) div w)" "s0 + step * ((st + n - 1) div w) < a"
  shows "case io_clip a (s0, if step < 0 then - c_quot (n + w - 1) w else c_quot (n + w - 1) w) of (sv, nv) \<Rightarrow> 0 \<le> sv \<and> sv + nv \<le> a"
proof -
  define c where "c = (n + w - 1) div w"
  have q: "c_quot (n + w - 1) w = c" using w n by (simp add: c_quot_def c_def)
  have "c \<le> (st + n - 1 + w) div w" using w n unfolding c_def by (intro zdiv_mono1) simp_all
  then have c: "c \<le> (st + n - 1) div w + 1" using w by simp
  have "w div w \<le> c" using w n unfolding c_def by (intro zdiv_mono1) simp_all
  then have "0 < c" using w by simp
  then show ?thesis using c step s0 last unfolding q by (auto simp: io_clip_def)
qed

text \<open>An image of two axes with 4-byte pixels.\<close>

definition plain_image :: "ds_image \<Rightarrow> bool" where
  "plain_image im \<longleftrightarrow> im_naxes im = 2 \<and> length (im_axlen im) = MAXDIM \<and> im_pixsize im = 4 \<and> int (length (im_pixels im)) = im_axlen im ! 0 * im_axlen im ! 1"

definition stream_ok :: "pixtype list \<Rightarrow> dsimage \<Rightarrow> dca_stream \<Rightarrow> bool" where
  "stream_ok pixels ds sp \<longleftrightarrow> 1 \<le> ds_destimage sp \<and> ds_destimage sp \<le> int (length (di_images ds))
     \<and> (let im = di_images ds ! nat (ds_destimage sp - 1) in plain_image im \<and> stream_fits sp (im_axlen im ! 0) (im_axlen im ! 1) (int (length pixels)))"

text \<open>What a stream does to the images of the file.\<close>

definition apply_stream :: "pixtype list \<Rightarrow> dca_stream \<Rightarrow> ds_image list \<Rightarrow> ds_image list" where
  "apply_stream pixels sp ims =
     (let k = nat (ds_destimage sp - 1); im = ims ! k; a1 = im_axlen im ! 0; a2 = im_axlen im ! 1 in
      ims[k := im\<lparr>im_pixels := put_stream pixels (ds_offset sp) (ds_stride sp) (\<lambda>k. pix_index a1 (stream_pos sp a1 a2 k)) (nat (ds_npix sp)) (im_pixels im)\<rparr>])"

lemma stream_region:
  assumes "stream_fits sp a1 a2 len" "io_rect sp a1 a2 = (r1, r2)" "io_clip a1 r1 = (sv1, nv1)" "io_clip a2 r2 = (sv2, nv2)"
  shows "0 \<le> sv1 \<and> sv1 + nv1 \<le> a1 \<and> 0 \<le> sv2 \<and> sv2 + nv2 \<le> a2"
proof -
  note f = assms(1) [unfolded stream_fits_def]
  let ?n = "ds_npix sp" and ?st = "stream_start sp a1 a2"
  have n: "?n * abs (ds_xstep sp) * abs (ds_ystep sp) = ?n" "0 < ?n" using f by auto
  have i: "inside a1 a2 (ds_x0 sp, ds_y0 sp)" "inside a1 a2 (stream_pos sp a1 a2 (?n - 1))" using f by auto
  have st: "0 \<le> ?st" using i(1) by (auto simp: stream_start_def inside_def)
  have a: "0 < a1" "0 < a2" using i(1) by (auto simp: inside_def)
  have e: "?st + (?n - 1) = ?st + ?n - 1" by simp
  show ?thesis
  proof (cases "ds_xydir sp")
    case True
    have "(sv2, nv2) = (0, a2)" using assms(2,4) True io_clip_fast [OF a(2), of "ds_ystep sp"] by (auto simp: io_rect_def Let_def)
    moreover have "0 \<le> sv1 \<and> sv1 + nv1 \<le> a1"
      using io_clip_slow [OF a(2) st n(2), of "ds_xstep sp" "ds_x0 sp" a1] f i assms(2,3) True n(1)
      by (auto simp: io_rect_def Let_def inside_def stream_pos_def run_pos_def e)
    ultimately show ?thesis by simp
  next
    case False
    have "(sv1, nv1) = (0, a1)" using assms(2,3) False io_clip_fast [OF a(1), of "ds_xstep sp"] by (auto simp: io_rect_def Let_def)
    moreover have "0 \<le> sv2 \<and> sv2 + nv2 \<le> a2"
      using io_clip_slow [OF a(1) st n(2), of "ds_ystep sp" "ds_y0 sp" a2] f i assms(2,4) False n(1)
      by (auto simp: io_rect_def Let_def inside_def stream_pos_def run_pos_def e)
    ultimately show ?thesis by simp
  qed
qed

lemma dsim_StartIO_grants:
  assumes "1 \<le> img" "img \<le> int (length (di_images ds))" "im = di_images ds ! nat (img - 1)" "plain_image im" "\<And>n. alloc n"
    and "0 \<le> sv1" "sv1 + nv1 \<le> im_axlen im ! 0" "0 \<le> sv2" "sv2 + nv2 \<le> im_axlen im ! 1"
  obtains k ds1 where "dsim_StartIO alloc ds img mode [sv1, sv2] [nv1, nv2] = Some (Some k, ds1)" "di_images ds1 = di_images ds"
    "io_stride (di_iolist ds1 ! k) ! 1 = im_axlen im ! 0" "io_pixsize (di_iolist ds1 ! k) = 4"
proof -
  have im: "im_naxes im = 2" "im_pixsize im = 4" "im_axlen im ! 0 = hd (im_axlen im)"
    using assms(4) by (cases "im_axlen im"; auto simp: plain_image_def MAXDIM_def)+
  have s: "strides 1 (im_axlen im) MAXDIM ! 1 = im_axlen im ! 0" using im(3) by (simp add: MAXDIM_def numeral_eq_Suc)
  have b: "\<not> (\<exists>i < im_naxes im. [sv1, sv2] ! i < 0 \<or> im_axlen im ! i < [sv1, sv2] ! i + [nv1, nv2] ! i)"
    using im(1) assms(6-9) by (simp add: numeral_2_eq_2 Ex_less_Suc)
  show ?thesis
  proof (cases "first_index (\<lambda>r. io_image r = 0) (di_iolist ds)")
    case None
    then show ?thesis using that assms(1-3,5) b im s by (simp add: dsim_StartIO_def Let_def)
  next
    case (Some k)
    then have "k < length (di_iolist ds)" by (rule first_index_bound)
    then show ?thesis using Some that assms(1-3) b im s by (simp add: dsim_StartIO_def Let_def)
  qed
qed

lemma write_stream_applies:
  assumes "stream_ok pixels (cx_dsim ctx) sp" "\<And>n. alloc n"
  obtains ds' where "write_stream alloc pixels sp ctx = Some (0, ctx\<lparr>cx_dsim := ds'\<rparr>)" "di_images ds' = apply_stream pixels sp (di_images (cx_dsim ctx))"
proof -
  let ?ds = "cx_dsim ctx" and ?k = "nat (ds_destimage sp - 1)"
  define im where "im = di_images ?ds ! ?k"
  define a1 where "a1 = im_axlen im ! 0"
  define a2 where "a2 = im_axlen im ! 1"
  have ok: "1 \<le> ds_destimage sp" "ds_destimage sp \<le> int (length (di_images ?ds))" "plain_image im" "stream_fits sp a1 a2 (int (length pixels))"
    using assms(1) by (simp_all add: stream_ok_def Let_def im_def a1_def a2_def)
  have ax: "dsim_axlen ?ds (ds_destimage sp) 0 = a1" "dsim_axlen ?ds (ds_destimage sp) 1 = a2" using ok(1,2) by (simp_all add: dsim_axlen_def im_def a1_def a2_def)
  have good: "\<not> bad_stream sp a1 a2" using ok(1,4) by (auto simp: bad_stream_def stream_fits_def inside_def)
  obtain r1 r2 sv1 nv1 sv2 nv2 where r: "io_rect sp a1 a2 = (r1, r2)" "io_clip a1 r1 = (sv1, nv1)" "io_clip a2 r2 = (sv2, nv2)" by (metis surj_pair)
  have reg: "0 \<le> sv1" "sv1 + nv1 \<le> im_axlen im ! 0" "0 \<le> sv2" "sv2 + nv2 \<le> im_axlen im ! 1"
    using stream_region [OF ok(4) r] by (simp_all add: a1_def a2_def)
  obtain k ds1 where io: "dsim_StartIO alloc ?ds (ds_destimage sp) DSO_RDWR [sv1, sv2] [nv1, nv2] = Some (Some k, ds1)" "di_images ds1 = di_images ?ds"
      "io_stride (di_iolist ds1 ! k) ! 1 = a1" "io_pixsize (di_iolist ds1 ! k) = 4"
    unfolding a1_def by (rule dsim_StartIO_grants [OF ok(1,2) im_def ok(3) assms(2) reg, where mode = DSO_RDWR])
  have len: "int (length (im_pixels im)) = a1 * a2" using ok(3) by (simp add: plain_image_def a1_def a2_def)
  let ?px = "put_stream pixels (ds_offset sp) (ds_stride sp) (\<lambda>k. pix_index a1 (stream_pos sp a1 a2 k)) (nat (ds_npix sp)) (im_pixels im)"
  have w: "WritePixels (di_iolist ds1 ! k) a1 a2 pixels sp (im_pixels (di_images ds1 ! ?k)) = Some (0, ?px)"
    using WritePixels_puts [OF ok(4) io(3,4) len] io(2) by (simp add: im_def)
  let ?ds' = "snd (dsim_FinishIO (put_pixels ?k ?px ds1) k)"
  have "write_stream alloc pixels sp ctx = Some (0, ctx\<lparr>cx_dsim := ?ds'\<rparr>)"
    using ax good r io(1) w by (simp add: write_stream_def Let_def dsim_FinishIO_def)
  moreover have "di_images ?ds' = apply_stream pixels sp (di_images ?ds)"
    using io(2) by (simp add: dsim_FinishIO_def put_pixels_def apply_stream_def Let_def im_def a1_def a2_def)
  ultimately show ?thesis using that by blast
qed

lemma apply_stream_ok:
  assumes "stream_ok pixels ds sp'" "di_images ds' = apply_stream pixels sp (di_images ds)"
  shows "stream_ok pixels ds' sp'"
proof -
  have "length (di_images ds') = length (di_images ds)" using assms(2) by (simp add: apply_stream_def Let_def)
  moreover have "im_axlen (di_images ds' ! i) = im_axlen (di_images ds ! i) \<and> plain_image (di_images ds' ! i) = plain_image (di_images ds ! i)"
    if "i < length (di_images ds)" for i
    using that assms(2) by (cases "i = nat (ds_destimage sp - 1)") (simp_all add: apply_stream_def Let_def plain_image_def)
  ultimately show ?thesis using assms(1) by (auto simp: stream_ok_def Let_def)
qed

lemma write_streams_apply:
  assumes "\<forall>sp \<in> set sps. stream_ok pixels (cx_dsim ctx) sp" "\<And>n. alloc n"
  shows "\<exists>ds'. write_streams alloc pixels sps status ctx = Some (status, ctx\<lparr>cx_dsim := ds'\<rparr>) \<and> di_images ds' = fold (apply_stream pixels) sps (di_images (cx_dsim ctx))"
  using assms(1)
proof (induction sps arbitrary: ctx)
  case (Cons sp sps)
  obtain ds1 where 1: "write_stream alloc pixels sp ctx = Some (0, ctx\<lparr>cx_dsim := ds1\<rparr>)" "di_images ds1 = apply_stream pixels sp (di_images (cx_dsim ctx))"
    using write_stream_applies [of pixels ctx sp alloc] Cons.prems assms(2) by auto
  have "\<forall>sp \<in> set sps. stream_ok pixels (cx_dsim (ctx\<lparr>cx_dsim := ds1\<rparr>)) sp"
    using Cons.prems apply_stream_ok [OF _ 1(2)] by simp
  then show ?case using Cons.IH [of "ctx\<lparr>cx_dsim := ds1\<rparr>"] 1 by auto
qed (rename_tac c, rule_tac x = "cx_dsim c" in exI, simp)

lemma apply_stream_pixels:
  assumes "stream_ok pixels ds sp" "i = nat (ds_destimage sp - 1)" "im = di_images ds ! i" "a1 = im_axlen im ! 0" "a2 = im_axlen im ! 1"
  shows "\<forall>k. 0 \<le> k \<and> k < ds_npix sp \<longrightarrow>
      im_pixels (apply_stream pixels sp (di_images ds) ! i) ! nat (pix_index a1 (stream_pos sp a1 a2 k)) = pixels ! nat (ds_offset sp + k * ds_stride sp)"
    "\<forall>q < length (im_pixels im). (\<forall>k. 0 \<le> k \<and> k < ds_npix sp \<longrightarrow> pix_index a1 (stream_pos sp a1 a2 k) \<noteq> int q)
      \<longrightarrow> im_pixels (apply_stream pixels sp (di_images ds) ! i) ! q = im_pixels im ! q"
    "j \<noteq> i \<Longrightarrow> apply_stream pixels sp (di_images ds) ! j = di_images ds ! j"
proof -
  have ok: "i < length (di_images ds)" "plain_image im" "stream_fits sp a1 a2 (int (length pixels))"
    using assms by (auto simp: stream_ok_def Let_def)
  then have n: "int (nat (ds_npix sp)) = ds_npix sp" and len: "int (length (im_pixels im)) = a1 * a2"
    using assms(4,5) by (simp_all add: stream_fits_def plain_image_def)
  let ?P = "\<lambda>k. pix_index a1 (stream_pos sp a1 a2 k)"
  have a: "im_pixels (apply_stream pixels sp (di_images ds) ! i) = put_stream pixels (ds_offset sp) (ds_stride sp) ?P (nat (ds_npix sp)) (im_pixels im)"
    using ok(1) assms(2-5) by (simp add: apply_stream_def Let_def)
  have in_range: "0 \<le> ?P k \<and> ?P k < int (length (im_pixels im))" if "0 \<le> k" "k < int (nat (ds_npix sp))" for k
    using stream_indices(2) [OF ok(3) that(1)] that(2) unfolding n len by simp
  have inj: "inj_on ?P {0..<int (nat (ds_npix sp))}" using stream_indices(1) [OF ok(3)] unfolding n .
  show "\<forall>k. 0 \<le> k \<and> k < ds_npix sp \<longrightarrow>
      im_pixels (apply_stream pixels sp (di_images ds) ! i) ! nat (?P k) = pixels ! nat (ds_offset sp + k * ds_stride sp)"
    unfolding a using put_stream_read(1) [OF in_range inj] unfolding n by simp
  show "\<forall>q < length (im_pixels im). (\<forall>k. 0 \<le> k \<and> k < ds_npix sp \<longrightarrow> ?P k \<noteq> int q) \<longrightarrow> im_pixels (apply_stream pixels sp (di_images ds) ! i) ! q = im_pixels im ! q"
    unfolding a using put_stream_read(2) [OF in_range inj] unfolding n by simp
  show "j \<noteq> i \<Longrightarrow> apply_stream pixels sp (di_images ds) ! j = di_images ds ! j" using assms(2) by (simp add: apply_stream_def Let_def)
qed
text \<open>C11.  A block of pixels is written as its streams say: if the streams stay inside their images and the block, go in steps
  of one pixel and write to images of two axes with four bytes to a pixel (\<open>stream_ok\<close>), \<open>WritePixelData\<close> returns without an error and applies the streams to the images one after the other;
  the state of the errors is left alone and the packet is counted.\<close>

theorem WritePixelData_applies:
  assumes "\<forall>sp \<in> set streams. stream_ok pixels (cx_dsim ctx) sp" "\<And>n. alloc n"
  shows "\<exists>c. WritePixelData alloc ctx streams pixels = Some (0, c) \<and> di_images (cx_dsim c) = fold (apply_stream pixels) streams (di_images (cx_dsim ctx))
    \<and> cx_iostat c = cx_iostat ctx \<and> cx_mode c = M_WRITING \<and> \<not> cx_synchronized c \<and> cx_npixpkt c = cx_npixpkt ctx + 1"
proof -
  obtain ds' where "write_streams alloc pixels streams 0 (ctx\<lparr>cx_mode := M_WRITING\<rparr>) = Some (0, ctx\<lparr>cx_mode := M_WRITING, cx_dsim := ds'\<rparr>)"
      "di_images ds' = fold (apply_stream pixels) streams (di_images (cx_dsim ctx))"
    using write_streams_apply [of streams pixels "ctx\<lparr>cx_mode := M_WRITING\<rparr>" alloc 0] assms by auto
  then show ?thesis by (simp add: WritePixelData_def)
qed


text \<open>Two frames of three by two pixels, and streams that fill lines upwards and columns to the left.\<close>

definition frame_ctx :: dca_context where
  "frame_ctx = \<lparr>cx_mode = 0, cx_iostat = 0, cx_synchronized = True, cx_npixpkt = 0, cx_tpixpkt = 0,
     cx_dsim = \<lparr>di_images = replicate 2 \<lparr>im_naxes = 2, im_axlen = [3, 2, 1, 1, 1, 1, 1, 1], im_pixsize = 4, im_encode = IntCode, im_pixels = replicate 6 0\<rparr>,
       di_iolist = []\<rparr>\<rparr>"

definition line_stream :: "int \<Rightarrow> dca_stream" where
  "line_stream y0 = \<lparr>ds_offset = 0, ds_npix = 4, ds_stride = 2, ds_destimage = 1, ds_x0 = 1, ds_y0 = y0, ds_xstep = 1, ds_ystep = 1, ds_xydir = False\<rparr>"

definition column_stream :: dca_stream where
  "column_stream = \<lparr>ds_offset = 1, ds_npix = 3, ds_stride = 2, ds_destimage = 2, ds_x0 = 2, ds_y0 = 1, ds_xstep = -1, ds_ystep = -1, ds_xydir = True\<rparr>"

lemma set_ints: "{0..<4} = {0, 1, 2, 3 :: int}" "{0..<3} = {0, 1, 2 :: int}"
  by auto

lemmas frame_eval = frame_ctx_def line_stream_def column_stream_def stream_ok_def stream_fits_def plain_image_def inside_def stream_pos_def
  run_pos_def stream_start_def MAXDIM_def Let_def set_ints numeral_eq_Suc

lemma frame_streams_ok: "stream_ok [10, 20, 11, 21, 12, 22, 13] (cx_dsim frame_ctx) (line_stream 0)" "stream_ok [10, 20, 11, 21, 12, 22, 13] (cx_dsim frame_ctx) column_stream"
  by (simp_all add: frame_eval)

theorem WritePixelData_applies_witness:
  "\<exists>c. WritePixelData (\<lambda>n. True) frame_ctx [line_stream 0, column_stream] [10, 20, 11, 21, 12, 22, 13] = Some (0, c)
    \<and> map im_pixels (di_images (cx_dsim c)) = [[0, 10, 11, 12, 13, 0], [0, 0, 21, 0, 22, 20]]"
proof -
  have "map im_pixels (fold (apply_stream [10, 20, 11, 21, 12, 22, 13]) [line_stream 0, column_stream] (di_images (cx_dsim frame_ctx))) = [[0, 10, 11, 12, 13, 0], [0, 0, 21, 0, 22, 20]]"
    by (simp add: frame_eval apply_stream_def put_stream_def pix_index_def)
  then show ?thesis
    using WritePixelData_applies [of "[line_stream 0, column_stream]" "[10, 20, 11, 21, 12, 22, 13]" frame_ctx "\<lambda>n. True"] frame_streams_ok by auto
qed

text \<open>C12.  Where the pixels of a stream end up: pixel \<open>k\<close> of a stream is found at the \<open>k\<close>-th place of its path through the image, lines
  or columns being filled one after the other in the direction of the steps, and every other pixel of every image is as before.  As above the
  steps are of one pixel, and the image has two axes and four bytes to a pixel.\<close>

theorem WritePixelData_places:
  assumes "stream_ok pixels (cx_dsim ctx) sp" "\<And>n. alloc n"
    and "i = nat (ds_destimage sp - 1)" "im = di_images (cx_dsim ctx) ! i" "a1 = im_axlen im ! 0" "a2 = im_axlen im ! 1"
  shows "\<exists>c px. WritePixelData alloc ctx [sp] pixels = Some (0, c) \<and> di_images (cx_dsim c) = (di_images (cx_dsim ctx))[i := im\<lparr>im_pixels := px\<rparr>]
    \<and> length px = length (im_pixels im)
    \<and> (\<forall>k \<in> {0..<ds_npix sp}. px ! nat (pix_index a1 (stream_pos sp a1 a2 k)) = pixels ! nat (ds_offset sp + k * ds_stride sp))
    \<and> (\<forall>q < length px. int q \<notin> (\<lambda>k. pix_index a1 (stream_pos sp a1 a2 k)) ` {0..<ds_npix sp} \<longrightarrow> px ! q = im_pixels im ! q)"
proof -
  let ?px = "im_pixels (apply_stream pixels sp (di_images (cx_dsim ctx)) ! i)"
  obtain ds' where w: "write_stream alloc pixels sp (ctx\<lparr>cx_mode := M_WRITING\<rparr>) = Some (0, ctx\<lparr>cx_mode := M_WRITING, cx_dsim := ds'\<rparr>)"
      "di_images ds' = apply_stream pixels sp (di_images (cx_dsim ctx))"
    using write_stream_applies [of pixels "ctx\<lparr>cx_mode := M_WRITING\<rparr>" sp alloc] assms(1,2) by auto
  have i: "i < length (di_images (cx_dsim ctx))" using assms(1,3) by (auto simp: stream_ok_def)
  have "di_images ds' = (di_images (cx_dsim ctx))[i := im\<lparr>im_pixels := ?px\<rparr>]" "length ?px = length (im_pixels im)"
    using w(2) i assms(3,4) by (simp_all add: apply_stream_def Let_def)
  moreover obtain c where "WritePixelData alloc ctx [sp] pixels = Some (0, c)" "cx_dsim c = ds'" using w(1) by (simp add: WritePixelData_def)
  moreover have "\<forall>k \<in> {0..<ds_npix sp}. ?px ! nat (pix_index a1 (stream_pos sp a1 a2 k)) = pixels ! nat (ds_offset sp + k * ds_stride sp)"
    using apply_stream_pixels(1) [OF assms(1,3-6)] by simp
  moreover have "?px ! q = im_pixels im ! q" if "q < length ?px" "int q \<notin> (\<lambda>k. pix_index a1 (stream_pos sp a1 a2 k)) ` {0..<ds_npix sp}" for q
    using apply_stream_pixels(2) [OF assms(1,3-6)] that calculation(2) by (metis atLeastLessThan_iff imageI)
  ultimately show ?thesis by (intro exI [of _ c] exI [of _ ?px]) simp
qed

theorem WritePixelData_places_witness:
  "\<exists>c px. WritePixelData (\<lambda>n. True) frame_ctx [column_stream] [10, 20, 11, 21, 12, 22, 13] = Some (0, c)
    \<and> im_pixels (di_images (cx_dsim c) ! 1) = px \<and> px ! 5 = 20 \<and> px ! 2 = 21 \<and> px ! 4 = 22 \<and> px ! 0 = 0"
proof -
  let ?im = "di_images (cx_dsim frame_ctx) ! 1"
  have e: "1 = nat (ds_destimage column_stream - 1)" "3 = im_axlen ?im ! 0" "2 = im_axlen ?im ! 1" "ds_npix column_stream = 3" "im_pixels ?im = replicate 6 0"
      "length (di_images (cx_dsim frame_ctx)) = 2" by (simp_all add: frame_ctx_def column_stream_def)
  obtain c px where w: "WritePixelData (\<lambda>n. True) frame_ctx [column_stream] [10, 20, 11, 21, 12, 22, 13] = Some (0, c)"
     "di_images (cx_dsim c) = (di_images (cx_dsim frame_ctx))[1 := ?im\<lparr>im_pixels := px\<rparr>]" "length px = length (im_pixels ?im)"
     "\<forall>k \<in> {0..<3}. px ! nat (pix_index 3 (stream_pos column_stream 3 2 k)) = [10, 20, 11, 21, 12, 22, 13] ! nat (ds_offset column_stream + k * ds_stride column_stream)"
     "\<forall>q < length px. int q \<notin> (\<lambda>k. pix_index 3 (stream_pos column_stream 3 2 k)) ` {0..<3} \<longrightarrow> px ! q = im_pixels ?im ! q"
    using WritePixelData_places [OF frame_streams_ok(2) TrueI e(1) refl e(2,3)] unfolding e(4) by blast
  have "im_pixels (di_images (cx_dsim c) ! 1) = px" using w(2) e(6) by simp
  moreover have "px ! 5 = 20 \<and> px ! 2 = 21 \<and> px ! 4 = 22" using w(4) by (simp add: frame_eval pix_index_def)
  moreover have "px ! 0 = 0" using w(3,5) e(5) by (simp add: frame_eval pix_index_def)
  ultimately show ?thesis using w(1) by blast
qed

lemma copy_run_outside: "4 * int (length dst) \<le> op \<Longrightarrow> 0 < n \<Longrightarrow> copy_run src istep ostep n ip op dst = None"
  by (cases n) (simp_all add: copy_pixel_def)

lemma WritePixels_past_end:
  assumes sp: "\<not> ds_xydir sp" "ds_xstep sp = 1" "ds_ystep sp = 1" "0 \<le> ds_x0 sp" "ds_x0 sp < a1" "ds_y0 sp = a2 - 1" "0 < a2" "a1 - ds_x0 sp < ds_npix sp"
    and src: "\<forall>k \<in> {0..<ds_npix sp}. 0 \<le> ds_offset sp + k * ds_stride sp \<and> ds_offset sp + k * ds_stride sp < int (length pixels)"
    and rp: "io_stride rp ! 1 = a1" "io_pixsize rp = 4" and dst: "int (length dst) = a1 * a2"
  shows "WritePixels rp a1 a2 pixels sp dst = None"
proof -
  let ?np = "nat (a1 - ds_x0 sp)" and ?avail = "\<lambda>(i, j). (a1 - i) div abs (ds_xstep sp)" and ?next = "\<lambda>(i, j). (0, j + ds_ystep sp)"
  let ?fill = "fill_loop pixels (ds_stride sp) 1 ?avail ?next (dsim_Pixel2D rp)"
  let ?P = "\<lambda>t. (a2 - 1) * a1 + ds_x0 sp + t"
  have rng: "0 \<le> ?P t \<and> ?P t < int (length dst)" if "0 \<le> t" "t < int ?np" for t
  proof -
    define A where "A = (a2 - 1) * a1"
    have "0 \<le> A" "int (length dst) = A + a1" using sp(4,5,7) dst by (simp_all add: A_def algebra_simps)
    then show ?thesis using that sp(4,5) unfolding A_def [symmetric] by simp
  qed
  have 1: "copy_run pixels (ds_stride sp) 1 ?np (ds_offset sp) (dsim_Pixel2D rp (ds_x0 sp, ds_y0 sp)) dst
      = Some (put_stream pixels (ds_offset sp) (ds_stride sp) ?P ?np dst)"
    using src sp(5,8) rng rp sp(6) by (intro copy_run_puts) (auto simp: dsim_Pixel2D_def)
  let ?d = "put_stream pixels (ds_offset sp) (ds_stride sp) ?P ?np dst" and ?left = "ds_npix sp - (a1 - ds_x0 sp)"
  have 2: "copy_run pixels (ds_stride sp) 1 (nat (min ?left a1)) ip (dsim_Pixel2D rp (0, a2)) ?d = None" for ip
    using sp(4,5,8) rp dst by (intro copy_run_outside) (auto simp: dsim_Pixel2D_def algebra_simps)
  have "?fill ?left ip (0, a2) ?d = None" for ip
    using sp(2,8) 2 by (subst fill_loop.simps) (simp add: Let_def)
  then have "?fill (ds_npix sp) (ds_offset sp) (ds_x0 sp, ds_y0 sp) dst = None"
    using sp(2-8) 1 by (subst fill_loop.simps) (simp add: Let_def min_def)
  then show ?thesis using sp(1,2) by (simp add: WritePixels_def Let_def)
qed

text \<open>C34.  The check of the region does not keep a stream inside its image: the region is clipped by one line, whatever is needed, so
  a stream that starts in the last line and goes on beyond its end is accepted and written behind the pixels of the image.\<close>

theorem WritePixelData_overruns:
  assumes "1 \<le> ds_destimage sp" "ds_destimage sp \<le> int (length (di_images (cx_dsim ctx)))" "\<And>n. alloc n"
    and im: "im = di_images (cx_dsim ctx) ! nat (ds_destimage sp - 1)" "plain_image im" "a1 = im_axlen im ! 0" "a2 = im_axlen im ! 1"
    and sp: "\<not> ds_xydir sp" "ds_xstep sp = 1" "ds_ystep sp = 1" "0 \<le> ds_x0 sp" "ds_x0 sp < a1" "ds_y0 sp = a2 - 1" "0 < a2" "a1 - ds_x0 sp < ds_npix sp"
    and src: "\<forall>k \<in> {0..<ds_npix sp}. 0 \<le> ds_offset sp + k * ds_stride sp \<and> ds_offset sp + k * ds_stride sp < int (length pixels)"
    and "ds_npix sp \<le> 2 * a1"
  shows "WritePixelData alloc ctx [sp] pixels = None"
proof -
  let ?ds = "cx_dsim ctx"
  have ax: "dsim_axlen ?ds (ds_destimage sp) 0 = a1" "dsim_axlen ?ds (ds_destimage sp) 1 = a2" using assms(1,2) im by (simp_all add: dsim_axlen_def)
  have good: "\<not> bad_stream sp a1 a2" using assms(1) sp by (simp add: bad_stream_def)
  define up where "up = (ds_npix sp + a1 - 1) div a1"
  have "up \<le> (2 * a1 + (a1 - 1)) div a1" "a1 div a1 \<le> up" unfolding up_def using sp(4,5,8) assms(17) by (intro zdiv_mono1; simp)+
  moreover have "(2 * a1 + (a1 - 1)) div a1 = 2" "a1 div a1 = 1" using sp(4,5) by (simp_all add: int_div_pos_eq [where r = "a1 - 1"])
  ultimately have up: "up = 1 \<or> up = 2" by auto
  have "c_quot (ds_npix sp + a1 - 1) a1 = up" using sp(4,5,8) by (simp add: c_quot_def up_def)
  then have r: "io_rect sp a1 a2 = ((0, a1), (a2 - 1, up))" using sp(1-3,6) by (simp add: io_rect_def Let_def)
  have c: "io_clip a1 (0, a1) = (0, a1)" "io_clip a2 (a2 - 1, up) = (a2 - 1, 1)" using sp(4,5,7) up by (auto simp: io_clip_def)
  have reg: "(0 :: int) \<le> 0" "0 + a1 \<le> im_axlen im ! 0" "0 \<le> a2 - 1" "a2 - 1 + 1 \<le> im_axlen im ! 1" using im(3,4) sp(7) by simp_all
  obtain k ds1 where io: "dsim_StartIO alloc ?ds (ds_destimage sp) DSO_RDWR [0, a2 - 1] [a1, 1] = Some (Some k, ds1)" "di_images ds1 = di_images ?ds"
      "io_stride (di_iolist ds1 ! k) ! 1 = a1" "io_pixsize (di_iolist ds1 ! k) = 4"
    unfolding im(3) by (rule dsim_StartIO_grants [OF assms(1,2) im(1,2) assms(3) reg [unfolded im(3)], where mode = DSO_RDWR])
  have "int (length (im_pixels im)) = a1 * a2" using im(2-4) by (simp add: plain_image_def)
  then have "WritePixels (di_iolist ds1 ! k) a1 a2 pixels sp (im_pixels im) = None" by (rule WritePixels_past_end [OF sp src io(3,4)])
  then have "write_stream alloc pixels sp (ctx\<lparr>cx_mode := M_WRITING\<rparr>) = None"
    using ax good r c io im(1) by (simp add: write_stream_def Let_def)
  then show ?thesis by (simp add: WritePixelData_def)
qed

theorem WritePixelData_overruns_witness: "WritePixelData (\<lambda>n. True) frame_ctx [line_stream 1] [10, 20, 11, 21, 12, 22, 13] = None"
  by (rule WritePixelData_overruns [where ?a1.0 = 3 and ?a2.0 = 2 and im = "di_images (cx_dsim frame_ctx) ! 0"])
    (simp_all add: frame_eval)

end
