(* ===== verification/Spec2Isabelle.thy ===== *)
theory Spec2Isabelle
  imports KwdbUpdate PanDevice Rectify VmCache DcaPixels
begin

text \<open>
  \<^bold>\<open>The NEWFIRM Data Handling System: a verification library.\<close>

  \<^bold>\<open>The program.\<close>  An exposure of the instrument is sent by two PAN computers to collectors, which
  put its pixel rasters and its meta-data into a shared memory cache (\<^verbatim>\<open>lib/smc\<close>).  The SMC manager
  (\<^verbatim>\<open>smcmgr\<close>) rectifies the rasters for the display, the pixel feed (\<^verbatim>\<open>pxf\<close>) hands the pages to the
  DCA (\<^verbatim>\<open>mosdca\<close>), which collects the keywords in a database (\<^verbatim>\<open>mosdca/kwdb.c\<close>), writes FITS headers and maps the
  image files through a cache of its own (\<^verbatim>\<open>mosdca/vmcache.c\<close>),
  and the supervisor (\<^verbatim>\<open>dhssup\<close>) keeps a table of all these processes and a queue of exposures and
  starts the processing of one exposure at a time.

  \<^bold>\<open>Theories.\<close>
  \<^item> \<open>Prelude\<close>: C values and strings, searching a list, generic lemmas.  \<open>Links\<close>: lists linked through
    indices.
  \<^item> \<open>SmState\<close> (\<^verbatim>\<open>lib/smc/smState.c\<close>): the table of the processes attached to a page or the cache.  The
    locale \<open>process_table\<close> says how looking up and modifying an entry interact; it is interpreted
    on the table and gives the laws of all getters and setters.
  \<^item> \<open>SmConfig\<close> (\<^verbatim>\<open>lib/smc/smConfig.c\<close>): options, configuration strings and files.  Formatted options
    are read back; limits of every parsed configuration.
  \<^item> \<open>SmUtil\<close> (\<^verbatim>\<open>lib/smc/smUtil.c\<close>): System V segments and lock files.  What is read back from the
    lock file written for a cache: its path, size, key and address, and the rest within the limits of the parser.
  \<^item> \<open>SmPage\<close> (\<^verbatim>\<open>include/smCache.h\<close>, \<^verbatim>\<open>lib/smc/smCache.c\<close>): pages, the headers of their segments and
    their attributes; the locale \<open>header_field\<close> is interpreted on the five fields of the header.
  \<^item> \<open>SmMutex\<close>: the semaphore, as a step relation over interleaved processes: exclusion, and how a
    late initialisation breaks it.
  \<^item> \<open>SmCache\<close>: allocation and release of pages.  \<open>smc_inv\<close> is the invariant of the page array; the locale
    \<open>slot_pool\<close> (a pool of slots that are handed out and given back) is interpreted on \<open>smcGetPage\<close>
    and \<open>smcDetach\<close>, so that no page has two holders in any sequence of calls.
  \<^item> \<open>SmReader\<close>: \<open>smcNextPage\<close>, \<open>smcNextByExpID\<close>, \<open>smcFindPage\<close>.  Every fresh page is delivered once.
  \<^item> \<open>SmOpen\<close>: opening, initialising and closing a cache.
  \<^item> \<open>Kwdb\<close>, \<open>KwdbInv\<close>, \<open>KwdbSpec\<close> (\<^verbatim>\<open>mosdca/kwdb.c\<close>): the keyword database.  \<open>kw_wf\<close> is the invariant of the
    item table, the string buffer, the hash threads and the global list; \<open>kw_view\<close> the list of
    entries it stands for; each operation is shown to refine the operation on that list.  The locale
    \<open>kw_accessor\<close> (a field with its getter and setter) is interpreted on value, comment and type.
  \<^item> \<open>KwdbFits\<close>: reading and writing FITS headers and the trimming of blank lines.  \<open>KwdbUpdate\<close>: the header
    of a file: keyword cards that are written are read back, short strings padded, and how an update reaches the data behind a header.
  \<^item> \<open>ProcQueue\<close> (\<^verbatim>\<open>dhssup/supQueue.c\<close>): the ring of exposures refines a bounded list; the locale
    \<open>exposure_queue\<close> states that contract and is interpreted on the ring.  \<open>sup_reach\<close> is the transition
    system of the handlers around the queue (\<^verbatim>\<open>supClient.c\<close>, \<^verbatim>\<open>supPanHandler.c\<close>, \<^verbatim>\<open>supIO.c\<close>); exposures are
    started in the order of their arrival, once, and one at a time.
  \<^item> \<open>SupProc\<close> (\<^verbatim>\<open>dhssup/supProc.c\<close>, \<^verbatim>\<open>supPanHandler.c\<close>): the process table and the connection table,
    the handlers for the opening and the closing of an exposure; what cleaning the table keeps, and how collectors that
    come and go use up the connection table (\<open>come_and_go\<close>).
  \<^item> \<open>DcaChannel\<close> (\<^verbatim>\<open>lib/dcalib/dcaSend.c\<close>, \<^verbatim>\<open>dcaRecv.c\<close>): messages over a socket whose reads and writes are cut up,
    interrupted or fail; what is sent is what is received.
  \<^item> \<open>Collector\<close> (\<^verbatim>\<open>collector/colPanHandler.c\<close>): the handler for the messages of a PAN, on top of the channel,
    the cache and its lock.
  \<^item> \<open>DhsClient\<close> (\<^verbatim>\<open>lib/dhslib\<close>, \<^verbatim>\<open>lib/dcalib/dcamsg.c\<close>): the library of the PAN.  Pixels that the library
    sends are found in the cache after the collector has read them, and so is a block of meta-data; and where this goes
    wrong: oversized meta-data, and the names of directories and files, which \<open>dhsUtilOpenExp\<close> sends from buffers
    that are too short.
  \<^item> \<open>PanDevice\<close> (\<^verbatim>\<open>dhssup/supPanHandler.c\<close>, \<^verbatim>\<open>lib/dcalib/dcaDev.c\<close>): the supervisor's handler for the messages of a
    PAN, on top of the process table, the queue and the channels of the clients (\<^verbatim>\<open>supSocket.c\<close>).  How a PAN finds its
    collector through it, and how closing a connection leaves its channel occupied.
  \<^item> \<open>VmCache\<close> (\<^verbatim>\<open>mosdca/vmcache.c\<close>): the cache of mapped file segments of the DCA, a doubly linked list in an
    explicit store.  \<open>vm_inv\<close> is its invariant, \<open>sg_view\<close> the list of segments it stands for.  A descriptor
    that is freed leaves the store, so that a read after \<open>free\<close> is a fault, and \<open>unsigned long\<close> has 32 bits, as the
    program is built with \<^verbatim>\<open>-m32\<close>.  Mapping and releasing of regions is shown correct; making room and closing the cache
    read freed descriptors, an over-full cache is not noticed, a failed mapping is cached, and a second use of the last segment
    breaks the list.
  \<^item> \<open>DcaPixels\<close> (\<^verbatim>\<open>mosdca/mosdca.c\<close>, \<^verbatim>\<open>mosdca/dsim.c\<close>): the pixels of a message are encoded and spread over lines or
    columns of an image.  \<open>apply_stream\<close> is the specification of a stream; where every pixel of a stream ends up, and a
    stream that the check of its region lets past the end of the image.
  \<^item> \<open>Rotate\<close> (\<^verbatim>\<open>smcmgr/rotate.c\<close>, \<^verbatim>\<open>smcmgr/smcRectify.c\<close>): flips and transpositions of a raster and the
    rectification of a page.  \<open>Rectify\<close>: the loop over the pages of an exposure, on top of the cache; it
    returns, turns every raster of the exposure, detaches its pages and changes no other page, segment or header.

  \<^bold>\<open>Conventions.\<close>  A pointer into an array is an index, the null pointer \<open>None\<close> or 0.  An outer \<open>None\<close>
  is an access outside an array, a buffer or a string, a call of \<open>exit\<close>, or a call that does not
  return.  The return codes \<open>OK\<close> and \<open>ERR\<close> are kept.  \<open>XLONG\<close> is a word of 32 bits where it may wrap
  around; a \<open>double\<close> is a rational number, since only sums, differences and comparisons of exactly
  represented identifiers and times occur.  The kernel, the clock, the file system, the host name
  and \<open>malloc\<close> are parameters.  A call of \<open>semop\<close> that returns has succeeded, and the collector is granted the memory for
  a block of meta-data.

  \<^bold>\<open>Loops.\<close>  A loop with a bound is a recursion with a measure; one that may run forever
  (\<open>nextpage_loop\<close>, the throttle, \<open>col_loop\<close>, \<open>smcRectify\<close>, the walks along the links of the keyword database, the queue and the
  segments, the scan of \<open>vm_initcache\<close>) is a
  \<open>partial_function\<close>, and the theorems show that it returns under the invariant.  No fuel is used.

  \<^bold>\<open>What is not modelled.\<close>  The third-party libraries (PVM, CFITSIO, CDL); the opening of sockets and
  the message bus (\<^verbatim>\<open>lib/dcalib/dcaInitChannel.c\<close>, \<^verbatim>\<open>dcaSuper.c\<close>, \<^verbatim>\<open>lib/msg\<close>, the ports of \<^verbatim>\<open>supSocket.c\<close>), whose behaviour is that of
  the operating system and of PVM and which are parameters where the code that is modelled calls them; the main loops, the Tcl bindings and the GUI; printing for debugging; the statistics
  and the display of \<^verbatim>\<open>smcRTD.c\<close>.
\<close>

end
